(* ===== verification/Prelude.thy ===== *)
theory Prelude
  imports Main "HOL-Library.AList" "HOL-Library.Multiset" "HOL-Library.Word"
begin

text \<open>
  What the component theories share: the types that name the proxy's identifiers and times,
  Rust's unsigned 32-bit arithmetic on \<open>nat\<close>, the \<open>HashMap\<close> interface, and a few
  facts about sums.

  \<^item> \<open>Instant\<close> and \<open>Duration\<close> are natural numbers of one unit, so
    \<open>saturating_duration_since\<close> is \<open>nat\<close> subtraction. The panic of \<open>Instant + Duration\<close>
    past the clock's range is outside the model.
  \<^item> A \<open>u32\<close> is a \<open>nat\<close>; \<open>u32_max\<close> is written out wherever the source saturates, and
    \<open>wrap32\<close> wherever it uses the wrapping operators.
  \<^item> A \<open>HashMap\<close> is an association list with distinct keys. The iteration order of the
    list stands for the unspecified order of the source's iteration.
\<close>

subsection \<open>Identifiers and time\<close>

type_synonym node_id = nat
type_synonym server_id = string
type_synonym tenant_id = string
type_synonym instant = nat
type_synonym duration = nat

named_theorems sat_simps "saturating arithmetic, unfolded"
named_theorems inv_intros "invariant preservation, one rule per operation"

subsection \<open>Unsigned 32-bit arithmetic\<close>

text \<open>\<open>Duration::from_secs\<close>, in nanoseconds.\<close>

definition from_secs :: "nat \<Rightarrow> duration" where
  "from_secs s = s * 1000000000"

definition from_millis :: "nat \<Rightarrow> duration" where
  "from_millis ms = ms * 1000000"

definition u32_max :: nat where
  "u32_max = 4294967295"

definition sat_add :: "nat \<Rightarrow> nat \<Rightarrow> nat" where
  "sat_add a b = min (a + b) u32_max"

definition sat_mul :: "nat \<Rightarrow> nat \<Rightarrow> nat" where
  "sat_mul a b = min (a * b) u32_max"

text \<open>\<open>Iterator::sum\<close> over \<open>u32\<close>, in a release build: the sum wraps.\<close>

definition wrap32 :: "nat \<Rightarrow> nat" where
  "wrap32 n = n mod 4294967296"

definition sum_u32 :: "nat list \<Rightarrow> nat" where
  "sum_u32 xs = wrap32 (sum_list xs)"

text \<open>\<open>u32::try_from(n).unwrap_or(u32::MAX)\<close> for a \<open>usize\<close>.\<close>

definition try_u32 :: "nat \<Rightarrow> nat" where
  "try_u32 n = min n u32_max"

lemma sat_add_le [simp]: "sat_add a b \<le> a + b"
  by (simp add: sat_add_def)

lemma sat_add_max [simp]: "sat_add a b \<le> u32_max"
  by (simp add: sat_add_def)

lemma sat_add_exact [sat_simps]: "a + b \<le> u32_max \<Longrightarrow> sat_add a b = a + b"
  by (simp add: sat_add_def)

lemma sat_mul_exact [sat_simps]: "a * b \<le> u32_max \<Longrightarrow> sat_mul a b = a * b"
  by (simp add: sat_mul_def)

lemma sat_mul_le [simp]: "sat_mul a b \<le> a * b"
  by (simp add: sat_mul_def)

lemma wrap32_exact [sat_simps]: "n \<le> u32_max \<Longrightarrow> wrap32 n = n"
  by (simp add: wrap32_def u32_max_def)

lemma wrap32_le [simp]: "wrap32 n \<le> u32_max"
proof -
  have "n mod 4294967296 < 4294967296" by simp
  then show ?thesis by (simp only: wrap32_def u32_max_def)
qed

lemma sum_u32_exact [sat_simps]: "sum_list xs \<le> u32_max \<Longrightarrow> sum_u32 xs = sum_list xs"
  by (simp add: sum_u32_def wrap32_exact)

lemma try_u32_le [simp]: "try_u32 n \<le> n" "try_u32 n \<le> u32_max"
  by (simp_all add: try_u32_def)

lemma try_u32_exact [sat_simps]: "n \<le> u32_max \<Longrightarrow> try_u32 n = n"
  by (simp add: try_u32_def)

subsection \<open>Sums over lists\<close>

lemma sum_list_bound:
  fixes f :: "'a \<Rightarrow> nat"
  assumes "\<And>x. x \<in> set xs \<Longrightarrow> f x \<le> b"
  shows "sum_list (map f xs) \<le> length xs * b"
  using assms by (induction xs) (auto simp: add_mono)

lemma sum_list_map_mono:
  fixes f g :: "'a \<Rightarrow> nat"
  assumes "\<And>x. x \<in> set xs \<Longrightarrow> f x \<le> g x"
  shows "sum_list (map f xs) \<le> sum_list (map g xs)"
  using assms by (induction xs) (auto intro: add_mono)

lemma sum_list_map_add:
  fixes f g :: "'a \<Rightarrow> nat"
  shows "sum_list (map (\<lambda>x. f x + g x) xs) = sum_list (map f xs) + sum_list (map g xs)"
  by (induction xs) auto

lemma sum_list_filter_if:
  fixes f :: "'a \<Rightarrow> nat"
  shows "sum_list (map f (filter P xs)) = sum_list (map (\<lambda>x. if P x then f x else 0) xs)"
  by (induction xs) auto

text \<open>The sum of a function over distinct keys is at most its sum over any list that lists them.\<close>

lemma sum_list_distinct_mono:
  fixes f :: "'a \<Rightarrow> nat"
  assumes "distinct xs" and "set xs \<subseteq> set ys"
  shows "sum_list (map f xs) \<le> sum_list (map f ys)"
proof -
  have "sum_list (map f xs) = sum f (set xs)"
    using assms(1) by (simp add: sum_list_distinct_conv_sum_set)
  also have "\<dots> \<le> sum f (set ys)"
    using assms(2) by (intro sum_mono2) auto
  also have "\<dots> = sum_list (map f (remdups ys))"
    by (simp add: sum_list_distinct_conv_sum_set)
  also have "\<dots> \<le> sum_list (map f ys)"
    by (induction ys) auto
  finally show ?thesis .
qed

subsection \<open>The \<open>HashMap\<close> interface\<close>

text \<open>
  What the components use of \<open>std::collections::HashMap\<close>: a lookup, an insertion that
  replaces, a removal, \<open>retain\<close>, and the entries in some order. Everything the model
  proves of a map it proves from these laws.
\<close>

locale hash_map =
  fixes get :: "'m \<Rightarrow> 'k \<Rightarrow> 'v option"
    and put :: "'k \<Rightarrow> 'v \<Rightarrow> 'm \<Rightarrow> 'm"
    and del :: "'k \<Rightarrow> 'm \<Rightarrow> 'm"
    and retain :: "('k \<times> 'v \<Rightarrow> bool) \<Rightarrow> 'm \<Rightarrow> 'm"
    and entries :: "'m \<Rightarrow> ('k \<times> 'v) list"
    and wf :: "'m \<Rightarrow> bool"
  assumes get_put: "get (put k v m) j = (if j = k then Some v else get m j)"
    and get_del: "get (del k m) j = (if j = k then None else get m j)"
    and get_entries: "wf m \<Longrightarrow> get m k = Some v \<longleftrightarrow> (k, v) \<in> set (entries m)"
    and wf_distinct: "wf m \<Longrightarrow> distinct (map fst (entries m))"
    and entries_retain: "entries (retain P m) = filter P (entries m)"
    and entries_del: "entries (del k m) = filter (\<lambda>(j, _). j \<noteq> k) (entries m)"
    and entries_put: "wf m \<Longrightarrow> mset (entries (put k v m)) = add_mset (k, v) (mset (entries (del k m)))"
    and wf_put: "wf m \<Longrightarrow> wf (put k v m)"
    and wf_del: "wf m \<Longrightarrow> wf (del k m)"
    and wf_retain: "wf m \<Longrightarrow> wf (retain P m)"
begin

lemma sum_put:
  fixes f :: "'k \<times> 'v \<Rightarrow> nat"
  assumes "wf m"
  shows "sum_list (map f (entries (put k v m)))
    = f (k, v) + sum_list (map f (filter (\<lambda>(j, _). j \<noteq> k) (entries m)))"
proof -
  have "sum_mset (image_mset f (mset (entries (put k v m))))
      = f (k, v) + sum_mset (image_mset f (mset (entries (del k m))))"
    by (simp only: entries_put [OF assms] image_mset_add_mset sum_mset.add_mset)
  then show ?thesis
    by (simp only: entries_del flip: mset_map sum_mset_sum_list)
qed

lemma sum_del_le:
  fixes f :: "'k \<times> 'v \<Rightarrow> nat"
  shows "sum_list (map f (entries (del k m))) \<le> sum_list (map f (entries m))"
  unfolding entries_del sum_list_filter_if by (rule sum_list_map_mono) simp

lemma sum_retain_le:
  fixes f :: "'k \<times> 'v \<Rightarrow> nat"
  shows "sum_list (map f (entries (retain P m))) \<le> sum_list (map f (entries m))"
  unfolding entries_retain sum_list_filter_if by (rule sum_list_map_mono) simp

lemma sum_split_key:
  fixes f :: "'k \<times> 'v \<Rightarrow> nat"
  assumes "wf m"
  shows "sum_list (map f (entries m))
    = (case get m k of None \<Rightarrow> 0 | Some v \<Rightarrow> f (k, v))
      + sum_list (map f (filter (\<lambda>(j, _). j \<noteq> k) (entries m)))"
proof -
  have "sum_list (map f es) = (case map_of es k of None \<Rightarrow> 0 | Some v \<Rightarrow> f (k, v))
      + sum_list (map f (filter (\<lambda>(j, _). j \<noteq> k) es))" if "distinct (map fst es)" for es
    using that
    by (induction es) (auto split: option.splits dest: map_of_SomeD simp: image_iff
        intro!: arg_cong [where f = "\<lambda>zs. sum_list (map f zs)"] filter_cong)
  moreover have "map_of (entries m) k = get m k"
    using get_entries [OF assms, of k] wf_distinct [OF assms]
    by (metis map_of_eq_None_iff map_of_is_SomeI not_Some_eq map_of_SomeD)
  ultimately show ?thesis using wf_distinct [OF assms] by simp
qed

lemma sum_over_keys:
  fixes f :: "'k \<times> 'v \<Rightarrow> nat"
  assumes "wf m" and "distinct ks"
  shows "sum_list (map (\<lambda>k. case get m k of None \<Rightarrow> 0 | Some v \<Rightarrow> f (k, v)) ks)
    \<le> sum_list (map f (entries m))"
proof -
  let ?g = "\<lambda>k. case get m k of None \<Rightarrow> 0 | Some v \<Rightarrow> f (k, v)"
  have *: "?g (fst e) = f e" if "e \<in> set (entries m)" for e
    using that get_entries [OF assms(1), of "fst e" "snd e"] by simp
  have "sum_list (map ?g ks) = sum_list (map ?g (filter (\<lambda>k. get m k \<noteq> None) ks))"
    unfolding sum_list_filter_if by (intro arg_cong [where f = sum_list] map_cong) auto
  also have "\<dots> \<le> sum_list (map ?g (map fst (entries m)))"
  proof (rule sum_list_distinct_mono)
    show "set (filter (\<lambda>k. get m k \<noteq> None) ks) \<subseteq> set (map fst (entries m))"
      using get_entries [OF assms(1)] by force
  qed (use assms(2) in simp)
  also have "\<dots> = sum_list (map f (entries m))"
    unfolding map_map by (intro arg_cong [where f = sum_list] map_cong) (auto simp: *)
  finally show ?thesis .
qed

end

text \<open>The association list the model runs on, and that it is such a map.\<close>

type_synonym ('k, 'v) hmap = "('k \<times> 'v) list"

abbreviation hm_get :: "('k, 'v) hmap \<Rightarrow> 'k \<Rightarrow> 'v option" where
  "hm_get \<equiv> map_of"

abbreviation hm_put :: "'k \<Rightarrow> 'v \<Rightarrow> ('k, 'v) hmap \<Rightarrow> ('k, 'v) hmap" where
  "hm_put \<equiv> AList.update"

abbreviation hm_del :: "'k \<Rightarrow> ('k, 'v) hmap \<Rightarrow> ('k, 'v) hmap" where
  "hm_del \<equiv> AList.delete"

abbreviation hm_wf :: "('k, 'v) hmap \<Rightarrow> bool" where
  "hm_wf m \<equiv> distinct (map fst m)"

lemma delete_filter: "AList.delete k m = filter (\<lambda>(j, _). j \<noteq> k) m"
  by (auto simp: AList.delete_eq intro: filter_cong)

lemma mset_update_alist:
  "distinct (map fst m) \<Longrightarrow>
   mset (AList.update k v m) = add_mset (k, v) (mset (filter (\<lambda>(j, _). j \<noteq> k) m))"
proof (induction m)
  case (Cons e m)
  show ?case
  proof (cases "fst e = k")
    case True
    with Cons.prems have "filter (\<lambda>(j, _). j \<noteq> k) m = m"
      by (intro filter_True) (force simp: image_iff)
    with True show ?thesis by (cases e) auto
  next
    case False
    with Cons show ?thesis by (cases e) auto
  qed
qed simp

interpretation hm: hash_map hm_get hm_put hm_del filter "\<lambda>m. m" hm_wf
proof
  fix m :: "('k, 'v) hmap" and j k :: 'k and v :: 'v and P :: "'k \<times> 'v \<Rightarrow> bool"
  show "map_of (AList.update k v m) j = (if j = k then Some v else map_of m j)"
    by (simp add: update_conv)
  show "map_of (AList.delete k m) j = (if j = k then None else map_of m j)"
    by (simp add: delete_conv)
  show "distinct (map fst m) \<Longrightarrow> map_of m k = Some v \<longleftrightarrow> (k, v) \<in> set m"
    by (auto dest: map_of_SomeD)
  show "distinct (map fst m) \<Longrightarrow> distinct (map fst m)" .
  show "filter P m = filter P m" by simp
  show "AList.delete k m = filter (\<lambda>(j, _). j \<noteq> k) m"
    by (rule delete_filter)
  show "distinct (map fst m) \<Longrightarrow>
      mset (AList.update k v m) = add_mset (k, v) (mset (AList.delete k m))"
    by (simp add: mset_update_alist delete_filter)
  show "distinct (map fst m) \<Longrightarrow> distinct (map fst (AList.update k v m))"
    by (rule distinct_update)
  show "distinct (map fst m) \<Longrightarrow> distinct (map fst (AList.delete k m))"
    by (rule distinct_delete)
  show "distinct (map fst m) \<Longrightarrow> distinct (map fst (filter P m))"
    by (rule distinct_map_filter)
qed

declare map_of_eq_Some_iff [simp del]

lemmas hm_simps = hm.get_put hm.get_del
lemmas hm_wfs [intro, simp] = hm.wf_put hm.wf_del hm.wf_retain

lemma filter_put_other:
  "hm_wf m \<Longrightarrow> filter (\<lambda>(j, _). j \<noteq> k) (hm_put k v m) = filter (\<lambda>(j, _). j \<noteq> k) m"
  by (induction m) (auto simp: filter_id_conv image_iff)

lemma hm_set_put: "hm_wf m \<Longrightarrow> set (hm_put k v m) = insert (k, v) {e \<in> set m. fst e \<noteq> k}"
proof -
  assume "hm_wf m"
  from arg_cong [OF mset_update_alist [OF this], of set_mset k v]
  have "set (hm_put k v m) = insert (k, v) (set (filter (\<lambda>(j, _). j \<noteq> k) m))"
    by (simp only: set_mset_mset set_mset_add_mset_insert)
  also have "set (filter (\<lambda>(j, _). j \<noteq> k) m) = {e \<in> set m. fst e \<noteq> k}"
    by (simp add: case_prod_beta')
  finally show ?thesis .
qed

lemma hm_get_retain:
  "hm_wf m \<Longrightarrow> map_of (filter P m) k = (case map_of m k of None \<Rightarrow> None
     | Some v \<Rightarrow> if P (k, v) then Some v else None)"
  by (induction m) (auto split: option.splits simp: map_of_eq_None_iff image_iff dest: map_of_SomeD)

end
