(* ===== verification/Float64.thy ===== *)
theory Float64
  imports Prelude
begin

text \<open>
  The part of IEEE 754 double arithmetic the quota code relies on: scaling a \<open>u32\<close> by a
  configured fraction, \<open>(f64::from(n) * x.clamp(0.0, 1.0)).floor() as u32\<close>. A finite value is
  a sign, a mantissa and a binary exponent, and the product is rounded to 53 bits, to nearest
  with ties to even, as the hardware does it, so the result is the one the program computes.
  A product of a \<open>u32\<close> and a factor of at most 1 is far below the overflow threshold, so
  rounding to infinity is not modelled.
\<close>

datatype f64 = NaN | Inf bool | Fin bool nat int

text \<open>\<open>Fin s m e\<close> is \<open>(-1)\<^sup>s * m * 2\<^sup>e\<close>.\<close>

fun bit_len :: "nat \<Rightarrow> nat" where
  "bit_len n = (if n = 0 then 0 else Suc (bit_len (n div 2)))"

declare bit_len.simps [simp del]

definition le_one :: "nat \<Rightarrow> int \<Rightarrow> bool" where
  "le_one m e \<longleftrightarrow> (if e \<ge> 0 then m * 2 ^ nat e \<le> 1 else m \<le> 2 ^ nat (- e))"

text \<open>\<open>f64::clamp(0.0, 1.0)\<close>; a NaN stays a NaN.\<close>

fun clamp01 :: "f64 \<Rightarrow> f64" where
  "clamp01 NaN = NaN"
| "clamp01 (Inf neg) = (if neg then Fin False 0 0 else Fin False 1 0)"
| "clamp01 (Fin neg m e) =
     (if neg \<and> m > 0 then Fin False 0 0 else if le_one m e then Fin neg m e else Fin False 1 0)"

text \<open>Rounding \<open>m * 2\<^sup>e\<close> to the nearest representable double, ties to even.\<close>

definition round_f64 :: "nat \<Rightarrow> int \<Rightarrow> nat \<times> int" where
  "round_f64 m e =
     (let s = max (int (bit_len m) - 53) (- 1074 - e) in
      if s \<le> 0 then (m, e)
      else let d = 2 ^ nat s; q = m div d; r = m mod d in
           (if 2 * r > d \<or> (2 * r = d \<and> odd q) then q + 1 else q, e + s))"

fun mul_from_u32 :: "nat \<Rightarrow> f64 \<Rightarrow> f64" where
  "mul_from_u32 n NaN = NaN"
| "mul_from_u32 n (Inf neg) = (if n = 0 then NaN else Inf neg)"
| "mul_from_u32 n (Fin neg m e) = (case round_f64 (n * m) e of (m', e') \<Rightarrow> Fin neg m' e')"

definition scale_floor :: "nat \<Rightarrow> int \<Rightarrow> nat" where
  "scale_floor m e = (if e \<ge> 0 then m * 2 ^ nat e else m div 2 ^ nat (- e))"

text \<open>\<open>x.floor() as u32\<close>: the cast saturates and takes NaN to 0.\<close>

fun floor_as_u32 :: "f64 \<Rightarrow> nat" where
  "floor_as_u32 NaN = 0"
| "floor_as_u32 (Inf neg) = (if neg then 0 else u32_max)"
| "floor_as_u32 (Fin neg m e) = (if neg then 0 else min (scale_floor m e) u32_max)"

definition fraction_of :: "nat \<Rightarrow> f64 \<Rightarrow> nat" where
  "fraction_of n x = floor_as_u32 (mul_from_u32 n (clamp01 x))"

subsection \<open>Scaling by a fraction never exceeds what was scaled\<close>

lemma bit_len_gt: "n < 2 ^ bit_len n"
proof (induction n rule: bit_len.induct)
  case (1 n)
  then show ?case by (subst bit_len.simps) auto
qed

lemma bit_len_le: "n < 2 ^ k \<Longrightarrow> bit_len n \<le> k"
proof (induction n arbitrary: k rule: bit_len.induct)
  case (1 n)
  show ?case
  proof (cases "n = 0")
    case True
    then show ?thesis by (simp add: bit_len.simps)
  next
    case False
    with "1.prems" obtain j where k: "k = Suc j" by (cases k) auto
    with "1.prems" have "n div 2 < 2 ^ j" by auto
    with "1.IH" False have "bit_len (n div 2) \<le> j" by blast
    with False k show ?thesis by (subst bit_len.simps) simp
  qed
qed

lemma half_even_le:
  fixes p b d :: nat
  assumes "p \<le> b * d" and "d > 0"
  shows "(if 2 * (p mod d) > d \<or> (2 * (p mod d) = d \<and> odd (p div d)) then p div d + 1 else p div d) \<le> b"
proof -
  have le: "p div d \<le> b"
    using assms by (metis div_le_mono nonzero_mult_div_cancel_right not_gr0)
  have "p mod d = 0" if "p div d = b"
    using assms(1) that div_mult_mod_eq [of p d] by simp
  with le assms(2) show ?thesis by (auto simp: le_less)
qed

lemma round_f64_fraction:
  assumes p: "p \<le> n * 2 ^ k" and n: "n \<le> u32_max"
    and r: "round_f64 p (- int k) = (q, e')"
  shows "scale_floor q e' \<le> n"
proof -
  define s where "s = max (int (bit_len p) - 53) (- 1074 + int k)"
  have "p < 2 ^ (32 + k)"
  proof -
    have "n < 2 ^ 32" using n by (simp add: u32_max_def)
    then have "n * 2 ^ k < 2 ^ 32 * 2 ^ k" by simp
    with p show ?thesis unfolding power_add by (rule le_less_trans)
  qed
  then have "int (bit_len p) - 53 \<le> int k"
    using bit_len_le by fastforce
  then have sk: "s \<le> int k" by (simp add: s_def)
  show ?thesis
  proof (cases "s \<le> 0")
    case True
    then have "q = p" "e' = - int k" using r by (auto simp: round_f64_def s_def Let_def)
    moreover have "p div 2 ^ k \<le> n"
      using p by (metis div_le_mono nonzero_mult_div_cancel_right power_eq_0_iff zero_neq_numeral)
    ultimately show ?thesis using p by (cases "k = 0") (auto simp: scale_floor_def)
  next
    case False
    define d where "d = nat (int k - s)"
    have kd: "k = d + nat s" using False sk by (simp add: d_def)
    have e': "e' = - int d" and q: "q \<le> n * 2 ^ d"
    proof -
      show "e' = - int d"
        using r False sk by (auto simp: round_f64_def s_def Let_def d_def split: if_splits)
      have "p \<le> n * 2 ^ d * 2 ^ nat s" using p by (simp add: kd power_add)
      from half_even_le [OF this] show "q \<le> n * 2 ^ d"
        using r False by (auto simp: round_f64_def s_def Let_def split: if_splits)
    qed
    have "q div 2 ^ d \<le> n"
      using q by (metis div_le_mono nonzero_mult_div_cancel_right power_eq_0_iff zero_neq_numeral)
    with e' q show ?thesis by (cases "d = 0") (auto simp: scale_floor_def)
  qed
qed

lemma mul_le_one:
  assumes "le_one m e" and n: "n \<le> u32_max" and r: "round_f64 (n * m) e = (q, e')"
  shows "scale_floor q e' \<le> n"
proof (cases "e < 0")
  case True
  then have "m \<le> 2 ^ nat (- e)" using assms(1) by (simp add: le_one_def)
  then have "n * m \<le> n * 2 ^ nat (- e)" by simp
  with True r n show ?thesis by (intro round_f64_fraction [of "n * m" n "nat (- e)"]) auto
next
  case False
  have bl: "bit_len n \<le> 32"
    using n by (intro bit_len_le) (simp add: u32_max_def)
  from False assms(1) have "m = 0 \<or> (m = 1 \<and> e = 0)"
  proof -
    from False assms(1) have *: "m * 2 ^ nat e \<le> 1" by (simp add: le_one_def)
    show ?thesis
    proof (cases "m = 0")
      case m: False
      from * have "m \<le> 1" by (metis le_trans mult.commute mult_le_mono1 mult_1 one_le_numeral one_le_power)
      with m have "m = 1" by simp
      with * have "(2::nat) ^ nat e \<le> 1" by simp
      then have "nat e = 0" using one_less_power [of "2::nat" "nat e"] by linarith
      with False \<open>m = 1\<close> show ?thesis by simp
    qed simp
  qed
  then show ?thesis
  proof
    assume "m = 0"
    with r False show ?thesis by (auto simp: round_f64_def bit_len.simps scale_floor_def)
  next
    assume "m = 1 \<and> e = 0"
    with r bl show ?thesis by (auto simp: round_f64_def scale_floor_def)
  qed
qed

lemma fraction_of_le: "n \<le> u32_max \<Longrightarrow> fraction_of n x \<le> n"
proof -
  assume n: "n \<le> u32_max"
  have one: "le_one 1 0" and zero: "le_one 0 0" by (simp_all add: le_one_def)
  have "clamp01 x = NaN \<or> (\<exists>neg m e. clamp01 x = Fin neg m e \<and> le_one m e)"
    using one zero by (cases x) auto
  then show ?thesis
    using mul_le_one [OF _ n] by (fastforce simp: fraction_of_def min_le_iff_disj split: prod.splits)
qed

end
