(* ===== verification/Quota.thy ===== *)
theory Quota
  imports Float64
begin

text \<open>
  \<^verbatim>\<open>crates/pgprox-cluster/src/quota.rs\<close>: how a server's connection cap is divided into a guaranteed
  share per node and a free pool the leader leases out, and what one node believes it may hold.
  The lemmas show the two rules the cluster's safety rests on: the parts of a split never sum
  above the cap, and the free pool does not depend on the node count.
\<close>

record quota_split =
  guaranteed_per_node :: nat
  free_pool :: nat
  split_cap :: nat
  split_nodes :: nat

definition split_total :: "quota_split \<Rightarrow> nat" where
  "split_total q = sat_add (sat_mul (guaranteed_per_node q) (split_nodes q)) (free_pool q)"

definition split_quota :: "nat \<Rightarrow> nat \<Rightarrow> f64 \<Rightarrow> quota_split" where
  "split_quota cap nodes guaranteed_fraction =
     (if nodes = 0 then
        \<lparr>guaranteed_per_node = 0, free_pool = cap, split_cap = cap, split_nodes = 0\<rparr>
      else
        let guaranteed_total = fraction_of cap guaranteed_fraction in
        \<lparr>guaranteed_per_node = guaranteed_total div nodes,
         free_pool = cap - guaranteed_total, split_cap = cap, split_nodes = nodes\<rparr>)"

record node_allowance =
  al_server :: server_id
  guaranteed :: nat
  leased :: nat

definition allowance_total :: "node_allowance \<Rightarrow> nat" where
  "allowance_total a = sat_add (guaranteed a) (leased a)"

definition permits :: "node_allowance \<Rightarrow> nat \<Rightarrow> bool" where
  "permits a current \<longleftrightarrow> current < allowance_total a"

subsection \<open>Lemmas\<close>

text \<open>The subtraction \<open>cap - guaranteed_total\<close> cannot underflow, so the two halves are exact.\<close>

lemma split_halves:
  assumes "cap \<le> u32_max" and "nodes > 0"
  shows "fraction_of cap f + free_pool (split_quota cap nodes f) = cap"
  using assms fraction_of_le [of cap f] by (simp add: split_quota_def Let_def)

lemma guaranteed_times_nodes:
  "guaranteed_per_node (split_quota cap nodes f) * nodes \<le> fraction_of cap f"
  by (simp add: split_quota_def Let_def)

lemma free_pool_le_cap: "free_pool (split_quota cap nodes f) \<le> cap"
  by (simp add: split_quota_def Let_def)

lemma free_pool_indep:
  "nodes > 0 \<Longrightarrow> nodes' > 0 \<Longrightarrow> free_pool (split_quota cap nodes f) = free_pool (split_quota cap nodes' f)"
  by (simp add: split_quota_def Let_def)

lemma guaranteed_antimono:
  "0 < nodes \<Longrightarrow> nodes \<le> nodes' \<Longrightarrow>
   guaranteed_per_node (split_quota cap nodes' f) \<le> guaranteed_per_node (split_quota cap nodes f)"
  by (simp add: split_quota_def Let_def div_le_mono2)

lemma split_exact_le:
  assumes "cap \<le> u32_max"
  shows "guaranteed_per_node (split_quota cap nodes f) * split_nodes (split_quota cap nodes f)
    + free_pool (split_quota cap nodes f) \<le> cap"
proof (cases "nodes = 0")
  case False
  then have "split_nodes (split_quota cap nodes f) = nodes"
    by (simp add: split_quota_def Let_def)
  then show ?thesis
    using guaranteed_times_nodes [of cap nodes f] split_halves [OF assms, of nodes f] False by simp
qed (simp add: split_quota_def)

text \<open>
  What a fleet's shares sum to when every node divides by what it sees, which is at least the
  configured size: at most the guaranteed part of the cap.
\<close>

lemma fleet_guaranteed_le:
  assumes "length seen \<le> fleet" and "0 < fleet" and "\<And>n. n \<in> set seen \<Longrightarrow> fleet \<le> n"
  shows "sum_list (map (\<lambda>n. guaranteed_per_node (split_quota cap n f)) seen) \<le> fraction_of cap f"
proof -
  have "sum_list (map (\<lambda>n. guaranteed_per_node (split_quota cap n f)) seen)
      \<le> length seen * guaranteed_per_node (split_quota cap fleet f)"
    by (rule sum_list_bound) (use assms in \<open>auto intro: guaranteed_antimono\<close>)
  also have "\<dots> \<le> fleet * guaranteed_per_node (split_quota cap fleet f)"
    using assms(1) by simp
  also have "\<dots> \<le> fraction_of cap f"
    using guaranteed_times_nodes [of cap fleet f] by (simp add: mult.commute)
  finally show ?thesis .
qed

text \<open>
  C3. A split never hands out more than the cap. For every cap a \<open>u32\<close> can hold, every node count
  and every fraction, NaN and infinities included, the guaranteed shares of all nodes and the free
  pool sum to at most the cap without saturating, and the free pool is the same for every node count
  that is not zero, so nodes that disagree about the fleet agree on the pool.
\<close>

theorem split_within_cap:
  assumes "cap \<le> u32_max"
  shows "split_total (split_quota cap nodes f) \<le> cap
    \<and> split_total (split_quota cap nodes f) =
        guaranteed_per_node (split_quota cap nodes f) * split_nodes (split_quota cap nodes f) + free_pool (split_quota cap nodes f)
    \<and> (0 < nodes \<and> 0 < nodes' \<longrightarrow> free_pool (split_quota cap nodes f) = free_pool (split_quota cap nodes' f))"
proof -
  let ?s = "split_quota cap nodes f"
  have le: "guaranteed_per_node ?s * split_nodes ?s + free_pool ?s \<le> cap" by (rule split_exact_le [OF assms])
  then have "split_total ?s = guaranteed_per_node ?s * split_nodes ?s + free_pool ?s"
    using assms by (simp add: split_total_def sat_add_def sat_mul_def)
  with le show ?thesis using free_pool_indep by auto
qed

theorem split_within_cap_witness:
  "split_total (split_quota 100 3 (Fin False 1 (-1))) \<le> 100
    \<and> free_pool (split_quota 100 3 (Fin False 1 (-1))) = free_pool (split_quota 100 7 (Fin False 1 (-1)))"
  using split_within_cap [of 100 3 "Fin False 1 (-1)" 7] by (simp add: u32_max_def)

end
