(* ===== verification/Core_Cluster.thy ===== *)
theory Core_Cluster
  imports Prelude "HOL-Library.Product_Lexorder"
begin

unbundle bit_operations_syntax

text \<open>
  \<^verbatim>\<open>crates/pgprox-core/src/cluster.rs\<close>: the cluster contract every node shares. A membership view,
  its leader and the home node of a tenant by rendezvous hashing, a quota lease, what a node
  tells its peers, and why a quota request fails.
\<close>

datatype node_mode = Active | Draining

definition mode_as_str :: "node_mode \<Rightarrow> string" where
  "mode_as_str m = (case m of Active \<Rightarrow> ''active'' | Draining \<Rightarrow> ''draining'')"

subsection \<open>The stable hash\<close>

type_synonym u64 = "64 word"

definition byte64 :: "char \<Rightarrow> u64" where
  "byte64 c = of_char c"

definition fnv_step :: "u64 \<Rightarrow> char \<Rightarrow> u64" where
  "fnv_step h c = (h XOR byte64 c) * 0x100000001b3"

definition splitmix_finish :: "u64 \<Rightarrow> u64" where
  "splitmix_finish h =
     (let z0 = h + 0x9e3779b97f4a7c15;
          z1 = (z0 XOR drop_bit 30 z0) * 0xbf58476d1ce4e5b9;
          z2 = (z1 XOR drop_bit 27 z1) * 0x94d049bb133111eb
      in z2 XOR drop_bit 31 z2)"

definition stable_hash :: "string \<Rightarrow> u64 \<Rightarrow> u64" where
  "stable_hash bytes seed = splitmix_finish (foldl fnv_step (0xcbf29ce484222325 XOR seed) bytes)"

subsection \<open>Membership views\<close>

record member =
  m_id :: node_id
  m_mode :: node_mode

record membership_view =
  v_local :: node_id
  v_members :: "member list"

text \<open>\<open>Vec::dedup_by_key\<close> keeps the first of each run of equal keys.\<close>

fun dedup_by_key :: "('a \<Rightarrow> 'k) \<Rightarrow> 'a list \<Rightarrow> 'a list" where
  "dedup_by_key f [] = []"
| "dedup_by_key f [x] = [x]"
| "dedup_by_key f (x # y # xs) =
     (if f y = f x then dedup_by_key f (x # xs) else x # dedup_by_key f (y # xs))"

definition view_new :: "node_id \<Rightarrow> member list \<Rightarrow> membership_view" where
  "view_new local members =
     \<lparr>v_local = local, v_members = dedup_by_key m_id (sort_key m_id members)\<rparr>"

definition view_active :: "membership_view \<Rightarrow> node_id list" where
  "view_active v = map m_id (filter (\<lambda>m. m_mode m = Active) (v_members v))"

definition active_count :: "membership_view \<Rightarrow> nat" where
  "active_count v = length (view_active v)"

definition leader :: "membership_view \<Rightarrow> node_id option" where
  "leader v = (case view_active v of [] \<Rightarrow> None | xs \<Rightarrow> Some (Min (set xs)))"

definition is_leader :: "membership_view \<Rightarrow> bool" where
  "is_leader v \<longleftrightarrow> leader v = Some (v_local v)"

text \<open>\<open>Iterator::max_by_key\<close> returns the last of several maximal elements.\<close>

fun max_by_key :: "('a \<Rightarrow> 'k::linorder) \<Rightarrow> 'a list \<Rightarrow> 'a option" where
  "max_by_key f [] = None"
| "max_by_key f (x # xs) =
     (case max_by_key f xs of None \<Rightarrow> Some x | Some y \<Rightarrow> if f y < f x then Some x else Some y)"

definition home_weight :: "tenant_id \<Rightarrow> node_id \<Rightarrow> u64 \<times> node_id" where
  "home_weight tenant node = (stable_hash tenant (of_nat node), node)"

definition home_node :: "membership_view \<Rightarrow> tenant_id \<Rightarrow> node_id option" where
  "home_node v tenant = max_by_key (home_weight tenant) (view_active v)"

definition is_home_for :: "membership_view \<Rightarrow> tenant_id \<Rightarrow> bool" where
  "is_home_for v tenant \<longleftrightarrow> home_node v tenant = Some (v_local v)"

subsection \<open>Leases, digests and errors\<close>

record quota_lease =
  l_server :: server_id
  l_count :: nat
  l_expires :: instant

definition lease_is_expired :: "quota_lease \<Rightarrow> instant \<Rightarrow> bool" where
  "lease_is_expired l now \<longleftrightarrow> now \<ge> l_expires l"

definition lease_count :: "quota_lease \<Rightarrow> instant \<Rightarrow> nat" where
  "lease_count l now = (if lease_is_expired l now then 0 else l_count l)"

record cluster_digest =
  d_node :: node_id
  d_mode :: node_mode
  d_client_conns :: nat
  d_upstream_conns :: "(server_id \<times> nat) list"
  d_tenant_usage :: "(tenant_id \<times> nat) list"

datatype quota_error = Exhausted server_id | NoLeader

subsection \<open>Lemmas\<close>

lemma dedup_by_key_set: "set (dedup_by_key f xs) \<subseteq> set xs"
  by (induction f xs rule: dedup_by_key.induct) auto

lemma dedup_by_key_keys: "f ` set (dedup_by_key f xs) = f ` set xs"
  by (induction f xs rule: dedup_by_key.induct) auto

lemma dedup_by_key_sorted:
  "sorted (map f xs) \<Longrightarrow> sorted (map f (dedup_by_key f xs)) \<and> distinct (map f (dedup_by_key f xs))"
proof (induction f xs rule: dedup_by_key.induct)
  case (3 f x y xs)
  show ?case
  proof (cases "f y = f x")
    case False
    with 3 have IH: "sorted (map f (dedup_by_key f (y # xs)))" "distinct (map f (dedup_by_key f (y # xs)))"
      by simp_all
    have lt: "f x < f z" if "z \<in> set (dedup_by_key f (y # xs))" for z
      using that dedup_by_key_set [of f "y # xs"] "3.prems" False by fastforce
    with IH False show ?thesis by (force intro: less_imp_le)
  qed (use 3 in simp)
qed simp_all

lemma dedup_by_key_id: "distinct (map f xs) \<Longrightarrow> dedup_by_key f xs = xs"
  by (induction f xs rule: dedup_by_key.induct) auto

lemma view_members_distinct: "distinct (map m_id (v_members (view_new l ms)))"
  by (simp add: view_new_def dedup_by_key_sorted)

lemma view_new_local [simp]: "v_local (view_new l ms) = l"
  by (simp add: view_new_def)

lemma view_new_members:
  "distinct (map m_id ms) \<Longrightarrow> v_members (view_new l ms) = sort_key m_id ms"
  unfolding view_new_def
  by (simp, rule dedup_by_key_id, metis distinct_sort mset_sort mset_map mset_eq_imp_distinct_iff)

lemma view_new_set:
  "distinct (map m_id ms) \<Longrightarrow> set (v_members (view_new l ms)) = set ms"
  by (simp add: view_new_members)

lemma view_new_length:
  "distinct (map m_id ms) \<Longrightarrow> length (v_members (view_new l ms)) = length ms"
  by (simp add: view_new_members)

lemma view_active_distinct: "distinct (map m_id (v_members v)) \<Longrightarrow> distinct (view_active v)"
  by (simp add: view_active_def distinct_map_filter)

lemma view_active_iff:
  "n \<in> set (view_active v) \<longleftrightarrow> (\<exists>m \<in> set (v_members v). m_id m = n \<and> m_mode m = Active)"
  by (auto simp: view_active_def)

lemma leader_SomeD: "leader v = Some n \<Longrightarrow> n \<in> set (view_active v) \<and> (\<forall>k \<in> set (view_active v). n \<le> k)"
proof -
  assume "leader v = Some n"
  then have "n = Min (set (view_active v))" and "set (view_active v) \<noteq> {}"
    by (auto simp: leader_def split: list.splits)
  then show ?thesis using Min_in [of "set (view_active v)"] by simp
qed

lemma leader_None_iff: "leader v = None \<longleftrightarrow> view_active v = []"
  by (auto simp: leader_def split: list.splits)

lemma max_by_key_None_iff [simp]: "max_by_key f xs = None \<longleftrightarrow> xs = []"
  by (cases xs) (auto split: option.splits)

lemma max_by_key_SomeD:
  "max_by_key f xs = Some y \<Longrightarrow> y \<in> set xs \<and> (\<forall>x \<in> set xs. f x \<le> f y)"
  by (induction xs arbitrary: y) (fastforce split: option.splits if_splits)+

text \<open>With an injective key the maximum depends on the set only.\<close>

lemma max_by_key_unique:
  assumes "inj_on f (set xs)" and "y \<in> set xs" and "\<And>x. x \<in> set xs \<Longrightarrow> f x \<le> f y"
  shows "max_by_key f xs = Some y"
proof (cases "max_by_key f xs")
  case None
  with assms(2) show ?thesis by simp
next
  case (Some z)
  from max_by_key_SomeD [OF this] assms have "f z = f y" "z \<in> set xs" by (auto intro: antisym)
  with assms Some show ?thesis by (auto dest: inj_onD)
qed

lemma home_weight_inj: "inj_on (home_weight t) A"
  by (simp add: inj_on_def home_weight_def)

lemma home_node_iff:
  "home_node v t = Some n \<longleftrightarrow>
     n \<in> set (view_active v) \<and> (\<forall>k \<in> set (view_active v). home_weight t k \<le> home_weight t n)"
  unfolding home_node_def
  using max_by_key_SomeD max_by_key_unique [OF home_weight_inj] by metis

lemma lease_count_le: "lease_count l now \<le> l_count l"
  by (simp add: lease_count_def)

subsection \<open>Rehoming\<close>

text \<open>
  C18. A membership change moves only the tenants it has to. Take two views that differ in the
  activity of one node. A tenant whose home is another node in the first view has the same home in
  the second, or the changed node itself: nothing shuffles between the nodes that stayed.
\<close>

theorem rehoming_minimal:
  assumes "set (view_active v) - {x} = set (view_active w) - {x}"
    and "home_node v t = Some n" and "n \<noteq> x"
  shows "home_node w t = Some n \<or> home_node w t = Some x"
proof -
  have n: "n \<in> set (view_active w)" "\<And>k. k \<in> set (view_active w) \<Longrightarrow> k \<noteq> x \<Longrightarrow> home_weight t k \<le> home_weight t n"
    using assms unfolding home_node_iff by blast+
  show ?thesis
  proof (cases "x \<in> set (view_active w) \<and> home_weight t n \<le> home_weight t x")
    case True
    then have "home_node w t = Some x"
      unfolding home_node_iff using n(2) order_trans by blast
    then show ?thesis ..
  next
    case False
    then have "home_node w t = Some n"
      unfolding home_node_iff using n by (metis linear)
    then show ?thesis ..
  qed
qed

theorem rehoming_minimal_witness:
  "home_node (view_new 2 [\<lparr>m_id = 2, m_mode = Active\<rparr>, \<lparr>m_id = 3, m_mode = Active\<rparr>]) ''t'' \<in> {Some 2, Some 3}"
proof -
  let ?v = "view_new 2 [\<lparr>m_id = 2, m_mode = Active\<rparr>]"
  let ?w = "view_new 2 [\<lparr>m_id = 2, m_mode = Active\<rparr>, \<lparr>m_id = 3, m_mode = Active\<rparr>]"
  have v: "view_active ?v = [2]" and w: "view_active ?w = [2, 3]"
    by (simp_all add: view_new_def view_active_def)
  have "home_node ?v ''t'' = Some 2" unfolding home_node_def v by simp
  moreover have "set (view_active ?v) - {3} = set (view_active ?w) - {3}" unfolding v w by auto
  ultimately show ?thesis using rehoming_minimal [of ?v 3 ?w "''t''" 2] by simp
qed

end
