(* ===== verification/Lease.thy ===== *)
theory Lease
  imports Core_Cluster
begin

text \<open>
  \<^verbatim>\<open>crates/pgprox-cluster/src/lease.rs\<close>: the leader's ledger of outstanding grants for one server.
  The ledger is a record, each method one definition over it. The invariant \<open>ledger_inv\<close> says
  the live grants fit the pool; every operation keeps it, and with it the wrapping \<open>u32\<close> sums
  of the source are exact.
\<close>

record lease_config =
  ttl :: duration
  takeover_wait :: duration

definition lease_config_default :: lease_config where
  "lease_config_default = \<lparr>ttl = from_secs 5, takeover_wait = from_secs 5\<rparr>"

definition lease_config_is_safe :: "lease_config \<Rightarrow> bool" where
  "lease_config_is_safe c \<longleftrightarrow> takeover_wait c \<ge> ttl c"

record grant_entry =
  g_holder :: node_id
  g_count :: nat
  g_expires :: instant

record lease_ledger =
  lg_config :: lease_config
  lg_pool :: nat
  lg_grants :: "(node_id, grant_entry) hmap"
  took_office :: "instant option"

definition ledger_new :: "nat \<Rightarrow> lease_config \<Rightarrow> lease_ledger" where
  "ledger_new pool config = \<lparr>lg_config = config, lg_pool = pool, lg_grants = [], took_office = None\<rparr>"

definition set_pool :: "nat \<Rightarrow> lease_ledger \<Rightarrow> lease_ledger" where
  "set_pool pool lg = lg\<lparr>lg_pool := pool\<rparr>"

definition observe_leadership :: "bool \<Rightarrow> instant \<Rightarrow> lease_ledger \<Rightarrow> lease_ledger" where
  "observe_leadership leading now lg =
     (case (leading, took_office lg) of
        (True, None) \<Rightarrow> lg\<lparr>took_office := Some now\<rparr>
      | (False, Some _) \<Rightarrow> lg\<lparr>took_office := None, lg_grants := []\<rparr>
      | _ \<Rightarrow> lg)"

definition can_grant :: "lease_ledger \<Rightarrow> instant \<Rightarrow> bool" where
  "can_grant lg now = (case took_office lg of None \<Rightarrow> False
     | Some at \<Rightarrow> now \<ge> at + takeover_wait (lg_config lg))"

definition grant_live :: "instant \<Rightarrow> node_id \<times> grant_entry \<Rightarrow> bool" where
  "grant_live now e \<longleftrightarrow> g_expires (snd e) > now"

definition outstanding :: "lease_ledger \<Rightarrow> instant \<Rightarrow> nat" where
  "outstanding lg now = sum_u32 (map (g_count \<circ> snd) (filter (grant_live now) (lg_grants lg)))"

definition available :: "lease_ledger \<Rightarrow> instant \<Rightarrow> nat" where
  "available lg now = lg_pool lg - outstanding lg now"

definition ledger_reap :: "instant \<Rightarrow> lease_ledger \<Rightarrow> lease_ledger" where
  "ledger_reap now lg = lg\<lparr>lg_grants := filter (grant_live now) (lg_grants lg)\<rparr>"

definition held_by_others :: "lease_ledger \<Rightarrow> node_id \<Rightarrow> instant \<Rightarrow> nat" where
  "held_by_others lg holder now =
     sum_u32 (map (g_count \<circ> snd) (filter (\<lambda>e. fst e \<noteq> holder \<and> grant_live now e) (lg_grants lg)))"

definition grant ::
  "server_id \<Rightarrow> node_id \<Rightarrow> nat \<Rightarrow> instant \<Rightarrow> lease_ledger \<Rightarrow> (quota_error + quota_lease) \<times> lease_ledger" where
  "grant server holder want now lg =
     (if \<not> can_grant lg now then (Inl NoLeader, lg)
      else let avail = lg_pool lg - held_by_others lg holder now in
        if avail = 0 then (Inl (Exhausted server), lg)
        else let granted = min want avail; expires_at = now + ttl (lg_config lg) in
          (Inr \<lparr>l_server = server, l_count = granted, l_expires = expires_at\<rparr>,
           lg\<lparr>lg_grants := hm_put holder \<lparr>g_holder = holder, g_count = granted, g_expires = expires_at\<rparr>
                (lg_grants lg)\<rparr>))"

definition ledger_release :: "node_id \<Rightarrow> lease_ledger \<Rightarrow> lease_ledger" where
  "ledger_release holder lg = lg\<lparr>lg_grants := hm_del holder (lg_grants lg)\<rparr>"

definition ledger_holders :: "lease_ledger \<Rightarrow> instant \<Rightarrow> nat" where
  "ledger_holders lg now = length (filter (grant_live now) (lg_grants lg))"

subsection \<open>The ledger invariant\<close>

text \<open>The live grants at a time, summed without wrap-around.\<close>

definition live_sum :: "lease_ledger \<Rightarrow> instant \<Rightarrow> nat" where
  "live_sum lg now = sum_list (map (\<lambda>e. if grant_live now e then g_count (snd e) else 0) (lg_grants lg))"

definition ledger_inv :: "nat \<Rightarrow> instant \<Rightarrow> lease_ledger \<Rightarrow> bool" where
  "ledger_inv bound now lg \<longleftrightarrow> hm_wf (lg_grants lg) \<and> live_sum lg now \<le> bound"

lemma live_sum_filter:
  "sum_list (map (g_count \<circ> snd) (filter (grant_live now) (lg_grants lg))) = live_sum lg now"
  by (simp add: live_sum_def sum_list_filter_if comp_def)

lemma live_sum_antimono: "now \<le> now' \<Longrightarrow> live_sum lg now' \<le> live_sum lg now"
  unfolding live_sum_def by (rule sum_list_map_mono) (auto simp: grant_live_def)

lemma outstanding_eq: "live_sum lg now \<le> u32_max \<Longrightarrow> outstanding lg now = live_sum lg now"
  by (simp add: outstanding_def live_sum_filter sum_u32_exact)

text \<open>What others hold, without wrap-around.\<close>

definition others_sum :: "lease_ledger \<Rightarrow> node_id \<Rightarrow> instant \<Rightarrow> nat" where
  "others_sum lg holder now =
     sum_list (map (\<lambda>e. if grant_live now e then g_count (snd e) else 0)
       (filter (\<lambda>(j, _). j \<noteq> holder) (lg_grants lg)))"

lemma held_by_others_sum:
  "sum_list (map (g_count \<circ> snd) (filter (\<lambda>e. fst e \<noteq> h \<and> grant_live now e) (lg_grants lg)))
    = others_sum lg h now"
  unfolding others_sum_def sum_list_filter_if
  by (intro arg_cong [where f = sum_list] map_cong) auto

lemma live_sum_split:
  "hm_wf (lg_grants lg) \<Longrightarrow> live_sum lg now =
     (case hm_get (lg_grants lg) h of None \<Rightarrow> 0
      | Some g \<Rightarrow> if g_expires g > now then g_count g else 0) + others_sum lg h now"
  unfolding live_sum_def others_sum_def
  by (subst hm.sum_split_key [of _ _ h]) (auto simp: grant_live_def split: option.splits)

lemma others_sum_le: "hm_wf (lg_grants lg) \<Longrightarrow> others_sum lg h now \<le> live_sum lg now"
  using live_sum_split [of lg now h] by simp

lemma held_by_others_eq:
  assumes "hm_wf (lg_grants lg)" and "live_sum lg now \<le> u32_max"
  shows "held_by_others lg h now = others_sum lg h now"
proof -
  have "others_sum lg h now \<le> u32_max" using others_sum_le [OF assms(1)] assms(2) by (rule le_trans)
  then show ?thesis
    by (simp only: held_by_others_def held_by_others_sum [symmetric] sum_u32_exact)
qed

lemma ledger_new_inv [inv_intros]: "ledger_inv b now (ledger_new p c)"
  by (simp add: ledger_inv_def ledger_new_def live_sum_def)

lemma ledger_inv_later [inv_intros]: "ledger_inv b now lg \<Longrightarrow> now \<le> now' \<Longrightarrow> ledger_inv b now' lg"
  using live_sum_antimono by (auto simp: ledger_inv_def intro: le_trans)

lemma set_pool_inv [inv_intros]: "ledger_inv b now lg \<Longrightarrow> ledger_inv b now (set_pool p lg)"
  by (simp add: ledger_inv_def set_pool_def live_sum_def)

lemma observe_leadership_inv [inv_intros]:
  "ledger_inv b now lg \<Longrightarrow> ledger_inv b now (observe_leadership x t lg)"
  by (auto simp: ledger_inv_def observe_leadership_def live_sum_def split: bool.splits option.splits)

lemma ledger_reap_inv [inv_intros]: "ledger_inv b now lg \<Longrightarrow> ledger_inv b now (ledger_reap t lg)"
  unfolding ledger_inv_def live_sum_def ledger_reap_def
  by (auto intro: le_trans [OF hm.sum_retain_le])

lemma ledger_release_inv [inv_intros]: "ledger_inv b now lg \<Longrightarrow> ledger_inv b now (ledger_release h lg)"
  unfolding ledger_inv_def live_sum_def ledger_release_def
  by (auto intro: le_trans [OF hm.sum_del_le])

text \<open>A grant against a pool no larger than the bound stays within the bound.\<close>

lemma live_sum_put:
  assumes "hm_wf (lg_grants lg)"
  shows "live_sum (lg\<lparr>lg_grants := hm_put h g (lg_grants lg)\<rparr>) now
    = (if g_expires g > now then g_count g else 0) + others_sum lg h now"
  unfolding live_sum_def others_sum_def
  by (simp add: hm.sum_put [OF assms] grant_live_def)

lemma grant_Inr:
  assumes "grant server h want now lg = (Inr l, lg')"
    and "hm_wf (lg_grants lg)" and "live_sum lg now \<le> u32_max"
  shows "l_server l = server" "l_count l = min want (lg_pool lg - others_sum lg h now)"
    "l_expires l = now + ttl (lg_config lg)" "others_sum lg h now < lg_pool lg" "can_grant lg now"
    "lg' = lg\<lparr>lg_grants := hm_put h
       \<lparr>g_holder = h, g_count = l_count l, g_expires = l_expires l\<rparr> (lg_grants lg)\<rparr>"
  using assms by (auto simp: grant_def Let_def held_by_others_eq split: if_splits)

lemma grant_Inl: "grant server h want now lg = (Inl e, lg') \<Longrightarrow> lg' = lg"
  by (auto simp: grant_def Let_def split: if_splits)

lemma grant_inv [inv_intros]:
  assumes inv: "ledger_inv b now lg" and pool: "lg_pool lg \<le> b" and b: "b \<le> u32_max"
  shows "ledger_inv b now (snd (grant server h want now lg))"
proof (cases "grant server h want now lg")
  case (Pair r lg')
  show ?thesis
  proof (cases r)
    case (Inl e)
    with Pair inv show ?thesis by (auto dest: grant_Inl)
  next
    case (Inr l)
    have wf: "hm_wf (lg_grants lg)" and le: "live_sum lg now \<le> u32_max"
      using inv b by (auto simp: ledger_inv_def)
    note g = grant_Inr [OF Pair [unfolded Inr] wf le]
    have "live_sum lg' now \<le> lg_pool lg"
      using g(2,4) by (auto simp: g(6) live_sum_put [OF wf] min_def)
    with Pair wf pool show ?thesis by (simp add: ledger_inv_def g(6))
  qed
qed

subsection \<open>The contract a fleet relies on\<close>

text \<open>
  What the rest of the cluster needs of a ledger: the share it records for each holder over
  time. The shares of distinct holders never sum above the pool, an issue rewrites one share
  and leaves the others, and it never gives a holder less than the smaller of what it asked
  for and what it had.
\<close>

locale lease_book =
  fixes share :: "'b \<Rightarrow> instant \<Rightarrow> node_id \<Rightarrow> nat"
    and pool :: "'b \<Rightarrow> nat"
    and lifetime :: "'b \<Rightarrow> duration"
    and issue :: "node_id \<Rightarrow> nat \<Rightarrow> instant \<Rightarrow> 'b \<Rightarrow> (nat \<times> instant) option \<times> 'b"
    and sound :: "instant \<Rightarrow> 'b \<Rightarrow> bool"
  assumes shares_within: "sound now b \<Longrightarrow> distinct hs \<Longrightarrow> sum_list (map (share b now) hs) \<le> pool b"
    and issue_expiry: "sound now b \<Longrightarrow> issue h want now b = (Some (n, e), b') \<Longrightarrow> e = now + lifetime b"
    and issue_own: "sound now b \<Longrightarrow> issue h want now b = (Some (n, e), b') \<Longrightarrow> now \<le> t \<Longrightarrow>
      share b' t h = (if t < e then n else 0)"
    and issue_other: "sound now b \<Longrightarrow> issue h want now b = (Some (n, e), b') \<Longrightarrow> k \<noteq> h \<Longrightarrow>
      share b' t k = share b t k"
    and issue_sound: "sound now b \<Longrightarrow> issue h want now b = (Some (n, e), b') \<Longrightarrow> sound now b' \<and> pool b' = pool b"
    and issue_keeps: "sound now b \<Longrightarrow> issue h want now b = (Some (n, e), b') \<Longrightarrow> min want (share b now h) \<le> n"
begin

text \<open>Holders whose leases a ledger backs hold no more than its pool between them.\<close>

lemma backed_sum:
  assumes "sound now b" "distinct hs" "\<And>h. h \<in> set hs \<Longrightarrow> held h \<le> share b now h"
  shows "sum_list (map held hs) \<le> pool b"
  using sum_list_map_mono [of hs held "share b now"] shares_within [OF assms(1,2)] assms(3)
  by (meson le_trans)

text \<open>A holder that never saw the reply is still backed, if it asked for more than it held.\<close>

lemma unseen_issue_backs:
  assumes s: "sound now b" and i: "issue h want now b = (Some (n, e), b')"
    and backed: "lease_count l now \<le> share b now h"
    and ask: "lease_count l now < want" and life: "l_expires l \<le> now + lifetime b" and t: "now \<le> t"
  shows "lease_count l t \<le> share b' t h"
proof (cases "t < l_expires l")
  case True
  then have "t < e" and c: "lease_count l t = lease_count l now"
    using life t issue_expiry [OF s i] by (auto simp: lease_count_def lease_is_expired_def)
  moreover have "lease_count l now \<le> n"
    using issue_keeps [OF s i] backed ask by (simp add: min_def split: if_splits)
  ultimately show ?thesis using issue_own [OF s i t] by simp
next
  case False
  then show ?thesis by (simp add: lease_count_def lease_is_expired_def)
qed

end

definition live_share :: "lease_ledger \<Rightarrow> instant \<Rightarrow> node_id \<Rightarrow> nat" where
  "live_share lg now h =
     (case hm_get (lg_grants lg) h of None \<Rightarrow> 0 | Some g \<Rightarrow> if g_expires g > now then g_count g else 0)"

definition ledger_issue ::
  "node_id \<Rightarrow> nat \<Rightarrow> instant \<Rightarrow> lease_ledger \<Rightarrow> (nat \<times> instant) option \<times> lease_ledger" where
  "ledger_issue h want now lg =
     (case grant [] h want now lg of
        (Inl _, lg') \<Rightarrow> (None, lg')
      | (Inr l, lg') \<Rightarrow> (Some (l_count l, l_expires l), lg'))"

definition ledger_sound :: "instant \<Rightarrow> lease_ledger \<Rightarrow> bool" where
  "ledger_sound now lg \<longleftrightarrow>
     lg_pool lg \<le> u32_max \<and> ledger_inv (lg_pool lg) now lg"

lemma ledger_soundD:
  assumes "ledger_sound now lg"
  shows "hm_wf (lg_grants lg)" "live_sum lg now \<le> lg_pool lg" "live_sum lg now \<le> u32_max"
    "lg_pool lg \<le> u32_max"
  using assms by (auto simp: ledger_sound_def ledger_inv_def)

lemma live_share_le: "hm_wf (lg_grants lg) \<Longrightarrow> live_share lg now h + others_sum lg h now = live_sum lg now"
  using live_sum_split [of lg now h] by (simp add: live_share_def)

lemma live_shares_sum:
  "hm_wf (lg_grants lg) \<Longrightarrow> distinct hs \<Longrightarrow> sum_list (map (live_share lg now) hs) \<le> live_sum lg now"
  using hm.sum_over_keys [of "lg_grants lg" hs "\<lambda>e. if grant_live now e then g_count (snd e) else 0"]
  by (simp add: live_share_def [abs_def] live_sum_def grant_live_def cong: option.case_cong if_cong)

lemma ledger_issueD:
  assumes s: "ledger_sound now lg" and "ledger_issue h want now lg = (Some (n, e), lg')"
  shows "n = min want (lg_pool lg - others_sum lg h now)" "e = now + ttl (lg_config lg)"
    "others_sum lg h now < lg_pool lg"
    "lg' = lg\<lparr>lg_grants := hm_put h \<lparr>g_holder = h, g_count = n, g_expires = e\<rparr> (lg_grants lg)\<rparr>"
    "ledger_inv (lg_pool lg) now lg'"
proof -
  obtain l where g: "grant [] h want now lg = (Inr l, lg')" and n: "n = l_count l" "e = l_expires l"
    using assms(2) by (auto simp: ledger_issue_def split: prod.splits sum.splits)
  note G = grant_Inr [OF g ledger_soundD(1,3) [OF s]]
  show "n = min want (lg_pool lg - others_sum lg h now)" "e = now + ttl (lg_config lg)"
    "others_sum lg h now < lg_pool lg"
    "lg' = lg\<lparr>lg_grants := hm_put h \<lparr>g_holder = h, g_count = n, g_expires = e\<rparr> (lg_grants lg)\<rparr>"
    using G n by auto
  show "ledger_inv (lg_pool lg) now lg'"
    using grant_inv [of "lg_pool lg" now lg "[]" h want] s g by (simp add: ledger_sound_def)
qed

interpretation ledger: lease_book live_share lg_pool "\<lambda>lg. ttl (lg_config lg)" ledger_issue ledger_sound
proof
  fix now t :: instant and lg lg' :: lease_ledger and hs :: "node_id list" and h k :: node_id
    and want n :: nat and e :: instant
  assume s: "ledger_sound now lg"
  show "sum_list (map (live_share lg now) hs) \<le> lg_pool lg" if "distinct hs"
    using live_shares_sum [OF _ that] ledger_soundD [OF s] by (meson le_trans)
  assume i: "ledger_issue h want now lg = (Some (n, e), lg')"
  note I = ledger_issueD [OF s i]
  show "e = now + ttl (lg_config lg)" by (rule I(2))
  show "live_share lg' t h = (if t < e then n else 0)"
    by (simp add: I(4) live_share_def hm_simps)
  show "live_share lg' t k = live_share lg t k" if "k \<noteq> h"
    using that by (simp add: I(4) live_share_def hm_simps)
  show "ledger_sound now lg' \<and> lg_pool lg' = lg_pool lg"
    using I(5) ledger_soundD [OF s] by (simp add: ledger_sound_def I(4))
  show "min want (live_share lg now h) \<le> n"
    using I(1) live_share_le [of lg now h] ledger_soundD [OF s] by auto
qed

subsection \<open>Properties\<close>

text \<open>Any sequence of calls on a ledger, with the clock moving forward between them.\<close>

datatype ledger_op =
  Pool_Set nat | Lead bool | Give node_id nat | Give_Back node_id | Reap | Wait duration

fun ledger_do :: "server_id \<Rightarrow> ledger_op \<Rightarrow> instant \<times> lease_ledger \<Rightarrow> instant \<times> lease_ledger" where
  "ledger_do s (Pool_Set p) (now, lg) = (now, set_pool p lg)"
| "ledger_do s (Lead b) (now, lg) = (now, observe_leadership b now lg)"
| "ledger_do s (Give h want) (now, lg) = (now, snd (grant s h want now lg))"
| "ledger_do s (Give_Back h) (now, lg) = (now, ledger_release h lg)"
| "ledger_do s Reap (now, lg) = (now, ledger_reap now lg)"
| "ledger_do s (Wait d) (now, lg) = (now + d, lg)"

lemma ledger_do_inv:
  assumes "ledger_inv b (fst x) (snd x)" "lg_pool (snd x) \<le> b" "b \<le> u32_max" "\<And>p. op = Pool_Set p \<Longrightarrow> p \<le> b"
  shows "ledger_inv b (fst (ledger_do s op x)) (snd (ledger_do s op x)) \<and> lg_pool (snd (ledger_do s op x)) \<le> b"
proof -
  obtain now lg where x: "x = (now, lg)" by (cases x)
  have "lg_pool (snd (grant s h want now lg)) = lg_pool lg" for h want
    by (simp add: grant_def Let_def)
  moreover have "lg_pool (observe_leadership l now lg) = lg_pool lg" for l
    by (simp add: observe_leadership_def split: bool.split option.split)
  ultimately show ?thesis
    using assms unfolding x
    by (cases op) (auto simp: set_pool_inv observe_leadership_inv grant_inv ledger_release_inv ledger_reap_inv
        intro: ledger_inv_later, auto simp: set_pool_def ledger_release_def ledger_reap_def)
qed



text \<open>
  A new leader waits, and starts from nothing. When a node loses the lead at one time and regains
  it at another, the old grants are gone, every request before the takeover wait is over is refused and
  changes nothing, and the first request after it is granted in full if the pool has room.
\<close>

theorem takeover_waits:
  assumes "took_office lg = Some t0"
  shows "let lg' = observe_leadership True t2 (observe_leadership False t1 lg) in
    lg_grants lg' = []
    \<and> (now < t2 + takeover_wait (lg_config lg) \<longrightarrow> grant s h want now lg' = (Inl NoLeader, lg'))
    \<and> (t2 + takeover_wait (lg_config lg) \<le> now \<and> 0 < lg_pool lg \<longrightarrow>
         fst (grant s h want now lg') =
           Inr \<lparr>l_server = s, l_count = min want (lg_pool lg), l_expires = now + ttl (lg_config lg)\<rparr>)"
  using assms
  by (simp add: Let_def observe_leadership_def grant_def can_grant_def held_by_others_def sum_u32_def wrap32_def)

theorem takeover_waits_witness:
  "let lg = \<lparr>lg_config = \<lparr>ttl = 5, takeover_wait = 8\<rparr>, lg_pool = 10,
       lg_grants = [(2, \<lparr>g_holder = 2, g_count = 10, g_expires = 99\<rparr>)], took_office = Some 0\<rparr>;
       lg' = observe_leadership True 20 (observe_leadership False 10 lg)
   in lg_grants lg' = [] \<and> grant ''a:1'' 1 4 27 lg' = (Inl NoLeader, lg')"
  using takeover_waits [of "\<lparr>lg_config = \<lparr>ttl = 5, takeover_wait = 8\<rparr>, lg_pool = 10,
       lg_grants = [(2, \<lparr>g_holder = 2, g_count = 10, g_expires = 99\<rparr>)], took_office = Some 0\<rparr>" 0 20 10 27 "''a:1''" 1 4]
  by (simp add: Let_def)

text \<open>
  A renewal replaces a lease instead of adding to it. When a ledger whose live grants fit its pool
  gives a holder a lease, what is live afterwards is what was live before without the holder's old share,
  plus the new lease; and the new lease never exceeds what was asked for or what the others leave.
\<close>

theorem renewal_replaces:
  assumes "ledger_sound now lg" and "0 < ttl (lg_config lg)" and "grant s h want now lg = (Inr l, lg')"
  shows "live_sum lg' now + live_share lg now h = live_sum lg now + l_count l
    \<and> l_count l = min want (lg_pool lg - (live_sum lg now - live_share lg now h))
    \<and> ledger_sound now lg'"
proof -
  note S = ledger_soundD [OF assms(1)]
  have i: "ledger_issue h want now lg = (Some (l_count l, l_expires l), lg')"
    using assms(3) by (auto simp: ledger_issue_def grant_def Let_def split: if_splits)
  note I = ledger_issueD [OF assms(1) i]
  have wf': "hm_wf (lg_grants lg')" using I(5) by (simp add: ledger_inv_def)
  have "others_sum lg' h now = others_sum lg h now"
    unfolding I(4) others_sum_def by (simp add: S(1) filter_put_other)
  then have "live_sum lg' now = live_share lg' now h + others_sum lg h now"
    using live_share_le [OF wf', of now h] by simp
  moreover have "live_share lg' now h = l_count l"
    using ledger.issue_own [OF assms(1) i, of now] I(2) assms(2) by simp
  moreover have "others_sum lg h now = live_sum lg now - live_share lg now h"
    using live_share_le [OF S(1), of now h] by simp
  ultimately show ?thesis
    using live_share_le [OF S(1), of now h] I(1) ledger.issue_sound [OF assms(1) i] by simp
qed

theorem renewal_replaces_witness:
  "let lg = \<lparr>lg_config = \<lparr>ttl = 5, takeover_wait = 5\<rparr>, lg_pool = 10,
       lg_grants = [(2, \<lparr>g_holder = 2, g_count = 6, g_expires = 9\<rparr>)], took_office = Some 0\<rparr>
   in live_sum (snd (grant ''a:1'' 2 8 7 lg)) 7 = 8"
proof -
  define lg where "lg = \<lparr>lg_config = \<lparr>ttl = 5, takeover_wait = 5\<rparr>, lg_pool = 10,
       lg_grants = [(2, \<lparr>g_holder = 2, g_count = 6, g_expires = 9\<rparr>)], took_office = Some 0\<rparr>"
  have s: "ledger_sound 7 lg" by (simp add: lg_def ledger_sound_def ledger_inv_def live_sum_def grant_live_def u32_max_def)
  have v: "live_sum lg 7 = 6" "live_share lg 7 2 = 6" "lg_pool lg = 10" "0 < ttl (lg_config lg)"
    by (simp_all add: lg_def live_sum_def grant_live_def live_share_def)
  obtain l where l: "grant ''a:1'' 2 8 7 lg = (Inr l, snd (grant ''a:1'' 2 8 7 lg))"
    by (simp add: lg_def grant_def Let_def can_grant_def held_by_others_def sum_u32_def wrap32_def)
  from renewal_replaces [OF s v(4) l] v have "live_sum (snd (grant ''a:1'' 2 8 7 lg)) 7 = 8" by simp
  then show ?thesis by (simp add: lg_def Let_def)
qed

end
