(* ===== verification/Membership.thy ===== *)
theory Membership
  imports Core_Cluster
begin

text \<open>
  \<^verbatim>\<open>crates/pgprox-cluster/src/membership.rs\<close>: who is alive, decided by when this node last heard from
  them. A peer's contact ages from alive through suspect to dead; the view keeps suspects, the
  quorum count does not. The lemmas give what each operation does to a node's state, and that
  reaping the dead changes neither the view nor the quorum.
\<close>

record membership_config =
  suspect_after :: duration
  dead_after :: duration

definition membership_config_default :: membership_config where
  "membership_config_default = \<lparr>suspect_after = from_secs 3, dead_after = from_secs 10\<rparr>"

definition membership_config_is_safe :: "membership_config \<Rightarrow> bool" where
  "membership_config_is_safe c \<longleftrightarrow> suspect_after c \<le> dead_after c"

datatype node_state = Alive | Suspect | Dead

record contact =
  c_mode :: node_mode
  c_at :: instant

record membership =
  mb_local :: node_id
  mb_config :: membership_config
  mb_peers :: "(node_id, contact) hmap"

definition membership_new :: "node_id \<Rightarrow> membership_config \<Rightarrow> membership" where
  "membership_new local config = \<lparr>mb_local = local, mb_config = config, mb_peers = []\<rparr>"

definition heard :: "node_id \<Rightarrow> node_mode \<Rightarrow> instant \<Rightarrow> membership \<Rightarrow> membership" where
  "heard node mode at m =
     m\<lparr>mb_peers :=
       (case hm_get (mb_peers m) node of
          Some c \<Rightarrow> if at \<ge> c_at c then hm_put node \<lparr>c_mode = mode, c_at = at\<rparr> (mb_peers m) else mb_peers m
        | None \<Rightarrow> hm_put node \<lparr>c_mode = mode, c_at = at\<rparr> (mb_peers m))\<rparr>"

definition heard_without_mode :: "node_id \<Rightarrow> instant \<Rightarrow> membership \<Rightarrow> membership" where
  "heard_without_mode node at m =
     (case hm_get (mb_peers m) node of
        Some c \<Rightarrow> if at \<ge> c_at c then m\<lparr>mb_peers := hm_put node (c\<lparr>c_at := at\<rparr>) (mb_peers m)\<rparr> else m
      | None \<Rightarrow> m)"

definition mb_forget :: "node_id \<Rightarrow> membership \<Rightarrow> membership" where
  "mb_forget node m = m\<lparr>mb_peers := hm_del node (mb_peers m)\<rparr>"

text \<open>The body of \<open>Membership::state\<close> for a known contact: how its silence is judged.\<close>

definition contact_state :: "membership_config \<Rightarrow> contact \<Rightarrow> instant \<Rightarrow> node_state" where
  "contact_state config c now =
     (let silence = now - c_at c in
      if silence \<ge> dead_after config then Dead
      else if silence \<ge> suspect_after config then Suspect else Alive)"

definition node_state_of :: "membership \<Rightarrow> node_id \<Rightarrow> instant \<Rightarrow> node_state" where
  "node_state_of m node now =
     (case hm_get (mb_peers m) node of None \<Rightarrow> Dead
      | Some c \<Rightarrow> contact_state (mb_config m) c now)"

definition mb_view :: "membership \<Rightarrow> instant \<Rightarrow> membership_view" where
  "mb_view m now = view_new (mb_local m)
     (map (\<lambda>(id, c). \<lparr>m_id = id, m_mode = c_mode c\<rparr>)
        (filter (\<lambda>(id, _). node_state_of m id now \<noteq> Dead) (mb_peers m)))"

definition alive_count :: "membership \<Rightarrow> instant \<Rightarrow> nat" where
  "alive_count m now =
     length (filter (\<lambda>(id, c). c_mode c = Active \<and> node_state_of m id now = Alive) (mb_peers m))"

definition mb_reap :: "instant \<Rightarrow> membership \<Rightarrow> node_id list \<times> membership" where
  "mb_reap now m =
     (let dead = filter (\<lambda>id. node_state_of m id now = Dead) (map fst (mb_peers m)) in
      (dead, m\<lparr>mb_peers := fold hm_del dead (mb_peers m)\<rparr>))"

definition mb_tracked :: "membership \<Rightarrow> nat" where
  "mb_tracked m = length (mb_peers m)"

subsection \<open>Well-formedness\<close>

definition mb_wf :: "membership \<Rightarrow> bool" where
  "mb_wf m \<longleftrightarrow> hm_wf (mb_peers m)"

lemma fold_del_wf: "hm_wf m \<Longrightarrow> hm_wf (fold hm_del ks m)"
  by (induction ks arbitrary: m) auto

lemma fold_del_filter: "fold hm_del ks m = filter (\<lambda>(j, _). j \<notin> set ks) m"
  by (induction ks arbitrary: m) (auto simp: delete_filter intro!: filter_cong)

lemma mb_wf_ops [inv_intros, simp]:
  "mb_wf (membership_new l c)"
  "mb_wf m \<Longrightarrow> mb_wf (heard n d t m)"
  "mb_wf m \<Longrightarrow> mb_wf (heard_without_mode n t m)"
  "mb_wf m \<Longrightarrow> mb_wf (mb_forget n m)"
  "mb_wf m \<Longrightarrow> mb_wf (snd (mb_reap t m))"
  by (auto simp: mb_wf_def membership_new_def heard_def heard_without_mode_def mb_forget_def mb_reap_def
      Let_def intro: fold_del_wf split: option.splits)

lemma mb_config_ops [simp]:
  "mb_config (heard n d t m) = mb_config m" "mb_local (heard n d t m) = mb_local m"
  "mb_config (heard_without_mode n t m) = mb_config m" "mb_local (heard_without_mode n t m) = mb_local m"
  "mb_config (mb_forget n m) = mb_config m" "mb_local (mb_forget n m) = mb_local m"
  "mb_config (snd (mb_reap t m)) = mb_config m" "mb_local (snd (mb_reap t m)) = mb_local m"
  "mb_config (membership_new l c) = c" "mb_local (membership_new l c) = l"
  by (auto simp: heard_def heard_without_mode_def mb_forget_def mb_reap_def Let_def membership_new_def
      split: option.splits)

subsection \<open>The view and the quorum\<close>

text \<open>The members of the view are the contacts not yet dead, with the mode last taken from them.\<close>

lemma view_raw_distinct:
  assumes "mb_wf m"
  shows "distinct (map m_id (map (\<lambda>(id, c). \<lparr>m_id = id, m_mode = c_mode c\<rparr>) (filter P (mb_peers m))))"
proof -
  have "map m_id (map (\<lambda>(id, c). \<lparr>m_id = id, m_mode = c_mode c\<rparr>) (filter P (mb_peers m)))
      = map fst (filter P (mb_peers m))"
    by auto
  with assms show ?thesis by (simp only: mb_wf_def hm.wf_retain)
qed

lemma mb_view_members:
  assumes "mb_wf m"
  shows "x \<in> set (v_members (mb_view m now)) \<longleftrightarrow>
    (\<exists>c. hm_get (mb_peers m) (m_id x) = Some c \<and> m_mode x = c_mode c \<and>
      contact_state (mb_config m) c now \<noteq> Dead)"
proof -
  have "x \<in> set (v_members (mb_view m now)) \<longleftrightarrow>
      (\<exists>c. (m_id x, c) \<in> set (mb_peers m) \<and> m_mode x = c_mode c \<and> node_state_of m (m_id x) now \<noteq> Dead)"
    unfolding mb_view_def by (subst view_new_set [OF view_raw_distinct [OF assms]]) force
  moreover have "(m_id x, c) \<in> set (mb_peers m) \<longleftrightarrow> hm_get (mb_peers m) (m_id x) = Some c" for c
    using assms hm.get_entries [of "mb_peers m"] by (simp only: mb_wf_def)
  ultimately show ?thesis by (auto simp: node_state_of_def)
qed

lemma mb_view_active:
  assumes "mb_wf m"
  shows "n \<in> set (view_active (mb_view m now)) \<longleftrightarrow>
    (\<exists>c. hm_get (mb_peers m) n = Some c \<and> c_mode c = Active \<and> contact_state (mb_config m) c now \<noteq> Dead)"
proof -
  have "\<lparr>m_id = n, m_mode = Active\<rparr> \<in> set (v_members (mb_view m now)) \<longleftrightarrow>
      (\<exists>c. hm_get (mb_peers m) n = Some c \<and> c_mode c = Active \<and> contact_state (mb_config m) c now \<noteq> Dead)"
    unfolding mb_view_members [OF assms] by auto
  moreover have "(\<exists>x \<in> S. m_id x = n \<and> m_mode x = Active) \<longleftrightarrow> \<lparr>m_id = n, m_mode = Active\<rparr> \<in> S" for S :: "member set"
  proof
    assume "\<exists>x \<in> S. m_id x = n \<and> m_mode x = Active"
    then obtain x where "x \<in> S" "m_id x = n" "m_mode x = Active" by blast
    then show "\<lparr>m_id = n, m_mode = Active\<rparr> \<in> S" by (cases x) simp
  qed (rule rev_bexI, auto)
  ultimately show ?thesis unfolding view_active_iff by simp
qed

lemma mb_view_local [simp]: "v_local (mb_view m now) = mb_local m"
  by (simp add: mb_view_def)

lemma mb_view_length: "mb_wf m \<Longrightarrow> length (v_members (mb_view m now)) \<le> length (mb_peers m)"
  unfolding mb_view_def by (subst view_new_length [OF view_raw_distinct]) auto

lemma heard_state:
  assumes "suspect_after (mb_config m) > 0" "dead_after (mb_config m) > 0"
  shows "node_state_of (heard n d now m) n now = Alive"
  using assms
  by (auto simp: node_state_of_def heard_def contact_state_def Let_def update_conv split: option.splits)

text \<open>Contact only moves forward.\<close>

lemma heard_forward:
  "hm_get (mb_peers m) n = Some c \<Longrightarrow>
   \<exists>c'. hm_get (mb_peers (heard k d t m)) n = Some c' \<and> c_at c \<le> c_at c'"
  by (auto simp: heard_def update_conv split: option.splits)

lemma reap_peers:
  "mb_wf m \<Longrightarrow> mb_peers (snd (mb_reap now m)) = filter (\<lambda>(id, _). node_state_of m id now \<noteq> Dead) (mb_peers m)"
  unfolding mb_reap_def Let_def fold_del_filter by (force intro!: filter_cong)

lemma node_state_reap:
  "mb_wf m \<Longrightarrow> node_state_of (snd (mb_reap now m)) n t =
     (if node_state_of m n now = Dead then Dead else node_state_of m n t)"
  by (auto simp: node_state_of_def reap_peers mb_wf_def hm_get_retain split: option.splits)

lemma reap_view: "mb_wf m \<Longrightarrow> mb_view (snd (mb_reap now m)) now = mb_view m now"
  unfolding mb_view_def
  by (auto simp: reap_peers node_state_reap
      intro!: arg_cong [where f = "view_new _"] arg_cong [where f = "map _"] filter_cong)

lemma reap_alive_count: "mb_wf m \<Longrightarrow> alive_count (snd (mb_reap now m)) now = alive_count m now"
  unfolding alive_count_def
  by (auto simp: reap_peers node_state_reap intro!: arg_cong [where f = length] filter_cong)

text \<open>A node counted for the quorum is in the view, as an active member.\<close>

lemma alive_in_view:
  assumes "mb_wf m" "hm_get (mb_peers m) n = Some c" "c_mode c = Active"
    "node_state_of m n now = Alive"
  shows "n \<in> set (view_active (mb_view m now))"
  using assms by (auto simp: mb_view_active node_state_of_def)

subsection \<open>The failure detector\<close>

text \<open>
  How silence is judged. With a safe configuration, a node last heard at some time is alive until
  the suspicion timeout, suspect from then until the death timeout and dead from then on; and dropping
  the dead changes neither the view, nor the number counted alive, nor the state of any node.
\<close>

theorem failure_detector:
  assumes "mb_wf m" and "hm_get (mb_peers m) n = Some c" and "c_at c \<le> now"
    and "membership_config_is_safe (mb_config m)"
  shows "(node_state_of m n now = Alive \<longleftrightarrow> now < c_at c + suspect_after (mb_config m))
    \<and> (node_state_of m n now = Dead \<longleftrightarrow> c_at c + dead_after (mb_config m) \<le> now)
    \<and> mb_view (snd (mb_reap now m)) now = mb_view m now
    \<and> alive_count (snd (mb_reap now m)) now = alive_count m now
    \<and> node_state_of (snd (mb_reap now m)) n now = node_state_of m n now"
  using assms reap_view [OF assms(1)] reap_alive_count [OF assms(1)]
  by (auto simp: node_state_reap)
    (auto simp: node_state_of_def contact_state_def Let_def membership_config_is_safe_def split: if_splits)

theorem failure_detector_witness:
  "let m = heard 2 Active 0 (membership_new 1 membership_config_default)
   in node_state_of m 2 (from_secs 4) = Suspect \<and> node_state_of (snd (mb_reap (from_secs 4) m)) 2 (from_secs 4) = Suspect"
proof -
  let ?m = "heard 2 Active 0 (membership_new 1 membership_config_default)"
  have g: "hm_get (mb_peers ?m) 2 = Some \<lparr>c_mode = Active, c_at = 0\<rparr>"
    by (simp add: heard_def membership_new_def)
  have "node_state_of ?m 2 (from_secs 4) = Suspect"
    unfolding node_state_of_def g option.case
    by (simp add: contact_state_def from_secs_def membership_config_default_def)
  with failure_detector [OF _ g, of "from_secs 4"] show ?thesis
    by (simp add: membership_config_default_def membership_config_is_safe_def from_secs_def)
qed

end
