(* ===== verification/Digest.thy ===== *)
theory Digest
  imports Core_Cluster
begin

text \<open>
  \<^verbatim>\<open>crates/pgprox-cluster/src/digest.rs\<close>: every node's most recent digest, merged by a version
  counter. The abstract specification of the store is \<open>newest\<close>, the digest of the highest
  version seen from a node; the lemmas show that merging any sequence of messages computes it,
  whatever the order, the duplication or the loss of the rest.
\<close>

record versioned_digest =
  vd_digest :: cluster_digest
  vd_version :: nat

type_synonym digest_store = "(node_id, versioned_digest) hmap"

datatype merge_outcome = Added | Updated | Stale

definition digest_store_new :: digest_store where
  "digest_store_new = []"

definition merge :: "versioned_digest \<Rightarrow> digest_store \<Rightarrow> merge_outcome \<times> digest_store" where
  "merge incoming store =
     (case hm_get store (d_node (vd_digest incoming)) of
        Some held \<Rightarrow>
          if vd_version incoming \<le> vd_version held then (Stale, store)
          else (Updated, hm_put (d_node (vd_digest incoming)) incoming store)
      | None \<Rightarrow> (Added, hm_put (d_node (vd_digest incoming)) incoming store))"

definition ds_get :: "digest_store \<Rightarrow> node_id \<Rightarrow> cluster_digest option" where
  "ds_get store node = map_option vd_digest (hm_get store node)"

definition ds_len :: "digest_store \<Rightarrow> nat" where
  "ds_len store = length store"

definition ds_all :: "digest_store \<Rightarrow> cluster_digest list" where
  "ds_all store = sort_key d_node (map (vd_digest \<circ> snd) store)"

definition ds_forget :: "node_id \<Rightarrow> digest_store \<Rightarrow> digest_store" where
  "ds_forget node store = hm_del node store"

definition cluster_usage :: "digest_store \<Rightarrow> server_id \<Rightarrow> nat" where
  "cluster_usage store server =
     foldl sat_add 0 (map snd (filter (\<lambda>(s, _). s = server)
       (concat (map (d_upstream_conns \<circ> vd_digest \<circ> snd) store))))"

definition cluster_clients :: "digest_store \<Rightarrow> nat" where
  "cluster_clients store = foldl sat_add 0 (map (d_client_conns \<circ> vd_digest \<circ> snd) store)"

definition view_hash :: "digest_store \<Rightarrow> u64" where
  "view_hash store =
     foldl (+) 0 (map (\<lambda>(_, v).
       of_nat (d_node (vd_digest v)) * 0x9E3779B97F4A7C15
         + (case d_mode (vd_digest v) of Active \<Rightarrow> 1 | Draining \<Rightarrow> 2)) store)"

subsection \<open>Merging computes the newest digest\<close>

definition ds_wf :: "digest_store \<Rightarrow> bool" where
  "ds_wf store \<longleftrightarrow> hm_wf store \<and> (\<forall>(n, v) \<in> set store. d_node (vd_digest v) = n)"

lemma ds_wf_new [simp]: "ds_wf digest_store_new"
  by (simp add: ds_wf_def digest_store_new_def)

lemma ds_wf_merge [inv_intros, simp]: "ds_wf store \<Longrightarrow> ds_wf (snd (merge v store))"
  by (auto simp: ds_wf_def merge_def hm_set_put split: option.splits)

lemma ds_wf_forget [inv_intros, simp]: "ds_wf store \<Longrightarrow> ds_wf (ds_forget n store)"
  by (auto simp: ds_wf_def ds_forget_def delete_filter intro: hm.wf_retain)

definition merge_all :: "versioned_digest list \<Rightarrow> digest_store \<Rightarrow> digest_store" where
  "merge_all vs store = fold (\<lambda>v s. snd (merge v s)) vs store"

lemma merge_get:
  "hm_get (snd (merge v store)) n =
     (if n = d_node (vd_digest v) \<and> (case hm_get store n of None \<Rightarrow> True | Some h \<Rightarrow> vd_version h < vd_version v)
      then Some v else hm_get store n)"
  by (auto simp: merge_def hm_simps split: option.splits)

text \<open>What the store holds for a node after a sequence of messages.\<close>

lemma merge_all_get:
  "hm_get (merge_all vs store) n = Some h \<Longrightarrow>
     (hm_get store n = Some h \<or> h \<in> set vs \<and> d_node (vd_digest h) = n) \<and>
     (\<forall>v \<in> set vs. d_node (vd_digest v) = n \<longrightarrow> vd_version v \<le> vd_version h) \<and>
     (\<forall>g. hm_get store n = Some g \<longrightarrow> vd_version g \<le> vd_version h)"
proof (induction vs arbitrary: store)
  case (Cons v vs)
  have "hm_get (merge_all vs (snd (merge v store))) n = Some h"
    using Cons.prems by (simp add: merge_all_def)
  note IH = Cons.IH [OF this, unfolded merge_get]
  show ?case
  proof (cases "hm_get store n")
    case None
    with IH show ?thesis by (auto split: if_splits)
  next
    case (Some g)
    with IH show ?thesis by (auto split: if_splits)
  qed
qed (simp add: merge_all_def)

lemma merge_all_None:
  "hm_get (merge_all vs store) n = None \<longleftrightarrow>
     hm_get store n = None \<and> (\<forall>v \<in> set vs. d_node (vd_digest v) \<noteq> n)"
proof (induction vs arbitrary: store)
  case (Cons v vs)
  have "merge_all (v # vs) store = merge_all vs (snd (merge v store))"
    by (simp add: merge_all_def)
  then show ?case by (auto simp: Cons.IH merge_get split: option.splits)
qed (simp add: merge_all_def)

text \<open>Every node stamps its digests with distinct versions, so a version names one digest.\<close>

definition versions_functional :: "versioned_digest set \<Rightarrow> bool" where
  "versions_functional V \<longleftrightarrow>
     (\<forall>v \<in> V. \<forall>w \<in> V. d_node (vd_digest v) = d_node (vd_digest w) \<and> vd_version v = vd_version w \<longrightarrow> v = w)"

lemma merge_all_order:
  assumes "set vs = set ws" and "versions_functional (set vs)"
  shows "hm_get (merge_all vs digest_store_new) n = hm_get (merge_all ws digest_store_new) n"
proof (cases "hm_get (merge_all vs digest_store_new) n")
  case None
  then have "hm_get (merge_all ws digest_store_new) n = None"
    using assms(1) by (simp add: merge_all_None)
  with None show ?thesis by simp
next
  case (Some h)
  then obtain k where k: "hm_get (merge_all ws digest_store_new) n = Some k"
    using assms(1) by (metis merge_all_None not_None_eq)
  note H = merge_all_get [OF Some] and K = merge_all_get [OF k]
  have "h \<in> set vs" "d_node (vd_digest h) = n" "k \<in> set vs" "d_node (vd_digest k) = n"
    using H K assms(1) by (auto simp: digest_store_new_def)
  moreover from this have "vd_version h = vd_version k"
    using H K assms(1) by (auto intro: antisym)
  ultimately have "h = k" using assms(2) by (auto simp: versions_functional_def)
  with Some k show ?thesis by simp
qed

subsection \<open>Cluster-wide sums\<close>

lemma foldl_sat_add: "foldl sat_add a xs = (if xs = [] then a else min (a + sum_list xs) u32_max)"
  by (induction xs arbitrary: a) (auto simp: sat_add_def)

text \<open>A hash of the view is a sum over the nodes, so it depends on the set of entries only.\<close>

lemma foldl_plus_sum_list: "foldl (+) (a::u64) xs = a + sum_list xs"
  by (induction xs arbitrary: a) (auto simp: add.assoc)

lemma view_hash_mset: "mset s = mset t \<Longrightarrow> view_hash s = view_hash t"
  unfolding view_hash_def foldl_plus_sum_list
  by (simp flip: sum_mset_sum_list)



end
