(* ===== verification/Reservation.thy ===== *)
theory Reservation
  imports Float64 Core_Cluster
begin

text \<open>
  \<^verbatim>\<open>crates/pgprox-cluster/src/reservation.rs\<close>: a tenant's home node reserves most of that tenant's
  budget, use it or lose it. The lemmas bound what a fleet is entitled to by the tenant's
  budget, decayed or not, and count the idle rounds a reservation survives.
\<close>

record reservation_config =
  home_share :: f64
  decay_rounds :: nat

text \<open>The double nearest to 0.8.\<close>

definition reservation_config_default :: reservation_config where
  "reservation_config_default = \<lparr>home_share = Fin False 7205759403792794 (-53), decay_rounds = 3\<rparr>"

record tenant_entitlement =
  te_allowed :: nat
  te_is_home :: bool

record reservations =
  rs_config :: reservation_config
  rs_idle_rounds :: "(tenant_id, nat) hmap"

definition reservations_new :: "reservation_config \<Rightarrow> reservations" where
  "reservations_new config = \<lparr>rs_config = config, rs_idle_rounds = []\<rparr>"

definition idle_rounds :: "reservations \<Rightarrow> tenant_id \<Rightarrow> nat" where
  "idle_rounds r tenant = (case hm_get (rs_idle_rounds r) tenant of None \<Rightarrow> 0 | Some n \<Rightarrow> n)"

definition rs_observe :: "tenant_id \<Rightarrow> nat \<Rightarrow> reservations \<Rightarrow> reservations" where
  "rs_observe tenant home_usage r =
     (let entry = (case hm_get (rs_idle_rounds r) tenant of None \<Rightarrow> 0 | Some n \<Rightarrow> n) in
      r\<lparr>rs_idle_rounds :=
          hm_put tenant (if home_usage > 0 then 0 else sat_add entry 1) (rs_idle_rounds r)\<rparr>)"

definition has_decayed :: "reservations \<Rightarrow> tenant_id \<Rightarrow> bool" where
  "has_decayed r tenant =
     (case hm_get (rs_idle_rounds r) tenant of None \<Rightarrow> False
      | Some rounds \<Rightarrow> rounds \<ge> decay_rounds (rs_config r))"

definition entitlement ::
  "reservations \<Rightarrow> tenant_id \<Rightarrow> node_id \<Rightarrow> node_id option \<Rightarrow> nat \<Rightarrow> nat \<Rightarrow> tenant_entitlement" where
  "entitlement r tenant node home budget peers0 =
     (let is_home = (home = Some node); peers = max peers0 1 in
      if home = None \<or> has_decayed r tenant then
        \<lparr>te_allowed = budget div peers, te_is_home = is_home\<rparr>
      else
        let reserved = fraction_of budget (home_share (rs_config r)) in
        if is_home then \<lparr>te_allowed = reserved, te_is_home = is_home\<rparr>
        else let others = max (peers - 1) 1 in
          \<lparr>te_allowed = (budget - reserved) div others, te_is_home = is_home\<rparr>)"

definition rs_forget :: "tenant_id \<Rightarrow> reservations \<Rightarrow> reservations" where
  "rs_forget tenant r = r\<lparr>rs_idle_rounds := hm_del tenant (rs_idle_rounds r)\<rparr>"

definition rs_tracked :: "reservations \<Rightarrow> nat" where
  "rs_tracked r = length (rs_idle_rounds r)"

subsection \<open>Entitlements fit the budget\<close>

lemma even_split_le:
  fixes budget :: nat
  assumes "length nodes \<le> peers"
  shows "sum_list (map (\<lambda>n. budget div max peers 1) nodes) \<le> budget"
proof -
  have "sum_list (map (\<lambda>n. budget div max peers 1) nodes) \<le> length nodes * (budget div max peers 1)"
    by (rule sum_list_bound) simp
  also have "\<dots> \<le> max peers 1 * (budget div max peers 1)"
    using assms by (intro mult_le_mono1) simp
  also have "\<dots> \<le> budget" by simp
  finally show ?thesis .
qed

lemma entitlements_sum:
  assumes "distinct nodes" and "length nodes \<le> peers" and "\<And>h. home = Some h \<Longrightarrow> h \<in> set nodes"
    and budget: "budget \<le> u32_max"
  shows "sum_list (map (\<lambda>n. te_allowed (entitlement r t n home budget peers)) nodes) \<le> budget"
proof (cases "home = None \<or> has_decayed r t")
  case True
  then show ?thesis
    using even_split_le [OF assms(2), of budget] by (simp add: entitlement_def Let_def)
next
  case False
  then obtain h where h: "home = Some h" by auto
  let ?r = "fraction_of budget (home_share (rs_config r))"
  let ?o = "max (max peers 1 - 1) 1"
  let ?f = "\<lambda>n. te_allowed (entitlement r t n home budget peers)"
  have f: "?f h = ?r" "n \<noteq> h \<Longrightarrow> ?f n = (budget - ?r) div ?o" for n
    using False h by (auto simp: entitlement_def Let_def)
  have "sum_list (map ?f nodes) = ?f h + sum_list (map ?f (remove1 h nodes))"
    using assms(3) [OF h] by (simp add: sum_list_map_remove1)
  also have "sum_list (map ?f (remove1 h nodes)) \<le> length (remove1 h nodes) * ((budget - ?r) div ?o)"
    using assms(1) f(2) by (intro sum_list_bound) (auto simp: set_remove1_eq)
  also have "length (remove1 h nodes) * ((budget - ?r) div ?o) \<le> ?o * ((budget - ?r) div ?o)"
    using assms(2) assms(3) [OF h] by (intro mult_le_mono1) (auto simp: length_remove1)
  also have "\<dots> \<le> budget - ?r" by simp
  finally show ?thesis
    using f(1) fraction_of_le [OF budget, of "home_share (rs_config r)"] by simp
qed

text \<open>Rounds of observation: any use resets the count, silence adds one.\<close>

lemma observe_idle_rounds:
  "idle_rounds (rs_observe t u r) s =
     (if s = t then (if u > 0 then 0 else sat_add (idle_rounds r t) 1) else idle_rounds r s)"
  by (simp add: idle_rounds_def rs_observe_def Let_def hm_simps)

lemma observe_silence:
  "idle_rounds r t + k \<le> u32_max \<Longrightarrow>
   idle_rounds (((rs_observe t 0) ^^ k) r) t = idle_rounds r t + k"
  by (induction k) (auto simp: observe_idle_rounds sat_add_exact)

lemma rs_config_observe [simp]: "rs_config (((rs_observe t u) ^^ k) r) = rs_config r"
  by (induction k) (auto simp: rs_observe_def Let_def)

lemma decayed_iff: "hm_get (rs_idle_rounds r) t \<noteq> None \<Longrightarrow>
    has_decayed r t \<longleftrightarrow> idle_rounds r t \<ge> decay_rounds (rs_config r)"
  by (auto simp: has_decayed_def idle_rounds_def)

lemma observed_tracked: "k > 0 \<Longrightarrow> hm_get (rs_idle_rounds (((rs_observe t u) ^^ k) r)) t \<noteq> None"
  by (cases k) (auto simp: rs_observe_def Let_def hm_simps)

text \<open>
  A tenant's budget is never promised twice. For distinct nodes no more numerous than the peer
  count each of them divides by, the home among them, and a shared view of what has decayed, the
  entitlements of all nodes sum to at most the tenant's budget.
\<close>

theorem entitlements_within_budget:
  assumes "distinct nodes" and "length nodes \<le> peers" and "\<And>h. home = Some h \<Longrightarrow> h \<in> set nodes"
    and "budget \<le> u32_max"
  shows "sum_list (map (\<lambda>n. te_allowed (entitlement r t n home budget peers)) nodes) \<le> budget"
  using assms by (rule entitlements_sum)

theorem entitlements_within_budget_witness:
  "sum_list (map (\<lambda>n. te_allowed (entitlement (reservations_new reservation_config_default) ''t'' n (Some 2) 100 3)) [1, 2, 3]) \<le> 100"
  by (rule entitlements_within_budget) (auto simp: u32_max_def)

lemma used_not_decayed: "0 < used \<Longrightarrow> 0 < decay_rounds (rs_config r) \<Longrightarrow> \<not> has_decayed (rs_observe t used r) t"
  by (simp add: has_decayed_def rs_observe_def Let_def hm_simps)

text \<open>
  C21. A silent home loses its reservation, and exactly then. After \<open>k\<close> consecutive rounds in which
  a tenant uses nothing at its home, counted from a round in which it did, the reservation has decayed
  if and only if \<open>k\<close> has reached the configured number of rounds; one round of use restores it.
\<close>

theorem reservation_decays:
  assumes "k \<le> u32_max" and "0 < decay_rounds (rs_config r)" and "0 < used"
  shows "(has_decayed ((rs_observe t 0 ^^ k) (rs_observe t used r)) t \<longleftrightarrow> decay_rounds (rs_config r) \<le> k)
    \<and> \<not> has_decayed (rs_observe t used ((rs_observe t 0 ^^ k) r)) t"
proof -
  let ?r = "rs_observe t used r"
  have r0: "idle_rounds ?r t = 0" "rs_config ?r = rs_config r" "hm_get (rs_idle_rounds ?r) t \<noteq> None"
    using assms(3) by (simp_all add: observe_idle_rounds, simp_all add: rs_observe_def Let_def hm_simps)
  have "hm_get (rs_idle_rounds ((rs_observe t 0 ^^ k) ?r)) t \<noteq> None"
    using r0(3) observed_tracked [of k t 0 ?r] by (cases "k = 0") auto
  then have "has_decayed ((rs_observe t 0 ^^ k) ?r) t \<longleftrightarrow> decay_rounds (rs_config r) \<le> k"
    using observe_silence [of ?r t k] assms(1) r0 by (simp add: decayed_iff)
  moreover have "\<not> has_decayed (rs_observe t used ((rs_observe t 0 ^^ k) r)) t"
    by (rule used_not_decayed) (use assms(2,3) in simp_all)
  ultimately show ?thesis ..
qed

theorem reservation_decays_witness:
  "has_decayed ((rs_observe ''t'' 0 ^^ 3) (rs_observe ''t'' 1 (reservations_new reservation_config_default))) ''t''"
  using reservation_decays [of 3 "reservations_new reservation_config_default" 1 "''t''"]
  by (simp add: u32_max_def reservations_new_def reservation_config_default_def)

end
