(* ===== verification/Coordinator.thy ===== *)
theory Coordinator
  imports Quota Lease Membership Digest Reservation
begin

text \<open>
  \<^verbatim>\<open>crates/pgprox-cluster/src/coordinator.rs\<close>: one node's view of membership, quota and leases. The
  coordinator is a record of the parts the other theories model, and each method is one
  definition: gossip in, heartbeat, observe (which brings the ledgers in line with membership,
  drops the dead, ages the reservations and notices a changed view), what the node may open,
  and the lease operations.
\<close>

record server_quota =
  sq_cap :: nat
  sq_guaranteed_fraction :: f64

record coordinator_config =
  cc_guaranteed_fraction :: f64
  fleet_size :: nat
  cc_lease :: lease_config
  cc_membership :: membership_config
  cc_reservation :: reservation_config

definition coordinator_config_default :: coordinator_config where
  "coordinator_config_default =
     (let membership = membership_config_default; lease = lease_config_default in
      \<lparr>cc_guaranteed_fraction = Fin False 1 (-1), fleet_size = 5,
       cc_lease = lease\<lparr>takeover_wait := ttl lease + suspect_after membership\<rparr>,
       cc_membership = membership, cc_reservation = reservation_config_default\<rparr>)"

definition effective_lease :: "coordinator_config \<Rightarrow> lease_config" where
  "effective_lease c =
     \<lparr>ttl = ttl (cc_lease c),
      takeover_wait = max (takeover_wait (cc_lease c)) (ttl (cc_lease c) + suspect_after (cc_membership c))\<rparr>"

definition coordinator_config_is_safe :: "coordinator_config \<Rightarrow> bool" where
  "coordinator_config_is_safe c \<longleftrightarrow>
     lease_config_is_safe (cc_lease c) \<and> membership_config_is_safe (cc_membership c) \<and>
     takeover_wait (cc_lease c) \<ge> ttl (cc_lease c) + suspect_after (cc_membership c)"

record node_coordinator =
  nc_local :: node_id
  nc_config :: coordinator_config
  nc_digests :: digest_store
  nc_liveness :: membership
  nc_ledgers :: "(server_id, lease_ledger) hmap"
  nc_held :: "(server_id, quota_lease) hmap"
  nc_caps :: "(server_id, server_quota) hmap"
  nc_mode :: node_mode
  nc_client_conns :: nat
  nc_upstream_conns :: "(server_id \<times> nat) list"
  nc_tenant_usage :: "(tenant_id \<times> nat) list"
  nc_reservations :: reservations
  nc_tracked_tenants :: "tenant_id list"
  nc_membership_changed_at :: instant
  nc_view_hash :: u64
  nc_self_version :: nat

definition coordinator_new :: "node_id \<Rightarrow> coordinator_config \<Rightarrow> instant \<Rightarrow> node_coordinator" where
  "coordinator_new local config started =
     \<lparr>nc_local = local, nc_config = config, nc_digests = digest_store_new,
      nc_liveness = membership_new local (cc_membership config),
      nc_ledgers = [], nc_held = [], nc_caps = [], nc_mode = Active, nc_client_conns = 0,
      nc_upstream_conns = [], nc_tenant_usage = [],
      nc_reservations = reservations_new (cc_reservation config), nc_tracked_tenants = [],
      nc_membership_changed_at = started, nc_view_hash = 0, nc_self_version = 0\<rparr>"

definition set_cap :: "server_id \<Rightarrow> server_quota \<Rightarrow> node_coordinator \<Rightarrow> node_coordinator" where
  "set_cap server quota c = c\<lparr>nc_caps := hm_put server quota (nc_caps c)\<rparr>"

definition co_digest :: "node_coordinator \<Rightarrow> cluster_digest" where
  "co_digest c =
     \<lparr>d_node = nc_local c, d_mode = nc_mode c, d_client_conns = nc_client_conns c,
      d_upstream_conns = nc_upstream_conns c, d_tenant_usage = nc_tenant_usage c\<rparr>"

definition co_gossip ::
  "versioned_digest \<Rightarrow> instant \<Rightarrow> node_coordinator \<Rightarrow> merge_outcome \<times> node_coordinator" where
  "co_gossip incoming now c =
     (let node = d_node (vd_digest incoming);
          mode = d_mode (vd_digest incoming);
          (outcome, digests) = merge incoming (nc_digests c);
          live = (case outcome of
                    Stale \<Rightarrow> heard_without_mode node now (nc_liveness c)
                  | _ \<Rightarrow> heard node mode now (nc_liveness c))
      in (outcome, c\<lparr>nc_digests := digests, nc_liveness := live\<rparr>))"

definition heartbeat :: "instant \<Rightarrow> node_coordinator \<Rightarrow> node_coordinator" where
  "heartbeat now c =
     (let c1 = c\<lparr>nc_liveness := heard (nc_local c) (nc_mode c) now (nc_liveness c),
                 nc_self_version := nc_self_version c + 1\<rparr>
      in c1\<lparr>nc_digests :=
              snd (merge \<lparr>vd_digest = co_digest c1, vd_version = nc_self_version c1\<rparr> (nc_digests c1))\<rparr>)"

definition co_forget :: "node_id \<Rightarrow> node_coordinator \<Rightarrow> node_coordinator" where
  "co_forget node c =
     c\<lparr>nc_liveness := mb_forget node (nc_liveness c), nc_digests := ds_forget node (nc_digests c)\<rparr>"

definition co_membership :: "node_coordinator \<Rightarrow> instant \<Rightarrow> membership_view" where
  "co_membership c now = mb_view (nc_liveness c) now"

definition split_for :: "node_coordinator \<Rightarrow> server_id \<Rightarrow> membership_view \<Rightarrow> quota_split" where
  "split_for c server view =
     (let quota = hm_get (nc_caps c) server;
          seen = try_u32 (length (v_members view))
      in split_quota (case quota of None \<Rightarrow> 0 | Some q \<Rightarrow> sq_cap q)
           (max (fleet_size (nc_config c)) seen)
           (case quota of None \<Rightarrow> cc_guaranteed_fraction (nc_config c) | Some q \<Rightarrow> sq_guaranteed_fraction q))"

definition has_quorum :: "node_coordinator \<Rightarrow> instant \<Rightarrow> bool" where
  "has_quorum c now =
     (let alive = try_u32 (alive_count (nc_liveness c) now);
          fleet = max (fleet_size (nc_config c)) 1
      in sat_mul alive 2 > fleet)"

definition home_usage :: "node_coordinator \<Rightarrow> tenant_id \<Rightarrow> instant \<Rightarrow> nat" where
  "home_usage c tenant now =
     (case home_node (co_membership c now) tenant of
        None \<Rightarrow> 0
      | Some home \<Rightarrow>
          (case ds_get (nc_digests c) home of
             None \<Rightarrow> 0
           | Some digest \<Rightarrow>
               (case find (\<lambda>(id, _). id = tenant) (d_tenant_usage digest) of
                  None \<Rightarrow> 0 | Some (_, used) \<Rightarrow> used)))"

text \<open>The body of the loop over servers in \<open>observe\<close>.\<close>

definition observe_ledger ::
  "node_coordinator \<Rightarrow> membership_view \<Rightarrow> bool \<Rightarrow> instant \<Rightarrow> server_id \<Rightarrow> lease_ledger option \<Rightarrow> lease_ledger" where
  "observe_ledger c view leading now server entry =
     (let split = split_for c server view;
          ledger = (case entry of Some l \<Rightarrow> l
                    | None \<Rightarrow> ledger_new (free_pool split) (effective_lease (nc_config c)))
      in ledger_reap now (observe_leadership leading now (set_pool (free_pool split) ledger)))"

definition observe_server ::
  "membership_view \<Rightarrow> bool \<Rightarrow> instant \<Rightarrow> server_id \<Rightarrow> node_coordinator \<Rightarrow> node_coordinator" where
  "observe_server view leading now server c =
     c\<lparr>nc_ledgers :=
         hm_put server (observe_ledger c view leading now server (hm_get (nc_ledgers c) server))
           (nc_ledgers c)\<rparr>"

definition observe_dead :: "instant \<Rightarrow> node_coordinator \<Rightarrow> node_coordinator" where
  "observe_dead now c =
     (let (dead, live) = mb_reap now (nc_liveness c) in
      c\<lparr>nc_liveness := live,
        nc_digests := fold ds_forget (filter (\<lambda>node. node \<noteq> nc_local c) dead) (nc_digests c)\<rparr>)"

definition observe_tenant :: "instant \<Rightarrow> tenant_id \<Rightarrow> node_coordinator \<Rightarrow> node_coordinator" where
  "observe_tenant now tenant c =
     c\<lparr>nc_reservations := rs_observe tenant (home_usage c tenant now) (nc_reservations c)\<rparr>"

definition observe_hash :: "instant \<Rightarrow> node_coordinator \<Rightarrow> node_coordinator" where
  "observe_hash now c =
     (let hash = view_hash (nc_digests c) in
      if hash \<noteq> nc_view_hash c then c\<lparr>nc_view_hash := hash, nc_membership_changed_at := now\<rparr> else c)"

definition co_leading :: "node_coordinator \<Rightarrow> instant \<Rightarrow> bool" where
  "co_leading c now \<longleftrightarrow> is_leader (co_membership c now) \<and> has_quorum c now"

definition co_observe :: "instant \<Rightarrow> node_coordinator \<Rightarrow> node_coordinator" where
  "co_observe now c =
     (let view = co_membership c now;
          leading = co_leading c now;
          c1 = fold (observe_server view leading now) (map fst (nc_caps c)) c;
          c2 = observe_dead now c1;
          c3 = fold (observe_tenant now) (nc_tracked_tenants c2) c2
      in observe_hash now c3)"

definition co_allowance :: "node_coordinator \<Rightarrow> server_id \<Rightarrow> instant \<Rightarrow> node_allowance" where
  "co_allowance c server now =
     \<lparr>al_server = server,
      guaranteed = guaranteed_per_node (split_for c server (co_membership c now)),
      leased = (case hm_get (nc_held c) server of None \<Rightarrow> 0 | Some l \<Rightarrow> lease_count l now)\<rparr>"

definition co_request ::
  "server_id \<Rightarrow> node_id \<Rightarrow> nat \<Rightarrow> instant \<Rightarrow> node_coordinator \<Rightarrow> (quota_error + quota_lease) \<times> node_coordinator" where
  "co_request server holder want now c =
     (if \<not> has_quorum c now then (Inl NoLeader, c)
      else case hm_get (nc_ledgers c) server of
        None \<Rightarrow> (Inl NoLeader, c)
      | Some ledger \<Rightarrow>
          (case grant server holder want now ledger of
             (r, ledger') \<Rightarrow> (r, c\<lparr>nc_ledgers := hm_put server ledger' (nc_ledgers c)\<rparr>)))"

definition co_accept :: "quota_lease \<Rightarrow> node_coordinator \<Rightarrow> node_coordinator" where
  "co_accept lease c = c\<lparr>nc_held := hm_put (l_server lease) lease (nc_held c)\<rparr>"

definition co_release :: "server_id \<Rightarrow> node_coordinator \<Rightarrow> node_coordinator" where
  "co_release server c =
     (let c1 = c\<lparr>nc_held := hm_del server (nc_held c)\<rparr> in
      case hm_get (nc_ledgers c1) server of
        None \<Rightarrow> c1
      | Some ledger \<Rightarrow> c1\<lparr>nc_ledgers := hm_put server (ledger_release (nc_local c1) ledger) (nc_ledgers c1)\<rparr>)"

definition forget_leases :: "node_coordinator \<Rightarrow> node_coordinator" where
  "forget_leases c = c\<lparr>nc_held := []\<rparr>"

definition co_set_mode :: "node_mode \<Rightarrow> node_coordinator \<Rightarrow> node_coordinator" where
  "co_set_mode mode c = c\<lparr>nc_mode := mode\<rparr>"

definition co_report :: "nat \<Rightarrow> (server_id \<times> nat) list \<Rightarrow> node_coordinator \<Rightarrow> node_coordinator" where
  "co_report client_conns upstream c = c\<lparr>nc_client_conns := client_conns, nc_upstream_conns := upstream\<rparr>"

definition report_tenants :: "(tenant_id \<times> nat) list \<Rightarrow> node_coordinator \<Rightarrow> node_coordinator" where
  "report_tenants usage c = c\<lparr>nc_tenant_usage := usage\<rparr>"

definition co_home_has_headroom :: "node_coordinator \<Rightarrow> tenant_id \<Rightarrow> nat \<Rightarrow> instant \<Rightarrow> bool" where
  "co_home_has_headroom c tenant budget now =
     (let view = co_membership c now in
      case home_node view tenant of
        None \<Rightarrow> False
      | Some home \<Rightarrow>
          (let peers = try_u32 (active_count view);
               ent = entitlement (nc_reservations c) tenant home (Some home) budget peers
           in home_usage c tenant now < te_allowed ent))"

definition co_home_draining :: "node_coordinator \<Rightarrow> tenant_id \<Rightarrow> instant \<Rightarrow> bool" where
  "co_home_draining c tenant now =
     (case Option.bind (home_node (co_membership c now) tenant) (ds_get (nc_digests c)) of
        None \<Rightarrow> False
      | Some digest \<Rightarrow> d_mode digest = Draining)"

definition co_since_membership_change :: "node_coordinator \<Rightarrow> instant \<Rightarrow> duration" where
  "co_since_membership_change c now = now - nc_membership_changed_at c"

definition track_tenant :: "tenant_id \<Rightarrow> node_coordinator \<Rightarrow> node_coordinator" where
  "track_tenant tenant c = c\<lparr>nc_tracked_tenants := List.insert tenant (nc_tracked_tenants c)\<rparr>"

definition forget_tenant :: "tenant_id \<Rightarrow> node_coordinator \<Rightarrow> node_coordinator" where
  "forget_tenant tenant c =
     c\<lparr>nc_tracked_tenants := removeAll tenant (nc_tracked_tenants c),
       nc_reservations := rs_forget tenant (nc_reservations c)\<rparr>"

subsection \<open>What each operation leaves alone\<close>

named_theorems co_frame "fields an operation of the coordinator does not write"

lemma fold_frame:
  assumes "\<And>x s. f (g x s) = f s"
  shows "f (fold g xs s) = f s"
  using assms by (induction xs arbitrary: s) auto

lemma observe_server_frame [co_frame, simp]:
  "nc_local (observe_server v b t s c) = nc_local c" "nc_config (observe_server v b t s c) = nc_config c"
  "nc_liveness (observe_server v b t s c) = nc_liveness c" "nc_held (observe_server v b t s c) = nc_held c"
  "nc_caps (observe_server v b t s c) = nc_caps c" "nc_digests (observe_server v b t s c) = nc_digests c"
  "nc_mode (observe_server v b t s c) = nc_mode c"
  by (simp_all add: observe_server_def)

lemma observe_tail_frame [co_frame, simp]:
  "nc_local (observe_dead t c) = nc_local c" "nc_config (observe_dead t c) = nc_config c"
  "nc_held (observe_dead t c) = nc_held c" "nc_caps (observe_dead t c) = nc_caps c"
  "nc_ledgers (observe_dead t c) = nc_ledgers c" "nc_mode (observe_dead t c) = nc_mode c"
  "nc_liveness (observe_dead t c) = snd (mb_reap t (nc_liveness c))"
  "nc_local (observe_tenant t x c) = nc_local c" "nc_config (observe_tenant t x c) = nc_config c"
  "nc_held (observe_tenant t x c) = nc_held c" "nc_caps (observe_tenant t x c) = nc_caps c"
  "nc_ledgers (observe_tenant t x c) = nc_ledgers c" "nc_liveness (observe_tenant t x c) = nc_liveness c"
  "nc_mode (observe_tenant t x c) = nc_mode c"
  "nc_local (observe_hash t c) = nc_local c" "nc_config (observe_hash t c) = nc_config c"
  "nc_held (observe_hash t c) = nc_held c" "nc_caps (observe_hash t c) = nc_caps c"
  "nc_ledgers (observe_hash t c) = nc_ledgers c" "nc_liveness (observe_hash t c) = nc_liveness c"
  "nc_mode (observe_hash t c) = nc_mode c"
  by (simp_all add: observe_dead_def observe_tenant_def observe_hash_def Let_def split: prod.splits)

lemma co_observe_frame [co_frame, simp]:
  "nc_local (co_observe t c) = nc_local c" "nc_config (co_observe t c) = nc_config c"
  "nc_held (co_observe t c) = nc_held c" "nc_caps (co_observe t c) = nc_caps c"
  "nc_mode (co_observe t c) = nc_mode c"
  "nc_liveness (co_observe t c) = snd (mb_reap t (nc_liveness c))"
  by (simp_all add: co_observe_def Let_def fold_frame [where f = nc_local] fold_frame [where f = nc_config]
      fold_frame [where f = nc_held] fold_frame [where f = nc_caps] fold_frame [where f = nc_liveness]
      fold_frame [where f = nc_mode])

lemma co_gossip_frame [co_frame, simp]:
  "nc_local (snd (co_gossip v t c)) = nc_local c" "nc_config (snd (co_gossip v t c)) = nc_config c"
  "nc_held (snd (co_gossip v t c)) = nc_held c" "nc_caps (snd (co_gossip v t c)) = nc_caps c"
  "nc_ledgers (snd (co_gossip v t c)) = nc_ledgers c" "nc_mode (snd (co_gossip v t c)) = nc_mode c"
  by (simp_all add: co_gossip_def Let_def split: prod.splits)

lemma heartbeat_frame [co_frame, simp]:
  "nc_local (heartbeat t c) = nc_local c" "nc_config (heartbeat t c) = nc_config c"
  "nc_held (heartbeat t c) = nc_held c" "nc_caps (heartbeat t c) = nc_caps c"
  "nc_ledgers (heartbeat t c) = nc_ledgers c" "nc_mode (heartbeat t c) = nc_mode c"
  "nc_liveness (heartbeat t c) = heard (nc_local c) (nc_mode c) t (nc_liveness c)"
  by (simp_all add: heartbeat_def Let_def)

subsection \<open>Ledgers after an observation\<close>

lemma split_for_cong: "nc_caps c = nc_caps c' \<Longrightarrow> nc_config c = nc_config c' \<Longrightarrow> split_for c = split_for c'"
  by (simp add: split_for_def fun_eq_iff cong: option.case_cong)

lemma observe_ledger_cong:
  "nc_caps c = nc_caps c' \<Longrightarrow> nc_config c = nc_config c' \<Longrightarrow> observe_ledger c = observe_ledger c'"
  by (simp add: observe_ledger_def fun_eq_iff split_for_cong [of c c'] cong: option.case_cong)

lemma fold_observe_server:
  assumes "distinct ss"
  shows "hm_get (nc_ledgers (fold (observe_server view b now) ss c)) s =
    (if s \<in> set ss then Some (observe_ledger c view b now s (hm_get (nc_ledgers c) s))
     else hm_get (nc_ledgers c) s)"
  using assms
proof (induction ss arbitrary: c)
  case (Cons x ss)
  let ?c = "observe_server view b now x c"
  have "observe_ledger ?c = observe_ledger c" by (rule observe_ledger_cong) simp_all
  moreover have "hm_get (nc_ledgers ?c) s =
      (if s = x then Some (observe_ledger c view b now x (hm_get (nc_ledgers c) x)) else hm_get (nc_ledgers c) s)"
    by (simp add: observe_server_def hm_simps)
  ultimately show ?case using Cons by auto
qed simp

lemma co_observe_ledger:
  assumes "hm_wf (nc_caps c)" and "hm_get (nc_caps c) s = Some q"
  shows "hm_get (nc_ledgers (co_observe now c)) s =
    Some (observe_ledger c (co_membership c now) (co_leading c now) now s (hm_get (nc_ledgers c) s))"
proof -
  have "nc_ledgers (co_observe now c) =
      nc_ledgers (fold (observe_server (co_membership c now) (co_leading c now) now) (map fst (nc_caps c)) c)"
    by (simp add: co_observe_def Let_def fold_frame [where f = nc_ledgers])
  moreover have "s \<in> set (map fst (nc_caps c))"
    using assms(2) by (metis map_of_eq_None_iff option.distinct(1) set_map)
  ultimately show ?thesis by (simp add: fold_observe_server [OF assms(1)])
qed

lemma co_observe_ledgers_wf: "hm_wf (nc_ledgers c) \<Longrightarrow> hm_wf (nc_ledgers (co_observe now c))"
proof -
  have "hm_wf (nc_ledgers c) \<Longrightarrow> hm_wf (nc_ledgers (fold (observe_server v b now) ss c))" for v b ss
    by (induction ss arbitrary: c) (auto simp: observe_server_def)
  then show "hm_wf (nc_ledgers c) \<Longrightarrow> hm_wf (nc_ledgers (co_observe now c))"
    by (simp add: co_observe_def Let_def fold_frame [where f = nc_ledgers])
qed

lemma observe_ledger_office:
  "took_office (observe_ledger c v b now s e) =
     (if b then (case e of Some l \<Rightarrow> (case took_office l of None \<Rightarrow> Some now | x \<Rightarrow> x) | None \<Rightarrow> Some now)
      else None)"
  by (auto simp: observe_ledger_def Let_def ledger_reap_def observe_leadership_def set_pool_def ledger_new_def
      split: option.splits bool.splits)

text \<open>Observing leaves the node's view and quorum as they were when it decided who leads.\<close>

lemma co_leading_observed:
  assumes "mb_wf (nc_liveness c)"
  shows "co_leading (co_observe now c) now = co_leading c now"
    "has_quorum (co_observe now c) now = has_quorum c now"
    "co_membership (co_observe now c) now = co_membership c now"
  using assms by (simp_all add: co_leading_def co_membership_def has_quorum_def reap_view reap_alive_count)

text \<open>A node divides by at least the configured fleet size, whatever it sees.\<close>

lemma split_for_nodes:
  "hm_get (nc_caps c) s = Some q \<Longrightarrow>
   \<exists>n \<ge> fleet_size (nc_config c). split_for c s v = split_quota (sq_cap q) n (sq_guaranteed_fraction q)"
  by (intro exI [of _ "max (fleet_size (nc_config c)) (try_u32 (length (v_members v)))"])
    (simp add: split_for_def Let_def)

subsection \<open>Who leads\<close>

lemma leading_lowest:
  assumes "co_leading c now" "mb_local (nc_liveness c) = nc_local c"
  shows "nc_local c \<in> set (view_active (co_membership c now))"
    "\<And>k. k \<in> set (view_active (co_membership c now)) \<Longrightarrow> nc_local c \<le> k"
  using assms leader_SomeD [of "co_membership c now"]
  by (auto simp: co_leading_def is_leader_def co_membership_def)

text \<open>
  C17. Two nodes that see each other never both lead: if each of two different nodes holds the other
  active in its view, at most one of them believes itself the leader. And the defaults are safe as they
  stand: the shipped configuration passes its own check and needs no correction of the takeover wait.
\<close>

theorem one_leader_when_visible:
  assumes "nc_local a \<noteq> nc_local b"
    and "mb_local (nc_liveness a) = nc_local a" and "mb_local (nc_liveness b) = nc_local b"
    and "nc_local b \<in> set (view_active (co_membership a now))" and "nc_local a \<in> set (view_active (co_membership b now))"
  shows "\<not> (co_leading a now \<and> co_leading b now)
    \<and> coordinator_config_is_safe coordinator_config_default
    \<and> effective_lease coordinator_config_default = cc_lease coordinator_config_default"
proof (intro conjI notI)
  assume "co_leading a now \<and> co_leading b now"
  then have "nc_local a \<le> nc_local b" "nc_local b \<le> nc_local a"
    using leading_lowest(2) assms by blast+
  with assms(1) show False by simp
qed (simp_all add: coordinator_config_default_def coordinator_config_is_safe_def lease_config_is_safe_def
    membership_config_is_safe_def lease_config_default_def membership_config_default_def from_secs_def
    effective_lease_def Let_def)

theorem one_leader_when_visible_witness:
  "let a = heartbeat 0 (coordinator_new 2 coordinator_config_default 0);
       b = heartbeat 0 (coordinator_new 3 coordinator_config_default 0);
       a' = a\<lparr>nc_liveness := heard 3 Active 0 (nc_liveness a)\<rparr>;
       b' = b\<lparr>nc_liveness := heard 2 Active 0 (nc_liveness b)\<rparr>
   in \<not> (co_leading a' 0 \<and> co_leading b' 0)"
  unfolding Let_def
  by (rule one_leader_when_visible [THEN conjunct1])
    (simp_all add: coordinator_new_def co_membership_def mb_view_active,
     simp_all add: heard_def membership_new_def contact_state_def coordinator_config_default_def
       membership_config_default_def from_secs_def Let_def)

end
