(* ===== verification/Service.thy ===== *)
theory Service
  imports Coordinator Shed
begin

text \<open>
  \<^verbatim>\<open>crates/pgprox-cluster/src/service.rs\<close>: the coordinator as the rest of the proxy sees it. The lock
  makes each method one atomic step, and the clock reading is an argument. The transport that
  carries a quota request to the leader is code outside this crate, so it is a parameter: a
  function of the request and of a world it may change.
\<close>

record gossip_coordinator =
  gc_inner :: node_coordinator
  gc_local :: node_id
  gc_version :: nat

type_synonym 'w quota_transport =
  "node_id \<Rightarrow> server_id \<Rightarrow> node_id \<Rightarrow> nat \<Rightarrow> 'w \<Rightarrow> (quota_error + quota_lease) \<times> 'w"

text \<open>Milliseconds since the epoch, or \<open>None\<close> for a wall clock before it.\<close>

definition version_floor :: "nat option \<Rightarrow> nat" where
  "version_floor wall = (case wall of None \<Rightarrow> 0 | Some millis \<Rightarrow> min millis (2 ^ 64 - 1))"

definition gc_new :: "node_id \<Rightarrow> coordinator_config \<Rightarrow> instant \<Rightarrow> nat option \<Rightarrow> gossip_coordinator" where
  "gc_new local config now wall =
     \<lparr>gc_inner = coordinator_new local config now, gc_local = local, gc_version = version_floor wall\<rparr>"

definition gc_set_cap :: "server_id \<Rightarrow> server_quota \<Rightarrow> gossip_coordinator \<Rightarrow> gossip_coordinator" where
  "gc_set_cap server quota g = g\<lparr>gc_inner := set_cap server quota (gc_inner g)\<rparr>"

definition gc_outgoing :: "gossip_coordinator \<Rightarrow> versioned_digest \<times> gossip_coordinator" where
  "gc_outgoing g =
     (\<lparr>vd_digest = co_digest (gc_inner g), vd_version = gc_version g\<rparr>,
      g\<lparr>gc_version := (gc_version g + 1) mod 2 ^ 64\<rparr>)"

definition gc_gossip ::
  "versioned_digest \<Rightarrow> instant \<Rightarrow> gossip_coordinator \<Rightarrow> merge_outcome \<times> gossip_coordinator" where
  "gc_gossip incoming now g =
     (let (outcome, c) = co_gossip incoming now (gc_inner g)
      in (outcome, g\<lparr>gc_inner := co_observe now c\<rparr>))"

definition gc_tick :: "instant \<Rightarrow> gossip_coordinator \<Rightarrow> gossip_coordinator" where
  "gc_tick now g = g\<lparr>gc_inner := co_observe now (heartbeat now (gc_inner g))\<rparr>"

definition gc_set_mode :: "node_mode \<Rightarrow> gossip_coordinator \<Rightarrow> gossip_coordinator" where
  "gc_set_mode mode g = g\<lparr>gc_inner := co_set_mode mode (gc_inner g)\<rparr>"

definition gc_report :: "nat \<Rightarrow> (server_id \<times> nat) list \<Rightarrow> gossip_coordinator \<Rightarrow> gossip_coordinator" where
  "gc_report client_conns upstream g = g\<lparr>gc_inner := co_report client_conns upstream (gc_inner g)\<rparr>"

definition gc_report_tenants :: "(tenant_id \<times> nat) list \<Rightarrow> gossip_coordinator \<Rightarrow> gossip_coordinator" where
  "gc_report_tenants usage g = g\<lparr>gc_inner := report_tenants usage (gc_inner g)\<rparr>"

definition gc_track_tenant :: "tenant_id \<Rightarrow> gossip_coordinator \<Rightarrow> gossip_coordinator" where
  "gc_track_tenant tenant g = g\<lparr>gc_inner := track_tenant tenant (gc_inner g)\<rparr>"

definition gc_forget_tenant :: "tenant_id \<Rightarrow> gossip_coordinator \<Rightarrow> gossip_coordinator" where
  "gc_forget_tenant tenant g = g\<lparr>gc_inner := forget_tenant tenant (gc_inner g)\<rparr>"

record tenant_placement =
  tp_on_home_node :: bool
  tp_home_has_headroom :: bool
  tp_home_draining :: bool
  tp_since_membership_change :: duration

definition gc_placement :: "gossip_coordinator \<Rightarrow> tenant_id \<Rightarrow> nat \<Rightarrow> instant \<Rightarrow> tenant_placement" where
  "gc_placement g tenant budget now =
     \<lparr>tp_on_home_node = is_home_for (co_membership (gc_inner g) now) tenant,
      tp_home_has_headroom = co_home_has_headroom (gc_inner g) tenant budget now,
      tp_home_draining = co_home_draining (gc_inner g) tenant now,
      tp_since_membership_change = co_since_membership_change (gc_inner g) now\<rparr>"

definition gc_serve_request ::
  "server_id \<Rightarrow> node_id \<Rightarrow> nat \<Rightarrow> instant \<Rightarrow> gossip_coordinator \<Rightarrow> (quota_error + quota_lease) \<times> gossip_coordinator" where
  "gc_serve_request server holder want now g =
     (let (r, c) = co_request server holder want now (gc_inner g) in (r, g\<lparr>gc_inner := c\<rparr>))"

definition gc_allowance :: "gossip_coordinator \<Rightarrow> server_id \<Rightarrow> instant \<Rightarrow> node_allowance" where
  "gc_allowance g server now = co_allowance (gc_inner g) server now"

definition gc_request_quota ::
  "'w quota_transport option \<Rightarrow> server_id \<Rightarrow> nat \<Rightarrow> instant \<Rightarrow> gossip_coordinator \<Rightarrow> 'w
     \<Rightarrow> (quota_error + quota_lease) \<times> gossip_coordinator \<times> 'w" where
  "gc_request_quota transport server want now g w =
     (case co_request server (gc_local g) want now (gc_inner g) of
        (Inr lease, c) \<Rightarrow> (Inr lease, g\<lparr>gc_inner := co_accept lease c\<rparr>, w)
      | (Inl (Exhausted s), c) \<Rightarrow> (Inl (Exhausted s), g\<lparr>gc_inner := c\<rparr>, w)
      | (Inl NoLeader, c) \<Rightarrow>
          (case (leader (co_membership c now), transport) of
             (Some ldr, Some send) \<Rightarrow>
               if ldr = gc_local g then (Inl NoLeader, g\<lparr>gc_inner := c\<rparr>, w)
               else (case send ldr server (gc_local g) want w of
                  (Inl e, w') \<Rightarrow> (Inl e, g\<lparr>gc_inner := c\<rparr>, w')
                | (Inr lease, w') \<Rightarrow>
                    if l_server lease \<noteq> server then (Inl NoLeader, g\<lparr>gc_inner := c\<rparr>, w')
                    else (Inr lease, g\<lparr>gc_inner := co_accept lease c\<rparr>, w'))
           | _ \<Rightarrow> (Inl NoLeader, g\<lparr>gc_inner := c\<rparr>, w)))"

definition gc_release_quota :: "quota_lease \<Rightarrow> gossip_coordinator \<Rightarrow> gossip_coordinator" where
  "gc_release_quota lease g = g\<lparr>gc_inner := co_release (l_server lease) (gc_inner g)\<rparr>"

subsection \<open>A failed local request changes nothing\<close>

lemma co_request_Inl:
  assumes "hm_wf (nc_ledgers c)" and "co_request s h w now c = (Inl e, c')"
  shows "hm_get (nc_ledgers c') = hm_get (nc_ledgers c)" "nc_local c' = nc_local c"
    "nc_config c' = nc_config c" "nc_liveness c' = nc_liveness c" "nc_held c' = nc_held c"
    "nc_caps c' = nc_caps c"
  using assms
  by (auto simp: co_request_def fun_eq_iff hm_simps dest: grant_Inl split: if_splits option.splits prod.splits)

text \<open>Versions: each outgoing digest takes a fresh one until the counter wraps.\<close>

lemma gc_outgoing_version:
  "gc_version g + 1 < 2 ^ 64 \<Longrightarrow>
   vd_version (fst (gc_outgoing g)) < vd_version (fst (gc_outgoing (snd (gc_outgoing g))))"
  by (simp add: gc_outgoing_def)

end
