(* ===== verification/Text.thy ===== *)
theory Text
  imports Prelude
begin

text \<open>
  The string functions of the Rust standard library the sources use on text: splitting at the
  first or the last separator, and reading and writing unsigned integers in a radix. Text is a
  list of bytes. The round trips at the end are what the identifier formats rest on.
\<close>

subsection \<open>Splitting\<close>

text \<open>\<open>str::split_once\<close> and \<open>str::rsplit_once\<close> with a one-byte separator.\<close>

fun split_once :: "'a \<Rightarrow> 'a list \<Rightarrow> ('a list \<times> 'a list) option" where
  "split_once c [] = None"
| "split_once c (x # xs) =
     (if x = c then Some ([], xs) else map_option (\<lambda>(a, b). (x # a, b)) (split_once c xs))"

definition rsplit_once :: "'a \<Rightarrow> 'a list \<Rightarrow> ('a list \<times> 'a list) option" where
  "rsplit_once c xs = map_option (\<lambda>(a, b). (rev b, rev a)) (split_once c (rev xs))"

subsection \<open>Unsigned integers\<close>

definition digit_val :: "nat \<Rightarrow> char \<Rightarrow> nat option" where
  "digit_val radix c =
     (let b = of_char c :: nat;
          v = if 48 \<le> b \<and> b \<le> 57 then b - 48
              else if 97 \<le> b \<and> b \<le> 122 then b - 87
              else if 65 \<le> b \<and> b \<le> 90 then b - 55 else 36
      in if v < radix then Some v else None)"

text \<open>The loop of \<open>from_str_radix\<close>: a multiply and an add, each of which may overflow.\<close>

fun read_digits :: "nat \<Rightarrow> nat \<Rightarrow> nat \<Rightarrow> string \<Rightarrow> nat option" where
  "read_digits radix lim acc [] = Some acc"
| "read_digits radix lim acc (c # cs) =
     (case digit_val radix c of
        None \<Rightarrow> None
      | Some d \<Rightarrow> if acc * radix + d > lim then None else read_digits radix lim (acc * radix + d) cs)"

text \<open>A leading plus is accepted for an unsigned type; a lone sign and an empty string are not.\<close>

definition from_str_radix :: "nat \<Rightarrow> nat \<Rightarrow> string \<Rightarrow> nat option" where
  "from_str_radix radix lim s =
     (case s of
        [] \<Rightarrow> None
      | [c] \<Rightarrow> if c = CHR ''+'' \<or> c = CHR ''-'' then None else read_digits radix lim 0 s
      | c # cs \<Rightarrow> if c = CHR ''+'' then read_digits radix lim 0 cs else read_digits radix lim 0 s)"

definition digit_char :: "nat \<Rightarrow> char" where
  "digit_char d = char_of (if d < 10 then 48 + d else 55 + d)"

function write_radix :: "nat \<Rightarrow> nat \<Rightarrow> string" where
  "write_radix radix n =
     (if radix < 2 \<or> n < radix then [digit_char n]
      else write_radix radix (n div radix) @ [digit_char (n mod radix)])"

  by pat_completeness auto
termination by (relation "measure snd") (auto simp: not_less)

declare write_radix.simps [simp del]

text \<open>The padding of the format specifier \<open>{:0w}\<close>.\<close>

definition pad_zero :: "nat \<Rightarrow> string \<Rightarrow> string" where
  "pad_zero w s = replicate (w - length s) CHR ''0'' @ s"

subsection \<open>Laws\<close>

lemma split_once_append: "c \<notin> set a \<Longrightarrow> split_once c (a @ c # b) = Some (a, b)"
  by (induction a) auto

lemma split_once_Some: "split_once c xs = Some (a, b) \<longleftrightarrow> xs = a @ c # b \<and> c \<notin> set a"
proof
  show "split_once c xs = Some (a, b) \<Longrightarrow> xs = a @ c # b \<and> c \<notin> set a"
    by (induction xs arbitrary: a) (auto split: if_splits)
qed (simp add: split_once_append)

lemma rsplit_once_append: "c \<notin> set b \<Longrightarrow> rsplit_once c (a @ c # b) = Some (a, b)"
  by (simp add: rsplit_once_def split_once_append)

lemma rsplit_once_Some: "rsplit_once c xs = Some (a, b) \<longleftrightarrow> xs = a @ c # b \<and> c \<notin> set b"
proof
  assume "rsplit_once c xs = Some (a, b)"
  then have "rev xs = rev b @ c # rev a" "c \<notin> set (rev b)"
    by (auto simp: rsplit_once_def split_once_Some)
  then show "xs = a @ c # b \<and> c \<notin> set b"
    using rev_rev_ident [of xs] by simp
qed (simp add: rsplit_once_append)

lemma of_char_digit_char: "d < 16 \<Longrightarrow> of_char (digit_char d) = (if d < 10 then 48 + d else 55 + d)"
  by (auto simp: digit_char_def)

lemma digit_val_char: "d < radix \<Longrightarrow> radix \<le> 16 \<Longrightarrow> digit_val radix (digit_char d) = Some d"
  by (simp add: digit_val_def Let_def of_char_digit_char)

lemma read_digits_append:
  "read_digits radix lim acc (xs @ ys) =
     Option.bind (read_digits radix lim acc xs) (\<lambda>a. read_digits radix lim a ys)"
  by (induction xs arbitrary: acc) (simp_all split: option.split)

lemma read_write_digits:
  assumes "2 \<le> radix" "radix \<le> 16" "n \<le> lim"
  shows "read_digits radix lim 0 (write_radix radix n) = Some n"
  using assms
proof (induction radix n rule: write_radix.induct)
  case (1 radix n)
  show ?case
  proof (cases "n < radix")
    case True
    then show ?thesis using 1(3,4) by (subst write_radix.simps) (simp add: digit_val_char)
  next
    case False
    have "n div radix \<le> lim" by (rule le_trans [OF div_le_dividend 1(4)])
    with 1(2,3) False have IH: "read_digits radix lim 0 (write_radix radix (n div radix)) = Some (n div radix)"
      by (intro 1(1)) simp_all
    have w: "write_radix radix n = write_radix radix (n div radix) @ [digit_char (n mod radix)]"
      using 1(2) False by (subst write_radix.simps) simp
    have d: "digit_val radix (digit_char (n mod radix)) = Some (n mod radix)"
      using 1(2,3) by (intro digit_val_char) auto
    show ?thesis
      unfolding w read_digits_append IH using 1(4) by (simp add: d)
  qed
qed

lemma write_radix_chars:
  assumes "2 \<le> radix" "radix \<le> 16"
  shows "set (write_radix radix n) \<subseteq> digit_char ` {..<16}"
  using assms
proof (induction radix n rule: write_radix.induct)
  case (1 radix n)
  show ?case
  proof (cases "n < radix")
    case True
    then show ?thesis using 1(3) by (subst write_radix.simps) simp
  next
    case False
    moreover have "n mod radix < 16" using 1(2,3) by (intro less_le_trans [OF mod_less_divisor]) auto
    moreover have "set (write_radix radix (n div radix)) \<subseteq> digit_char ` {..<16}"
      using 1(2,3) False by (intro 1(1)) simp_all
    ultimately show ?thesis using 1(2) by (subst write_radix.simps) simp
  qed
qed

lemma write_radix_nonempty [simp]: "write_radix radix n \<noteq> []"
  by (subst write_radix.simps) simp

lemma digit_char_neq:
  "d < 16 \<Longrightarrow> digit_char d \<noteq> CHR ''+''" "d < 16 \<Longrightarrow> digit_char d \<noteq> CHR ''-''"
  "d < 16 \<Longrightarrow> digit_char d \<noteq> CHR '':''" "d < 16 \<Longrightarrow> digit_char d \<noteq> CHR ''/''"
  using of_char_digit_char [of d] by (auto split: if_splits)

lemma write_radix_no_sep:
  assumes "2 \<le> radix" "radix \<le> 16" "c \<in> {CHR ''+'', CHR ''-'', CHR '':'', CHR ''/''}"
  shows "c \<notin> set (write_radix radix n)"
proof
  assume "c \<in> set (write_radix radix n)"
  then obtain d where "d < 16" "c = digit_char d"
    using write_radix_chars [OF assms(1,2), of n] by auto
  then show False using assms(3) digit_char_neq [of d] by auto
qed

lemma read_digits_zeros: "2 \<le> radix \<Longrightarrow> read_digits radix lim 0 (replicate k CHR ''0'' @ s) = read_digits radix lim 0 s"
  by (induction k) (auto simp: digit_val_def)

lemma from_str_radix_unsigned:
  "s \<noteq> [] \<Longrightarrow> CHR ''+'' \<notin> set s \<Longrightarrow> CHR ''-'' \<notin> set s \<Longrightarrow> from_str_radix radix lim s = read_digits radix lim 0 s"
  by (cases s; cases "tl s") (auto simp: from_str_radix_def)

lemma from_str_radix_write:
  assumes "2 \<le> radix" "radix \<le> 16" "n \<le> lim"
  shows "from_str_radix radix lim (pad_zero w (write_radix radix n)) = Some n"
proof -
  have "from_str_radix radix lim (pad_zero w (write_radix radix n)) =
      read_digits radix lim 0 (pad_zero w (write_radix radix n))"
    by (rule from_str_radix_unsigned) (use write_radix_no_sep [OF assms(1,2)] in \<open>auto simp: pad_zero_def\<close>)
  with assms show ?thesis by (simp add: pad_zero_def read_digits_zeros read_write_digits)
qed

lemma pad_zero_0 [simp]: "pad_zero 0 s = s"
  by (simp add: pad_zero_def)

lemma pad_zero_no_sep:
  assumes "2 \<le> radix" "radix \<le> 16" "c \<in> {CHR ''+'', CHR ''-'', CHR '':'', CHR ''/''}"
  shows "c \<notin> set (pad_zero w (write_radix radix n))"
  using write_radix_no_sep [OF assms] assms(3) by (auto simp: pad_zero_def)

end
