(* ===== verification/Ids.thy ===== *)
theory Ids
  imports Text Core_Cluster
begin

text \<open>
  \<^verbatim>\<open>crates/pgprox-core/src/ids.rs\<close>: the identifiers that cross module and process boundaries.
  A server is its \<^verbatim>\<open>host:port\<close> text, a client connection packs its owning node into the top sixteen
  bits of the cancel key, and a log sequence number is one 64-bit value printed as two hexadecimal
  halves. The properties are the round trips.
\<close>

subsection \<open>Servers\<close>

definition server_new :: "string \<Rightarrow> nat \<Rightarrow> server_id" where
  "server_new host port = host @ CHR '':'' # write_radix 10 port"

definition parse_u16 :: "string \<Rightarrow> nat option" where
  "parse_u16 s = from_str_radix 10 65535 s"

definition server_parse :: "string \<Rightarrow> server_id option" where
  "server_parse text =
     (case rsplit_once CHR '':'' text of
        None \<Rightarrow> None
      | Some (host, port) \<Rightarrow>
          if host = [] then None
          else case parse_u16 port of
            None \<Rightarrow> None
          | Some p \<Rightarrow> if p = 0 then None else Some (server_new host p))"

definition server_host :: "server_id \<Rightarrow> string" where
  "server_host s = (case rsplit_once CHR '':'' s of None \<Rightarrow> s | Some (host, _) \<Rightarrow> host)"

definition server_port :: "server_id \<Rightarrow> nat" where
  "server_port s =
     (case rsplit_once CHR '':'' s of
        None \<Rightarrow> 0
      | Some (_, port) \<Rightarrow> (case parse_u16 port of None \<Rightarrow> 0 | Some p \<Rightarrow> p))"

subsection \<open>Client connections\<close>

type_synonym conn_id = "64 word"

definition conn_counter_bits :: nat where
  "conn_counter_bits = 48"

definition conn_counter_mask :: u64 where
  "conn_counter_mask = push_bit conn_counter_bits 1 - 1"

definition conn_new :: "node_id \<Rightarrow> u64 \<Rightarrow> conn_id" where
  "conn_new node secret = push_bit conn_counter_bits (of_nat node) OR (secret AND conn_counter_mask)"

text \<open>The cast to \<open>u16\<close> keeps the low sixteen bits.\<close>

definition conn_node :: "conn_id \<Rightarrow> node_id" where
  "conn_node raw = unat (drop_bit conn_counter_bits raw) mod 65536"

definition conn_secret :: "conn_id \<Rightarrow> u64" where
  "conn_secret raw = raw AND conn_counter_mask"

subsection \<open>Log sequence numbers\<close>

type_synonym lsn = "64 word"

datatype lsn_parse_error = Malformed string | NotHex string

definition lsn_display :: "lsn \<Rightarrow> string" where
  "lsn_display l =
     write_radix 16 (unat (drop_bit 32 l)) @ CHR ''/'' # pad_zero 8 (write_radix 16 (unat (l AND 0xFFFFFFFF)))"

definition lsn_half :: "string \<Rightarrow> lsn_parse_error + u64" where
  "lsn_half half =
     (case from_str_radix 16 (2 ^ 64 - 1) half of
        None \<Rightarrow> Inl (NotHex half)
      | Some n \<Rightarrow> Inr (of_nat n))"

definition lsn_from_str :: "string \<Rightarrow> lsn_parse_error + lsn" where
  "lsn_from_str s =
     (case split_once CHR ''/'' s of
        None \<Rightarrow> Inl (Malformed s)
      | Some (hi, lo) \<Rightarrow>
          if hi = [] \<or> lo = [] \<or> CHR ''/'' \<in> set lo then Inl (Malformed s)
          else case lsn_half hi of
            Inl e \<Rightarrow> Inl e
          | Inr h \<Rightarrow>
              (case lsn_half lo of
                 Inl e \<Rightarrow> Inl e
               | Inr l \<Rightarrow> Inr (push_bit 32 h OR l)))"

subsection \<open>Lemmas\<close>

lemma write_no_colon: "CHR '':'' \<notin> set (write_radix 10 p)"
  by (rule write_radix_no_sep) auto

lemma server_new_split: "rsplit_once CHR '':'' (server_new h p) = Some (h, write_radix 10 p)"
  by (simp add: server_new_def rsplit_once_append write_no_colon)

lemma parse_u16_write: "p \<le> 65535 \<Longrightarrow> parse_u16 (write_radix 10 p) = Some p"
  using from_str_radix_write [of 10 p 65535 0] by (simp add: parse_u16_def)

lemma read_digits_bound: "read_digits r lim acc s = Some n \<Longrightarrow> acc \<le> lim \<Longrightarrow> n \<le> lim"
  by (induction s arbitrary: acc) (auto split: option.splits if_splits)

lemma parse_u16_bound: "parse_u16 s = Some p \<Longrightarrow> p \<le> 65535"
  unfolding parse_u16_def from_str_radix_def
  by (auto split: list.splits if_splits simp del: read_digits.simps dest: read_digits_bound)

lemma conn_mask: "conn_counter_mask = mask 48"
  by (simp add: conn_counter_mask_def conn_counter_bits_def mask_eq_exp_minus_1)

lemma word64_halves: "push_bit 32 (drop_bit 32 l) OR (l AND 0xFFFFFFFF) = (l :: u64)"
proof -
  have m: "(0xFFFFFFFF :: u64) = mask 32" by (simp add: mask_eq_exp_minus_1)
  show ?thesis
    unfolding m by (rule bit_word_eqI) (auto simp: bit_simps)
qed

lemma lsn_half_write:
  "lsn_half (pad_zero w (write_radix 16 (unat (x :: u64)))) = Inr x"
  using from_str_radix_write [of 16 "unat x" "2 ^ 64 - 1" w] unsigned_less [of x, where 'a = nat]
  by (simp add: lsn_half_def)

lemma slash_free: "CHR ''/'' \<notin> set (pad_zero w (write_radix 16 n))"
  by (rule pad_zero_no_sep) auto

subsection \<open>Round trips\<close>

text \<open>
  A server identifier round-trips: for a non-empty host, which may itself contain colons, and
  a port that something can listen on, parsing the text of the identifier gives the identifier
  back, and its host and port are the two it was built from.
\<close>

theorem server_roundtrip:
  assumes "host \<noteq> []" and "0 < port" and "port \<le> 65535"
  shows "server_parse (server_new host port) = Some (server_new host port)
    \<and> server_host (server_new host port) = host \<and> server_port (server_new host port) = port"
  using assms
  by (simp add: server_parse_def server_host_def server_port_def server_new_split parse_u16_write)


theorem server_roundtrip_witness:
  "server_parse ''[::1]:5432'' = Some ''[::1]:5432''
    \<and> server_host ''[::1]:5432'' = ''[::1]'' \<and> server_port ''[::1]:5432'' = 5432"
proof -
  have "server_new ''[::1]'' 5432 = ''[::1]:5432''"
    by (simp add: server_new_def write_radix.simps digit_char_def char_of_def bit_0)
  then show ?thesis using server_roundtrip [of "''[::1]''" 5432] by simp
qed

text \<open>
  A cancel key names its owner: the node and the low 48 bits of the secret are both recovered
  from the packed key, and every key is the packing of its own node and secret.
\<close>

lemma conn_new_parts:
  "conn_node (conn_new (node mod 65536) secret) = node mod 65536 \<and>
   conn_secret (conn_new node secret) = secret AND mask 48 \<and>
   conn_new (conn_node raw) (conn_secret raw) = raw"
proof (intro conjI)
  show "conn_secret (conn_new node secret) = secret AND mask 48"
    unfolding conn_secret_def conn_new_def conn_mask conn_counter_bits_def
    by (rule bit_word_eqI) (auto simp: bit_simps)
  have w: "drop_bit 48 (push_bit 48 (of_nat (node mod 65536)) OR (secret AND mask 48)) =
      (of_nat (node mod 65536) :: u64)" (is "?l = ?r")
  proof (rule bit_word_eqI)
    fix n :: nat
    assume n: "n < LENGTH(64)"
    have t: "of_nat (node mod 65536) = take_bit 16 (of_nat node :: u64)"
      unfolding of_nat_take_bit [symmetric] by (simp add: take_bit_eq_mod)
    show "bit ?l n = bit ?r n" using n unfolding t by (auto simp: bit_simps)
  qed
  have "unat (of_nat (node mod 65536) :: u64) = node mod 65536"
    by (simp add: unat_of_nat)
  then show "conn_node (conn_new (node mod 65536) secret) = node mod 65536"
    unfolding conn_node_def conn_new_def conn_mask conn_counter_bits_def w by simp
  show "conn_new (conn_node raw) (conn_secret raw) = raw"
  proof -
    have lt: "unat (drop_bit 48 raw) < 65536"
      using unsigned_less [of raw, where 'a = nat] unfolding unsigned_drop_bit_eq
      by (simp add: drop_bit_eq_div take_bit_eq_mod less_mult_imp_div_less)
    show ?thesis
      unfolding conn_new_def conn_node_def conn_secret_def conn_mask conn_counter_bits_def
      using lt by (simp, intro bit_word_eqI) (auto simp: bit_simps)
  qed
qed

text \<open>
  A log sequence number round-trips: the two hexadecimal halves it prints as, the low one
  padded to eight digits, read back to the same 64-bit value.
\<close>

theorem lsn_roundtrip: "lsn_from_str (lsn_display l) = Inr l"
proof -
  have "split_once CHR ''/'' (lsn_display l) =
      Some (write_radix 16 (unat (drop_bit 32 l)), pad_zero 8 (write_radix 16 (unat (l AND 0xFFFFFFFF))))"
    using slash_free [of 0] by (simp add: lsn_display_def split_once_append)
  then show ?thesis
    using lsn_half_write [of 0] by (simp add: lsn_from_str_def slash_free lsn_half_write word64_halves)
      (simp add: pad_zero_def)
qed

end
