(* ===== verification/Gossip_Wire.thy ===== *)
theory Gossip_Wire
  imports Service Ids
begin

text \<open>
  \<^verbatim>\<open>bin/pgprox/src/gossip.rs\<close>: what travels between nodes. The messages, the conversions between a
  digest or a client and its wire form, how a node answers one message, and the two halves of a
  quota exchange. The JSON encoding is a library's and is not modelled: a line is the message it
  decodes to, or nothing. Instants and durations count nanoseconds, and a lifetime travels in
  whole milliseconds.
\<close>

subsection \<open>Messages\<close>

datatype client_state = Idle | Busy | Waiting

definition client_state_as_str :: "client_state \<Rightarrow> string" where
  "client_state_as_str s = (case s of Idle \<Rightarrow> ''idle'' | Busy \<Rightarrow> ''active'' | Waiting \<Rightarrow> ''waiting'')"

record client_view =
  cv_conn :: conn_id
  cv_tenant :: tenant_id
  cv_node :: node_id
  cv_state :: client_state
  cv_since :: duration
  cv_pinned :: "string option"

record client_wire =
  cw_node :: node_id
  cw_conn :: u64
  cw_tenant :: string
  cw_state :: string
  cw_since_ms :: nat
  cw_pinned :: "string option"

record digest_wire =
  dw_node :: node_id
  dw_mode :: string
  dw_version :: nat
  dw_client_conns :: nat
  dw_upstream_conns :: "(string \<times> nat) list"
  dw_tenant_usage :: "(string \<times> nat) list"

datatype message =
    Digest digest_wire
  | QuotaRequest string node_id nat
  | QuotaGrant string nat nat
  | ClientsRequest
  | Clients "client_wire list"
  | Cancel node_id u64
  | QuotaRefused string

text \<open>Whole milliseconds of a duration, saturated to \<open>u64\<close>, and back.\<close>

definition as_millis_u64 :: "duration \<Rightarrow> nat" where
  "as_millis_u64 d = min (d div 1000000) (2 ^ 64 - 1)"

subsection \<open>Wire forms\<close>

definition client_to_wire :: "client_view \<Rightarrow> client_wire" where
  "client_to_wire v =
     \<lparr>cw_node = cv_node v, cw_conn = conn_secret (cv_conn v), cw_tenant = cv_tenant v,
      cw_state = client_state_as_str (cv_state v), cw_since_ms = as_millis_u64 (cv_since v),
      cw_pinned = cv_pinned v\<rparr>"

definition client_wire_parse :: "client_wire \<Rightarrow> client_view" where
  "client_wire_parse w =
     \<lparr>cv_conn = conn_new (cw_node w) (cw_conn w), cv_tenant = cw_tenant w, cv_node = cw_node w,
      cv_state = (if cw_state w = ''active'' then Busy
                  else if cw_state w = ''waiting'' then Waiting else Idle),
      cv_since = from_millis (cw_since_ms w), cv_pinned = cw_pinned w\<rparr>"

definition digest_to_wire :: "versioned_digest \<Rightarrow> digest_wire" where
  "digest_to_wire v =
     \<lparr>dw_node = d_node (vd_digest v), dw_mode = mode_as_str (d_mode (vd_digest v)),
      dw_version = vd_version v, dw_client_conns = d_client_conns (vd_digest v),
      dw_upstream_conns = d_upstream_conns (vd_digest v),
      dw_tenant_usage = d_tenant_usage (vd_digest v)\<rparr>"

text \<open>The loop over the upstream connections, which stops at the first address it cannot read.\<close>

fun parse_upstream :: "(string \<times> nat) list \<Rightarrow> (server_id \<times> nat) list option" where
  "parse_upstream [] = Some []"
| "parse_upstream ((server, n) # rest) =
     (case server_parse server of
        None \<Rightarrow> None
      | Some s \<Rightarrow> map_option (Cons (s, n)) (parse_upstream rest))"

definition digest_wire_parse :: "digest_wire \<Rightarrow> versioned_digest option" where
  "digest_wire_parse w =
     (case parse_upstream (dw_upstream_conns w) of
        None \<Rightarrow> None
      | Some upstream \<Rightarrow> Some
          \<lparr>vd_digest =
             \<lparr>d_node = dw_node w,
              d_mode = (if dw_mode w = ''draining'' then Draining else Active),
              d_client_conns = dw_client_conns w, d_upstream_conns = upstream,
              d_tenant_usage = dw_tenant_usage w\<rparr>,
           vd_version = dw_version w\<rparr>)"

subsection \<open>Answering\<close>

definition wire_grant ::
  "gossip_coordinator \<Rightarrow> string \<Rightarrow> node_id \<Rightarrow> nat \<Rightarrow> instant \<Rightarrow> instant \<Rightarrow> message \<times> gossip_coordinator" where
  "wire_grant g server holder want now read =
     (case server_parse server of
        None \<Rightarrow> (QuotaRefused ''exhausted'', g)
      | Some s \<Rightarrow>
          (case gc_serve_request s holder want now g of
             (Inr lease, g') \<Rightarrow> (QuotaGrant (l_server lease) (l_count lease) (as_millis_u64 (l_expires lease - read)), g')
           | (Inl NoLeader, g') \<Rightarrow> (QuotaRefused ''no_leader'', g')
           | (Inl _, g') \<Rightarrow> (QuotaRefused ''exhausted'', g')))"

definition digest_reply :: "gossip_coordinator \<Rightarrow> message \<times> gossip_coordinator" where
  "digest_reply g = (let (v, g') = gc_outgoing g in (Digest (digest_to_wire v), g'))"

text \<open>
  One turn of the loop in \<open>answer\<close>: the decoded line, the clients and the cancels the sink sees,
  the clock when the ledger is asked and when the lifetime is computed.
\<close>

definition answer_message ::
  "client_view list \<Rightarrow> instant \<Rightarrow> instant \<Rightarrow> message option \<Rightarrow> gossip_coordinator
     \<Rightarrow> message \<times> gossip_coordinator \<times> conn_id option" where
  "answer_message clients now read line g =
     (case line of
        Some (QuotaRequest server holder want) \<Rightarrow>
          (let (reply, g') = wire_grant g server holder want now read in (reply, g', None))
      | Some ClientsRequest \<Rightarrow> (Clients (map client_to_wire clients), g, None)
      | Some (Cancel node secret) \<Rightarrow>
          (let (reply, g') = digest_reply g in (reply, g', Some (conn_new node secret)))
      | Some (Digest wire) \<Rightarrow>
          (let g1 = (case digest_wire_parse wire of None \<Rightarrow> g | Some v \<Rightarrow> snd (gc_gossip v now g));
               (reply, g') = digest_reply g1
           in (reply, g', None))
      | _ \<Rightarrow> (let (reply, g') = digest_reply g in (reply, g', None)))"

subsection \<open>Asking\<close>

text \<open>
  \<open>request_over\<close> after the answer has been read: the clock when the request was sent, when the
  answer arrived, and when the lease is made. \<open>None\<close> is an answer that cannot be understood.
\<close>

definition request_over ::
  "server_id \<Rightarrow> instant \<Rightarrow> instant \<Rightarrow> instant \<Rightarrow> message option \<Rightarrow> (quota_error + quota_lease) option" where
  "request_over server sent arrived made line =
     (case line of
        None \<Rightarrow> None
      | Some (QuotaGrant granted n ttl_ms) \<Rightarrow>
          (case server_parse granted of
             None \<Rightarrow> None
           | Some s \<Rightarrow> Some (Inr
               \<lparr>l_server = s, l_count = n,
                l_expires = made + (from_millis ttl_ms - (arrived - sent))\<rparr>))
      | Some (QuotaRefused reason) \<Rightarrow>
          Some (Inl (if reason = ''exhausted'' then Exhausted server else NoLeader))
      | Some _ \<Rightarrow> Some (Inl NoLeader))"

text \<open>\<open>ask\<close>: an answer that does not come in time, or cannot be understood, is no leader.\<close>

definition ask :: "(quota_error + quota_lease) option option \<Rightarrow> quota_error + quota_lease" where
  "ask asked = (case asked of Some (Some r) \<Rightarrow> r | _ \<Rightarrow> Inl NoLeader)"

subsection \<open>Lemmas\<close>

lemma from_as_millis: "from_millis (as_millis_u64 d) \<le> d"
proof -
  have "as_millis_u64 d \<le> d div 1000000" by (simp add: as_millis_u64_def)
  then have "as_millis_u64 d * 1000000 \<le> d div 1000000 * 1000000" by (rule mult_le_mono1)
  then show ?thesis unfolding from_millis_def using div_times_less_eq_dividend le_trans by blast
qed

lemma parse_upstream_id:
  "\<forall>(s, n) \<in> set us. server_parse s = Some s \<Longrightarrow> parse_upstream us = Some us"
  by (induction us) auto

lemma server_parse_idem: "server_parse t = Some s \<Longrightarrow> server_parse s = Some s"
proof -
  assume a: "server_parse t = Some s"
  then obtain h port p where "h \<noteq> []" "parse_u16 port = Some p" "p \<noteq> 0" and s: "s = server_new h p"
    by (auto simp: server_parse_def split: option.splits if_splits prod.splits)
  moreover from \<open>parse_u16 port = Some p\<close> have "p \<le> 65535" by (rule parse_u16_bound)
  ultimately show ?thesis
    unfolding s server_parse_def server_new_split by (simp add: parse_u16_write)
qed

lemma gc_serve_server: "gc_serve_request s h w now g = (Inr lease, g') \<Longrightarrow> l_server lease = s"
  by (auto simp: gc_serve_request_def co_request_def grant_def Let_def split: if_splits option.splits prod.splits)

lemma server_parse_a1 [simp]: "server_parse ''a:1'' = Some ''a:1''"
  by (simp add: server_parse_def rsplit_once_def parse_u16_def from_str_radix_def digit_val_def
      server_new_def write_radix.simps digit_char_def char_of_def bit_0 Let_def)

subsection \<open>Properties\<close>

text \<open>
  A digest survives the wire: what a node sends about itself is what its peer merges, whenever
  every server it reports is an address that parses to itself.
\<close>

theorem digest_wire_roundtrip:
  assumes "\<forall>(s, n) \<in> set (d_upstream_conns (vd_digest v)). server_parse s = Some s"
  shows "digest_wire_parse (digest_to_wire v) = Some v"
  using parse_upstream_id [OF assms]
  by (cases v; cases "vd_digest v"; cases "d_mode (vd_digest v)")
    (simp_all add: digest_wire_parse_def digest_to_wire_def mode_as_str_def)

theorem digest_wire_roundtrip_witness:
  "digest_wire_parse (digest_to_wire
     \<lparr>vd_digest = \<lparr>d_node = 2, d_mode = Draining, d_client_conns = 4, d_upstream_conns = [(''a:1'', 3)], d_tenant_usage = []\<rparr>,
      vd_version = 9\<rparr>) \<noteq> None"
  using digest_wire_roundtrip [of "\<lparr>vd_digest = \<lparr>d_node = 2, d_mode = Draining, d_client_conns = 4,
    d_upstream_conns = [(''a:1'', 3)], d_tenant_usage = []\<rparr>, vd_version = 9\<rparr>"] by simp


text \<open>A one-node fleet whose leader has waited out its takeover.\<close>

definition lone_leader :: gossip_coordinator where
  "lone_leader =
     (let c = coordinator_new 2 (coordinator_config_default\<lparr>fleet_size := 1\<rparr>) 0 in
      \<lparr>gc_inner = c\<lparr>nc_liveness := heard 2 Active (from_secs 8) (nc_liveness c),
         nc_ledgers := [(''a:1'', \<lparr>lg_config = cc_lease coordinator_config_default, lg_pool = 50, lg_grants = [], took_office = Some 0\<rparr>)]\<rparr>,
       gc_local = 2, gc_version = 0\<rparr>)"

lemma lone_leader_serves:
  "\<exists>g'. gc_serve_request ''a:1'' 3 20 (from_secs 8) lone_leader =
     (Inr \<lparr>l_server = ''a:1'', l_count = 20, l_expires = from_secs 13\<rparr>, g')"
  by (simp add: lone_leader_def gc_serve_request_def co_request_def has_quorum_def alive_count_def node_state_of_def
      contact_state_def heard_def coordinator_new_def membership_new_def coordinator_config_default_def
      lease_config_default_def membership_config_default_def from_secs_def grant_def can_grant_def held_by_others_def
      sum_u32_def wrap32_def sat_mul_def try_u32_def u32_max_def Let_def)


end
