(* ===== verification/Quota_Apply.thy ===== *)
theory Quota_Apply
  imports Service
begin

text \<open>
  The pure functions of \<^verbatim>\<open>bin/pgprox/src/run.rs\<close> that carry a node's allowance to its pools once
  a tick: how much more quota to ask for, which pools a server has and what they demand, and
  how the allowance is divided between them. The lemmas show the division hands out exactly
  the allowance and that its remainder follows demand.
\<close>

record pool_key =
  pk_server :: server_id
  pk_database :: string
  pk_user :: string

record pool_stats =
  ps_active :: nat
  ps_idle :: nat
  ps_waiting :: nat
  ps_limit :: nat

definition wants_more_quota :: "nat \<Rightarrow> nat \<Rightarrow> nat \<Rightarrow> nat option" where
  "wants_more_quota held share lease =
     (if held \<ge> share + lease then Some ((held - share) + 1) else None)"

definition pools_for ::
  "(pool_key \<times> pool_stats) list \<Rightarrow> server_id \<Rightarrow> (pool_key \<times> nat) list \<times> nat" where
  "pools_for all server =
     foldl (\<lambda>(keys, held) (key, stats).
        let demand = ps_active stats + ps_idle stats + ps_waiting stats
        in (keys @ [(key, demand)], held + demand))
       ([], 0) (filter (\<lambda>(key, _). pk_server key = server) all)"

fun servers_from :: "server_id list \<Rightarrow> (pool_key \<times> pool_stats) list \<Rightarrow> server_id list" where
  "servers_from servers [] = servers"
| "servers_from servers ((key, _) # all) =
     servers_from (if pk_server key \<in> set servers then servers else servers @ [pk_server key]) all"

definition servers_with_pools :: "(pool_key \<times> pool_stats) list \<Rightarrow> server_id list" where
  "servers_with_pools all = servers_from [] all"

definition was_previously_open :: "(pool_key \<times> pool_stats) list \<Rightarrow> server_id \<Rightarrow> bool" where
  "was_previously_open all server \<longleftrightarrow>
     list_ex (\<lambda>(key, stats). pk_server key = server \<and> ps_limit stats > 0) all"

text \<open>The loop of \<open>shares_across_pools\<close> over the demand order.\<close>

fun hand_out :: "nat list \<Rightarrow> nat \<Rightarrow> nat list \<Rightarrow> nat list" where
  "hand_out [] remainder shares = shares"
| "hand_out (i # order) remainder shares =
     (if remainder = 0 then shares
      else hand_out order (remainder - 1) (shares[i := shares ! i + 1]))"

definition demand_order :: "nat list \<Rightarrow> nat list" where
  "demand_order demand = sort_key (\<lambda>i. (- int (demand ! i), i)) [0..<length demand]"

definition shares_across_pools :: "nat \<Rightarrow> nat \<Rightarrow> nat list \<Rightarrow> nat list" where
  "shares_across_pools share lease demand =
     (let total = sat_add share lease; count = length demand in
      if count > u32_max then replicate (length demand) 0
      else if count = 0 then []
      else hand_out (demand_order demand) (total mod count) (replicate (length demand) (total div count)))"

text \<open>
  The cap a server has: its own entry in the configuration document, or the entry of the primary it
  replicates. The two lookups are arguments.
\<close>

definition declared_quota ::
  "(server_id \<Rightarrow> server_quota option) \<Rightarrow> (server_id \<Rightarrow> server_id option) \<Rightarrow> server_id \<Rightarrow> server_quota option" where
  "declared_quota config primary_of server =
     (case config server of
        Some entry \<Rightarrow> Some entry
      | None \<Rightarrow> Option.bind (primary_of server) config)"

definition hold_at_nothing :: "(pool_key \<times> nat) list \<Rightarrow> (pool_key \<times> nat) list" where
  "hold_at_nothing keys = map (\<lambda>(key, _). (key, 0)) keys"

text \<open>
  One turn of the loop in \<open>apply_quota\<close>: the limits it sets, in the order it sets them, and what the
  request for more quota did to the coordinator and to the world behind the transport.
\<close>

definition apply_quota_server ::
  "'w quota_transport option \<Rightarrow> server_quota option \<Rightarrow> (pool_key \<times> pool_stats) list \<Rightarrow> server_id \<Rightarrow> instant
     \<Rightarrow> gossip_coordinator \<Rightarrow> 'w \<Rightarrow> (pool_key \<times> nat) list \<times> gossip_coordinator \<times> 'w" where
  "apply_quota_server transport quota all server now g w =
     (let (keys, held) = pools_for all server in
      case quota of
        None \<Rightarrow> (hold_at_nothing keys, g, w)
      | Some q \<Rightarrow>
          (let g1 = gc_set_cap server q g;
               al = gc_allowance g1 server now;
               (al', g2, w2) =
                 (case wants_more_quota held (guaranteed al) (leased al) of
                    None \<Rightarrow> (al, g1, w)
                  | Some want \<Rightarrow>
                      (case gc_request_quota transport server want now g1 w of
                         (Inr _, g2, w2) \<Rightarrow> (gc_allowance g2 server now, g2, w2)
                       | (Inl _, g2, w2) \<Rightarrow> (al, g2, w2)))
           in (zip (map fst keys) (shares_across_pools (guaranteed al') (leased al') (map snd keys)), g2, w2)))"

definition apply_quota ::
  "'w quota_transport option \<Rightarrow> (server_id \<Rightarrow> server_quota option) \<Rightarrow> (pool_key \<times> pool_stats) list \<Rightarrow> instant
     \<Rightarrow> gossip_coordinator \<Rightarrow> 'w \<Rightarrow> (pool_key \<times> nat) list \<times> gossip_coordinator \<times> 'w" where
  "apply_quota transport declared all now g w =
     foldl (\<lambda>(limits, g, w) server.
        let (ls, g', w') = apply_quota_server transport (declared server) all server now g w in (limits @ ls, g', w'))
       ([], g, w) (servers_with_pools all)"

definition tenants_to_forget :: "tenant_id list \<Rightarrow> (tenant_id \<times> nat) list \<Rightarrow> tenant_id list" where
  "tenants_to_forget tracked serving =
     filter (\<lambda>tenant. \<not> list_ex (\<lambda>(seen, _). seen = tenant) serving) tracked"

definition tenants_to_report ::
  "(tenant_id \<times> nat) list \<Rightarrow> membership_view \<Rightarrow> (tenant_id \<times> nat) list" where
  "tenants_to_report upstream membership = filter (\<lambda>(tenant, _). is_home_for membership tenant) upstream"

subsection \<open>A request always asks for more than is leased\<close>

lemma wants_more_than_leased: "wants_more_quota held g l = Some want \<Longrightarrow> l < want"
  by (auto simp: wants_more_quota_def split: if_splits)

subsection \<open>Shares\<close>

lemma length_hand_out [simp]: "length (hand_out order r shares) = length shares"
  by (induction order r shares rule: hand_out.induct) auto

lemma hand_out_nth:
  assumes "distinct order" and "i < length shares"
  shows "hand_out order r shares ! i = shares ! i + (if i \<in> set (take r order) then 1 else 0)"
  using assms
proof (induction order r shares rule: hand_out.induct)
  case (2 j order r shares)
  show ?case
  proof (cases r)
    case (Suc k)
    have "hand_out order k (shares[j := shares ! j + 1]) ! i =
        shares[j := shares ! j + 1] ! i + (if i \<in> set (take k order) then 1 else 0)"
      using "2.IH" "2.prems" Suc by simp
    moreover have "i = j \<Longrightarrow> i \<notin> set (take k order)"
      using "2.prems" by (auto dest: in_set_takeD)
    ultimately show ?thesis using "2.prems" Suc by (cases "i = j") auto
  qed simp
qed simp

lemma demand_order_perm [simp]:
  "set (demand_order d) = {0..<length d}" "distinct (demand_order d)" "length (demand_order d) = length d"
  by (simp_all add: demand_order_def)

lemma sum_nth: "sum_list xs = (\<Sum>i = 0..<length xs. xs ! i)"
  by (simp add: sum_list_sum_nth)

lemma sum_indicator:
  fixes ks :: "nat list"
  shows "set ks \<subseteq> {0..<n} \<Longrightarrow> distinct ks \<Longrightarrow> (\<Sum>i = 0..<n. if i \<in> set ks then 1 else 0) = length ks"
proof -
  assume ks: "set ks \<subseteq> {0..<n}" "distinct ks"
  have "(\<Sum>i = 0..<n. if i \<in> set ks then 1 else (0::nat)) = card ({0..<n} \<inter> set ks)"
    by (simp add: sum.If_cases Int_def)
  with ks show ?thesis by (simp add: Int_absorb1 distinct_card)
qed

lemma shares_nth:
  assumes "i < length d" and "length d \<le> u32_max"
  shows "shares_across_pools g l d ! i = sat_add g l div length d
    + (if i \<in> set (take (sat_add g l mod length d) (demand_order d)) then 1 else 0)"
  using assms by (auto simp: shares_across_pools_def Let_def hand_out_nth)

lemma shares_length: "length (shares_across_pools g l d) = length d"
  by (simp add: shares_across_pools_def Let_def)

lemma shares_sum:
  assumes "d \<noteq> []" and "length d \<le> u32_max"
  shows "sum_list (shares_across_pools g l d) = sat_add g l"
proof -
  let ?t = "sat_add g l" and ?n = "length d"
  let ?ks = "take (?t mod ?n) (demand_order d)"
  have "sum_list (shares_across_pools g l d)
      = (\<Sum>i = 0..<?n. ?t div ?n + (if i \<in> set ?ks then 1 else 0))"
    unfolding sum_nth shares_length using assms(2) by (intro sum.cong) (auto simp: shares_nth)
  also have "\<dots> = ?n * (?t div ?n) + (\<Sum>i = 0..<?n. if i \<in> set ?ks then 1 else 0)"
    by (simp add: sum.distrib)
  also have "(\<Sum>i = 0..<?n. if i \<in> set ?ks then 1 else 0) = length ?ks"
    by (rule sum_indicator) (use set_take_subset [of _ "demand_order d"] in \<open>auto simp: distinct_take\<close>)
  also have "length ?ks = ?t mod ?n"
    using assms(1) by (simp add: less_imp_le)
  finally show ?thesis by simp
qed

text \<open>The remainder goes to the pools with the most demand.\<close>

lemma demand_order_sorted:
  assumes "i \<in> set (take r (demand_order d))" and "j < length d" and "j \<notin> set (take r (demand_order d))"
  shows "d ! j \<le> d ! i"
proof -
  let ?f = "\<lambda>i. (- int (d ! i), i)"
  have s: "sorted (map ?f (demand_order d))"
    by (simp add: demand_order_def)
  have "j \<in> set (drop r (demand_order d))"
    using assms(2,3) by (metis UnE append_take_drop_id atLeastLessThan_iff demand_order_perm(1) le0 set_append)
  moreover have "sorted (map ?f (take r (demand_order d)) @ map ?f (drop r (demand_order d)))"
    using s by (simp flip: map_append)
  ultimately have "?f i \<le> ?f j"
    using assms(1) by (auto simp: sorted_append simp del: less_eq_prod_def)
  then show ?thesis by (auto simp: less_eq_prod_def)
qed

subsection \<open>The division\<close>

text \<open>
  The pools of a server share its allowance exactly. For at least one pool, and no more pools than
  a \<open>u32\<close> counts, the shares sum to the allowance, no two of them differ by more than one, and a pool
  that got the extra connection has at least the demand of every pool that did not.
\<close>

theorem shares_exact:
  assumes "d \<noteq> []" and "length d \<le> u32_max"
  shows "sum_list (shares_across_pools g l d) = sat_add g l
    \<and> (\<forall>i<length d. \<forall>j<length d. shares_across_pools g l d ! i \<le> shares_across_pools g l d ! j + 1)
    \<and> (\<forall>i<length d. \<forall>j<length d. shares_across_pools g l d ! j < shares_across_pools g l d ! i \<longrightarrow> d ! j \<le> d ! i)"
proof (intro conjI allI impI)
  show "sum_list (shares_across_pools g l d) = sat_add g l" by (rule shares_sum [OF assms])
next
  fix i j assume "i < length d" "j < length d"
  then show "shares_across_pools g l d ! i \<le> shares_across_pools g l d ! j + 1"
    using assms(2) by (simp add: shares_nth)
next
  fix i j assume ij: "i < length d" "j < length d" "shares_across_pools g l d ! j < shares_across_pools g l d ! i"
  then show "d ! j \<le> d ! i"
    using assms(2) demand_order_sorted [of i "sat_add g l mod length d" d j] by (simp add: shares_nth split: if_splits)
qed

theorem shares_exact_witness:
  "sum_list (shares_across_pools 7 0 [0, 5]) = 7"
  using shares_exact [of "[0, 5]" 7 0] by (simp add: u32_max_def sat_add_def)

subsection \<open>The limits a tick sets\<close>

lemma shares_le: "sum_list (shares_across_pools g l d) \<le> sat_add g l"
proof (cases "d = [] \<or> u32_max < length d")
  case True
  then show ?thesis by (auto simp: shares_across_pools_def Let_def sum_list_replicate)
next
  case False
  then show ?thesis using shares_sum [of d g l] by simp
qed

text \<open>A refused request leaves what the node may open as it was.\<close>

lemma refused_allowance:
  assumes "hm_wf (nc_ledgers (gc_inner g))" and "gc_request_quota tr s want now g w = (Inl e, g', w')"
  shows "gc_allowance g' s now = gc_allowance g s now"
proof -
  obtain r c where c: "co_request s (gc_local g) want now (gc_inner g) = (r, c)" by fastforce
  with assms(2) obtain e' where "r = Inl e'" and g': "gc_inner g' = c"
    by (auto simp: gc_request_quota_def split: sum.splits quota_error.splits option.splits prod.splits if_splits)
  from co_request_Inl [OF assms(1) c [unfolded this(1)]]
  show ?thesis
    by (simp add: gc_allowance_def co_allowance_def co_membership_def split_for_def g' cong: option.case_cong)
qed

text \<open>
  C4. A tick opens no more than the node is allowed. For one server, whatever the leader answered and
  whether or not the request was sent at all, the limits given to the server's pools sum to at most what
  the coordinator allows the node afterwards; and a server nothing declares a cap for gets nothing.
\<close>

theorem limits_within_allowance:
  assumes "hm_wf (nc_ledgers (gc_inner g))" and "apply_quota_server tr quota all server now g w = (limits, g', w')"
  shows "sum_list (map snd limits) \<le> (case quota of None \<Rightarrow> 0 | Some _ \<Rightarrow> allowance_total (gc_allowance g' server now))"
proof -
  obtain keys held where k: "pools_for all server = (keys, held)" by fastforce
  show ?thesis
  proof (cases quota)
    case None
    then show ?thesis
      using assms(2) by (auto simp: apply_quota_server_def k hold_at_nothing_def comp_def case_prod_unfold)
  next
    case (Some q)
    let ?g = "gc_set_cap server q g"
    have wf: "hm_wf (nc_ledgers (gc_inner ?g))" using assms(1) by (simp add: gc_set_cap_def set_cap_def)
    have sh: "sum_list (map snd (zip (map fst keys) (shares_across_pools a b (map snd keys)))) \<le> sat_add a b" for a b
      using shares_le [of a b "map snd keys"] by (simp add: map_snd_zip shares_length)
    have "\<exists>al. limits = zip (map fst keys) (shares_across_pools (guaranteed al) (leased al) (map snd keys))
        \<and> al = gc_allowance g' server now"
      using assms(2) Some
      by (auto simp: apply_quota_server_def k Let_def dest: refused_allowance [OF wf]
          split: option.splits prod.splits sum.splits)
    then show ?thesis using sh Some by (auto simp: allowance_total_def)
  qed
qed

theorem limits_within_allowance_witness:
  "sum_list (map snd (fst (apply_quota_server None (Some \<lparr>sq_cap = 60, sq_guaranteed_fraction = Fin False 1 (-1)\<rparr>)
     [(\<lparr>pk_server = ''a:1'', pk_database = ''d'', pk_user = ''u''\<rparr>, \<lparr>ps_active = 1, ps_idle = 0, ps_waiting = 3, ps_limit = 0\<rparr>)]
     ''a:1'' 0 (gc_new 1 coordinator_config_default 0 None) ()))) \<le> u32_max"
proof -
  define q where "q = \<lparr>sq_cap = 60, sq_guaranteed_fraction = Fin False 1 (-1)\<rparr>"
  define all where "all = [(\<lparr>pk_server = ''a:1'', pk_database = ''d'', pk_user = ''u''\<rparr>, \<lparr>ps_active = 1, ps_idle = 0, ps_waiting = 3, ps_limit = 0\<rparr>)]"
  define g where "g = gc_new 1 coordinator_config_default 0 None"
  obtain limits g' w where r: "apply_quota_server None (Some q) all ''a:1'' 0 g () = (limits, g', w)"
    by (cases "apply_quota_server None (Some q) all ''a:1'' 0 g ()")
  have "hm_wf (nc_ledgers (gc_inner g))" by (simp add: g_def gc_new_def coordinator_new_def)
  from limits_within_allowance [OF this r] have "sum_list (map snd limits) \<le> u32_max"
    by (simp add: allowance_total_def sat_add_def)
  then show ?thesis using r unfolding q_def all_def g_def by simp
qed

end
