(* ===== verification/Fleet.thy ===== *)
theory Fleet
  imports Gossip_Wire Quota_Apply
begin

text \<open>
  The fleet: the coordinators of all nodes against one upstream server, and the actions that move
  them. A node ticks, merges a digest some peer sent it, changes mode, restarts with an empty
  state, releases its lease, or asks for quota the way \<^verbatim>\<open>bin/pgprox/src/run.rs\<close> does once a tick.
  A quota exchange runs over the wire forms of \<^verbatim>\<open>gossip.rs\<close>, and its reply may be lost after the
  leader has recorded the grant. Actions of different nodes interleave in any order, and digests
  may be late, repeated or never arrive.

  The main invariant says every live lease is backed by the ledger of every node in office, unless
  it was granted before that node could know of it. Its one hypothesis on the network is
  \<open>overlap_bounded\<close>: when quota is exchanged, two nodes that both believe they lead do so only
  for less than the suspicion timeout.
\<close>

record fleet_params =
  fp_config :: coordinator_config
  fp_server :: server_id
  fp_quota :: server_quota

record fleet =
  fl_now :: instant
  fl_nodes :: "(node_id, gossip_coordinator) hmap"

datatype fleet_action =
    Advance duration
  | Tick node_id
  | Deliver node_id versioned_digest
  | Switch node_id node_mode
  | Restart node_id "nat option"
  | Exchange node_id nat bool
  | Release node_id

definition fleet_start :: "fleet_params \<Rightarrow> node_id \<Rightarrow> instant \<Rightarrow> nat option \<Rightarrow> gossip_coordinator" where
  "fleet_start p n now wall = gc_set_cap (fp_server p) (fp_quota p) (gc_new n (fp_config p) now wall)"

definition fleet_new :: "fleet_params \<Rightarrow> node_id list \<Rightarrow> instant \<Rightarrow> fleet" where
  "fleet_new p ns now = \<lparr>fl_now = now, fl_nodes = map (\<lambda>n. (n, fleet_start p n now None)) ns\<rparr>"

definition on_node :: "node_id \<Rightarrow> (gossip_coordinator \<Rightarrow> gossip_coordinator) \<Rightarrow> fleet \<Rightarrow> fleet" where
  "on_node n f F =
     (case hm_get (fl_nodes F) n of
        None \<Rightarrow> F
      | Some g \<Rightarrow> F\<lparr>fl_nodes := hm_put n (f g) (fl_nodes F)\<rparr>)"

text \<open>The socket between two nodes, with the reply possibly lost.\<close>

definition fleet_transport :: "bool \<Rightarrow> instant \<Rightarrow> (node_id, gossip_coordinator) hmap quota_transport" where
  "fleet_transport lost now ldr server holder want nodes =
     (case hm_get nodes ldr of
        None \<Rightarrow> (Inl NoLeader, nodes)
      | Some g \<Rightarrow>
          (let (reply, g') = wire_grant g server holder want now now in
           (ask (if lost then None else Some (request_over server now now now (Some reply))),
            hm_put ldr g' nodes)))"

text \<open>The quota part of the tick in \<^verbatim>\<open>run.rs\<close>, for one server and a measured demand.\<close>

definition fleet_exchange :: "fleet_params \<Rightarrow> node_id \<Rightarrow> nat \<Rightarrow> bool \<Rightarrow> fleet \<Rightarrow> fleet" where
  "fleet_exchange p h demand lost F =
     (case hm_get (fl_nodes F) h of
        None \<Rightarrow> F
      | Some g \<Rightarrow>
          (let now = fl_now F; al = gc_allowance g (fp_server p) now in
           case wants_more_quota demand (guaranteed al) (leased al) of
             None \<Rightarrow> F
           | Some want \<Rightarrow>
               (case gc_request_quota (Some (fleet_transport lost now)) (fp_server p) want now g (fl_nodes F) of
                  (_, g', nodes) \<Rightarrow> F\<lparr>fl_nodes := hm_put h g' nodes\<rparr>)))"

definition fleet_release :: "fleet_params \<Rightarrow> gossip_coordinator \<Rightarrow> gossip_coordinator" where
  "fleet_release p g =
     (case hm_get (nc_held (gc_inner g)) (fp_server p) of
        None \<Rightarrow> g
      | Some lease \<Rightarrow> gc_release_quota lease g)"

fun fleet_do :: "fleet_params \<Rightarrow> fleet_action \<Rightarrow> fleet \<Rightarrow> fleet" where
  "fleet_do p (Advance d) F = F\<lparr>fl_now := fl_now F + d\<rparr>"
| "fleet_do p (Tick n) F = on_node n (gc_tick (fl_now F)) F"
| "fleet_do p (Deliver n v) F = on_node n (\<lambda>g. snd (gc_gossip v (fl_now F) g)) F"
| "fleet_do p (Switch n m) F = on_node n (gc_set_mode m) F"
| "fleet_do p (Restart n wall) F = on_node n (\<lambda>_. fleet_start p n (fl_now F) wall) F"
| "fleet_do p (Exchange n demand lost) F = fleet_exchange p n demand lost F"
| "fleet_do p (Release n) F = on_node n (fleet_release p) F"

definition fleet_total :: "fleet_params \<Rightarrow> fleet \<Rightarrow> instant \<Rightarrow> nat" where
  "fleet_total p F t = sum_list (map (\<lambda>e. allowance_total (gc_allowance (snd e) (fp_server p) t)) (fl_nodes F))"

subsection \<open>Office and overlap\<close>

definition g_ledger :: "fleet_params \<Rightarrow> gossip_coordinator \<Rightarrow> lease_ledger option" where
  "g_ledger p g = hm_get (nc_ledgers (gc_inner g)) (fp_server p)"

definition g_lease :: "fleet_params \<Rightarrow> gossip_coordinator \<Rightarrow> quota_lease option" where
  "g_lease p g = hm_get (nc_held (gc_inner g)) (fp_server p)"

definition g_leased :: "fleet_params \<Rightarrow> gossip_coordinator \<Rightarrow> instant \<Rightarrow> nat" where
  "g_leased p g t = (case g_lease p g of None \<Rightarrow> 0 | Some l \<Rightarrow> lease_count l t)"

definition in_office :: "fleet_params \<Rightarrow> gossip_coordinator \<Rightarrow> instant option" where
  "in_office p g = Option.bind (g_ledger p g) took_office"

definition overlap_bounded :: "fleet_params \<Rightarrow> fleet \<Rightarrow> bool" where
  "overlap_bounded p F \<longleftrightarrow>
     list_all (\<lambda>(a, ga). list_all (\<lambda>(b, gb). a = b \<or>
       (case (in_office p ga, in_office p gb) of
          (Some s, Some t) \<Rightarrow> fl_now F < max s t + suspect_after (cc_membership (fp_config p))
        | _ \<Rightarrow> True)) (fl_nodes F)) (fl_nodes F)"

fun is_exchange :: "fleet_action \<Rightarrow> bool" where
  "is_exchange (Exchange _ _ _) = True"
| "is_exchange _ = False"

definition params_ok :: "fleet_params \<Rightarrow> bool" where
  "params_ok p \<longleftrightarrow> server_parse (fp_server p) = Some (fp_server p) \<and> sq_cap (fp_quota p) \<le> u32_max
     \<and> 0 < fleet_size (fp_config p)"

inductive fleet_reach :: "fleet_params \<Rightarrow> fleet \<Rightarrow> bool" for p where
  start: "distinct ns \<Longrightarrow> length ns \<le> fleet_size (fp_config p) \<Longrightarrow> fleet_reach p (fleet_new p ns now)"
| step: "fleet_reach p F \<Longrightarrow> (is_exchange a \<Longrightarrow> overlap_bounded p F) \<Longrightarrow> fleet_reach p (fleet_do p a F)"

text \<open>An executable run, with the hypothesis checked before each exchange.\<close>

fun fleet_run :: "fleet_params \<Rightarrow> fleet_action list \<Rightarrow> fleet \<Rightarrow> fleet option" where
  "fleet_run p [] F = Some F"
| "fleet_run p (a # as) F =
     (if is_exchange a \<and> \<not> overlap_bounded p F then None else fleet_run p as (fleet_do p a F))"

lemma fleet_run_reach: "fleet_run p as F = Some F' \<Longrightarrow> fleet_reach p F \<Longrightarrow> fleet_reach p F'"
  by (induction as arbitrary: F) (auto split: if_splits intro: fleet_reach.step)

lemma overlap_boundedD:
  assumes "overlap_bounded p F" "hm_get (fl_nodes F) a = Some ga" "hm_get (fl_nodes F) b = Some gb" "a \<noteq> b"
    "in_office p ga = Some s" "in_office p gb = Some t"
  shows "fl_now F < max s t + suspect_after (cc_membership (fp_config p))"
  using assms(1,4-6) map_of_SomeD [OF assms(2)] map_of_SomeD [OF assms(3)]
  by (fastforce simp: overlap_bounded_def list_all_iff)

subsection \<open>The invariant\<close>

definition fleet_pool :: "fleet_params \<Rightarrow> nat" where
  "fleet_pool p =
     free_pool (split_quota (sq_cap (fp_quota p)) (fleet_size (fp_config p)) (sq_guaranteed_fraction (fp_quota p)))"

definition lease_ttl :: "fleet_params \<Rightarrow> duration" where
  "lease_ttl p = ttl (cc_lease (fp_config p))"

text \<open>How long after taking office a node may meet a lease it has no record of.\<close>

definition blind :: "fleet_params \<Rightarrow> duration" where
  "blind p = lease_ttl p + suspect_after (cc_membership (fp_config p))"

definition ledger_ok :: "fleet_params \<Rightarrow> instant \<Rightarrow> lease_ledger \<Rightarrow> bool" where
  "ledger_ok p now lg \<longleftrightarrow>
     lg_pool lg = fleet_pool p \<and> lg_config lg = effective_lease (fp_config p) \<and>
     ledger_inv (fleet_pool p) now lg \<and> (\<forall>t. took_office lg = Some t \<longrightarrow> t \<le> now)"

definition node_ok :: "fleet_params \<Rightarrow> instant \<Rightarrow> node_id \<Rightarrow> gossip_coordinator \<Rightarrow> bool" where
  "node_ok p now n g \<longleftrightarrow>
     gc_local g = n \<and> nc_local (gc_inner g) = n \<and> nc_config (gc_inner g) = fp_config p \<and>
     mb_wf (nc_liveness (gc_inner g)) \<and> hm_wf (nc_caps (gc_inner g)) \<and> hm_wf (nc_ledgers (gc_inner g)) \<and>
     hm_get (nc_caps (gc_inner g)) (fp_server p) = Some (fp_quota p) \<and>
     (\<forall>lg. g_ledger p g = Some lg \<longrightarrow> ledger_ok p now lg) \<and>
     (\<forall>l. g_lease p g = Some l \<longrightarrow> l_expires l \<le> now + lease_ttl p \<and> l_server l = fp_server p)"

definition backs :: "fleet_params \<Rightarrow> instant \<Rightarrow> gossip_coordinator \<Rightarrow> node_id \<Rightarrow> quota_lease \<Rightarrow> bool" where
  "backs p now g h l \<longleftrightarrow>
     (\<forall>lg s. g_ledger p g = Some lg \<longrightarrow> took_office lg = Some s \<longrightarrow> s + blind p < l_expires l \<longrightarrow>
       (\<forall>t\<ge>now. lease_count l t \<le> live_share lg t h))"

definition fleet_inv :: "fleet_params \<Rightarrow> fleet \<Rightarrow> bool" where
  "fleet_inv p F \<longleftrightarrow>
     hm_wf (fl_nodes F) \<and> length (fl_nodes F) \<le> fleet_size (fp_config p) \<and>
     (\<forall>n g. hm_get (fl_nodes F) n = Some g \<longrightarrow> node_ok p (fl_now F) n g) \<and>
     (\<forall>a ga h gh l. hm_get (fl_nodes F) a = Some ga \<longrightarrow> hm_get (fl_nodes F) h = Some gh \<longrightarrow>
        g_lease p gh = Some l \<longrightarrow> backs p (fl_now F) ga h l) \<and>
     sum_list (map (\<lambda>e. g_leased p (snd e) (fl_now F)) (fl_nodes F)) \<le> fleet_pool p"

lemma fleet_pool_le: "params_ok p \<Longrightarrow> fleet_pool p \<le> u32_max"
  unfolding fleet_pool_def params_ok_def by (rule le_trans [OF free_pool_le_cap]) simp

lemma ledger_ok_sound: "params_ok p \<Longrightarrow> ledger_ok p now lg \<Longrightarrow> ledger_sound now lg"
  using fleet_pool_le by (auto simp: ledger_ok_def ledger_sound_def)

lemma lease_count_antimono: "t \<le> t' \<Longrightarrow> lease_count l t' \<le> lease_count l t"
  by (auto simp: lease_count_def lease_is_expired_def)

lemma g_leased_antimono: "t \<le> t' \<Longrightarrow> g_leased p g t' \<le> g_leased p g t"
  by (auto simp: g_leased_def lease_count_antimono split: option.splits)

lemma fleet_start_empty: "g_lease p (fleet_start p n now w) = None" "g_ledger p (fleet_start p n now w) = None"
  by (simp_all add: g_lease_def g_ledger_def fleet_start_def gc_set_cap_def set_cap_def gc_new_def coordinator_new_def)

lemma fleet_start_ok: "node_ok p now n (fleet_start p n now' w)"
proof -
  let ?g = "fleet_start p n now' w"
  have "gc_local ?g = n" "nc_local (gc_inner ?g) = n" "nc_config (gc_inner ?g) = fp_config p"
    "mb_wf (nc_liveness (gc_inner ?g))" "nc_ledgers (gc_inner ?g) = []"
    "nc_caps (gc_inner ?g) = hm_put (fp_server p) (fp_quota p) []"
    by (simp_all add: fleet_start_def gc_set_cap_def set_cap_def gc_new_def coordinator_new_def)
  then show ?thesis
    by (simp add: node_ok_def fleet_start_empty hm_simps)
qed

lemma fleet_inv_new:
  assumes "distinct ns" "length ns \<le> fleet_size (fp_config p)"
  shows "fleet_inv p (fleet_new p ns now)"
proof -
  let ?N = "map (\<lambda>n. (n, fleet_start p n now None)) ns"
  have lk: "hm_get ?N n = Some g \<Longrightarrow> g = fleet_start p n now None" for n g
    by (induction ns) (auto split: if_splits)
  have "hm_wf ?N" using assms(1) by (simp add: comp_def)
  moreover have "node_ok p now n g" if "hm_get ?N n = Some g" for n g
    unfolding lk [OF that] by (rule fleet_start_ok)
  moreover have "g_lease p g = None" if "hm_get ?N n = Some g" for n g
    unfolding lk [OF that] by (rule fleet_start_empty)
  moreover have "sum_list (map (\<lambda>e. g_leased p (snd e) now) ?N) \<le> fleet_pool p"
    by (simp add: g_leased_def fleet_start_empty comp_def)
  ultimately show ?thesis
    using assms(2) unfolding fleet_inv_def fleet_new_def
    by (intro conjI allI impI) (simp_all del: map_map)
qed

lemma fleet_inv_advance:
  assumes "fleet_inv p F"
  shows "fleet_inv p (F\<lparr>fl_now := fl_now F + d\<rparr>)"
proof -
  have l: "ledger_ok p now lg \<Longrightarrow> ledger_ok p (now + d) lg" for now lg
    by (auto simp: ledger_ok_def intro: ledger_inv_later trans_le_add1)
  have "node_ok p now n g \<Longrightarrow> node_ok p (now + d) n g" for now n g
    by (auto simp: node_ok_def l intro: trans_le_add1)
  moreover have "backs p now g h l \<Longrightarrow> backs p (now + d) g h l" for now g h l
    by (auto simp: backs_def)
  moreover have "sum_list (map (\<lambda>e. g_leased p (snd e) (fl_now F + d)) (fl_nodes F))
      \<le> sum_list (map (\<lambda>e. g_leased p (snd e) (fl_now F)) (fl_nodes F))"
    by (rule sum_list_map_mono) (simp add: g_leased_antimono)
  ultimately show ?thesis using assms unfolding fleet_inv_def
    by (intro conjI allI impI) (auto intro: le_trans)
qed

subsection \<open>Steps of one node that grant and accept nothing\<close>

definition quiet ::
  "fleet_params \<Rightarrow> instant \<Rightarrow> node_id \<Rightarrow> gossip_coordinator \<Rightarrow> gossip_coordinator \<Rightarrow> bool" where
  "quiet p now n g g' \<longleftrightarrow>
     node_ok p now n g' \<and> (\<forall>l. g_lease p g' = Some l \<longrightarrow> g_lease p g = Some l) \<and>
     (\<forall>lg' s. g_ledger p g' = Some lg' \<longrightarrow> took_office lg' = Some s \<longrightarrow> s \<noteq> now \<longrightarrow>
       (\<exists>lg. g_ledger p g = Some lg \<and> took_office lg = Some s \<and>
          (\<forall>t\<ge>now. \<forall>h. live_share lg t h \<le> live_share lg' t h \<or> h = n \<and> g_lease p g' = None)))"

lemma quiet_backs:
  assumes q: "quiet p now n g g'" and b: "backs p now g h l"
    and l: "l_expires l \<le> now + lease_ttl p" and h: "h = n \<Longrightarrow> g_lease p g' = Some l"
  shows "backs p now g' h l"
  unfolding backs_def
proof (intro allI impI)
  fix lg' s t
  assume lg': "g_ledger p g' = Some lg'" "took_office lg' = Some s" and s: "s + blind p < l_expires l"
    and t: "now \<le> t"
  from s l have "s \<noteq> now" by (auto simp: blind_def)
  with q lg' obtain lg where lg: "g_ledger p g = Some lg" "took_office lg = Some s"
    and sh: "\<And>t h. now \<le> t \<Longrightarrow> live_share lg t h \<le> live_share lg' t h \<or> h = n \<and> g_lease p g' = None"
    unfolding quiet_def by meson
  have "lease_count l t \<le> live_share lg t h" using b lg s t by (auto simp: backs_def)
  moreover have "live_share lg t h \<le> live_share lg' t h" using sh [OF t, of h] h by auto
  ultimately show "lease_count l t \<le> live_share lg' t h" by (rule le_trans)
qed

lemma keys_hm_put: "hm_get m k = Some v \<Longrightarrow> map fst (hm_put k v' m) = map fst m"
  by (induction m) (auto split: if_splits)

lemma length_hm_put: "hm_get m k = Some v \<Longrightarrow> length (hm_put k v' m) = length m"
  by (metis keys_hm_put length_map)

lemma quiet_inv:
  assumes inv: "fleet_inv p F" and g: "hm_get (fl_nodes F) n = Some g" and q: "quiet p (fl_now F) n g g'"
  shows "fleet_inv p (F\<lparr>fl_nodes := hm_put n g' (fl_nodes F)\<rparr>)"
proof -
  let ?N = "fl_nodes F" and ?N' = "hm_put n g' (fl_nodes F)" and ?now = "fl_now F"
  have wf: "hm_wf ?N" and ok: "\<And>k x. hm_get ?N k = Some x \<Longrightarrow> node_ok p ?now k x"
    and bk: "\<And>a x h y l. hm_get ?N a = Some x \<Longrightarrow> hm_get ?N h = Some y \<Longrightarrow> g_lease p y = Some l \<Longrightarrow> backs p ?now x h l"
    and sm: "sum_list (map (\<lambda>e. g_leased p (snd e) ?now) ?N) \<le> fleet_pool p"
    using inv unfolding fleet_inv_def by blast+
  have leases: "g_lease p g' = Some l \<Longrightarrow> g_lease p g = Some l" for l using q by (simp add: quiet_def)
  have ok': "node_ok p ?now k x" if "hm_get ?N' k = Some x" for k x
    using that ok q by (auto simp: hm_simps quiet_def split: if_splits)
  have bk': "backs p ?now x h l"
    if a: "hm_get ?N' a = Some x" and h: "hm_get ?N' h = Some y" and l: "g_lease p y = Some l" for a x h y l
  proof -
    obtain y0 where y0: "hm_get ?N h = Some y0" "g_lease p y0 = Some l"
      using h l g leases by (auto simp: hm_simps split: if_splits)
    have exp: "l_expires l \<le> ?now + lease_ttl p" using ok [OF y0(1)] y0(2) by (simp add: node_ok_def)
    show ?thesis
    proof (cases "a = n")
      case True
      with a have "x = g'" by (simp add: hm_simps)
      then show ?thesis using quiet_backs [OF q bk [OF g y0] exp] h l by (auto simp: hm_simps split: if_splits)
    next
      case False
      then show ?thesis using a bk [OF _ y0] by (simp add: hm_simps)
    qed
  qed
  have "g_leased p g' ?now \<le> g_leased p g ?now"
    using leases by (auto simp: g_leased_def split: option.splits)
  then have "sum_list (map (\<lambda>e. g_leased p (snd e) ?now) ?N') \<le> sum_list (map (\<lambda>e. g_leased p (snd e) ?now) ?N)"
    using hm.sum_put [OF wf, of "\<lambda>e. g_leased p (snd e) ?now" n g'] hm.sum_split_key [OF wf, of "\<lambda>e. g_leased p (snd e) ?now" n] g
    by simp
  with sm ok' bk' inv length_hm_put [OF g, of g'] show ?thesis
    unfolding fleet_inv_def by (intro conjI allI impI) simp_all
qed

text \<open>An observation keeps the ledger of a node that stays in office, and nothing else.\<close>

lemma live_share_reap: "hm_wf (lg_grants lg) \<Longrightarrow> now \<le> t \<Longrightarrow> live_share (ledger_reap now lg) t h = live_share lg t h"
  by (auto simp: live_share_def ledger_reap_def grant_live_def hm_get_retain split: option.splits)

lemma split_for_pool:
  assumes "node_ok p now n g" "params_ok p" "nc_caps c = nc_caps (gc_inner g)" "nc_config c = nc_config (gc_inner g)"
  shows "free_pool (split_for c (fp_server p) v) = fleet_pool p"
proof -
  have "hm_get (nc_caps c) (fp_server p) = Some (fp_quota p)" "nc_config c = fp_config p"
    using assms by (simp_all add: node_ok_def)
  then obtain m where "fleet_size (fp_config p) \<le> m"
    "split_for c (fp_server p) v = split_quota (sq_cap (fp_quota p)) m (sq_guaranteed_fraction (fp_quota p))"
    using split_for_nodes by metis
  then show ?thesis using assms(2) free_pool_indep [of m "fleet_size (fp_config p)"]
    by (simp add: fleet_pool_def params_ok_def)
qed

lemma observe_ledger_ok:
  assumes "free_pool (split_for c s v) = fleet_pool p" "nc_config c = fp_config p"
    and "\<And>lg. e = Some lg \<Longrightarrow> ledger_ok p now lg"
  shows "ledger_ok p now (observe_ledger c v b now s e)"
proof -
  let ?l = "case e of Some l \<Rightarrow> l | None \<Rightarrow> ledger_new (fleet_pool p) (effective_lease (fp_config p))"
  have o: "observe_ledger c v b now s e = ledger_reap now (observe_leadership b now (set_pool (fleet_pool p) ?l))"
    using assms(1,2) by (cases e) (simp_all add: observe_ledger_def Let_def)
  have l: "ledger_ok p now ?l"
    using assms(3) ledger_new_inv [of "fleet_pool p" now] by (cases e) (simp_all add: ledger_ok_def, simp add: ledger_new_def)
  have "lg_pool (observe_ledger c v b now s e) = fleet_pool p"
    "lg_config (observe_ledger c v b now s e) = effective_lease (fp_config p)"
    "\<forall>t. took_office (observe_ledger c v b now s e) = Some t \<longrightarrow> t \<le> now"
    using l unfolding o
    by (auto simp: ledger_ok_def ledger_reap_def observe_leadership_def set_pool_def split: option.splits bool.splits)
  moreover have "ledger_inv (fleet_pool p) now (observe_ledger c v b now s e)"
    unfolding o by (intro ledger_reap_inv observe_leadership_inv set_pool_inv) (use l in \<open>simp add: ledger_ok_def\<close>)
  ultimately show ?thesis by (simp add: ledger_ok_def)
qed

lemma observe_ledger_kept:
  assumes "took_office (observe_ledger c v b now s e) = Some t" "t \<noteq> now"
    and wf: "\<And>lg. e = Some lg \<Longrightarrow> hm_wf (lg_grants lg)"
  obtains lg where "e = Some lg" "took_office lg = Some t"
    "\<And>u h. now \<le> u \<Longrightarrow> live_share (observe_ledger c v b now s e) u h = live_share lg u h"
proof -
  from assms(1,2) obtain lg where lg: "e = Some lg" "took_office lg = Some t" "b"
    by (auto simp: observe_ledger_office split: if_splits option.splits)
  have "live_share (observe_ledger c v b now s e) u h = live_share lg u h" if "now \<le> u" for u h
  proof -
    have "observe_ledger c v b now s e = ledger_reap now (set_pool (free_pool (split_for c s v)) lg)"
      using lg by (simp add: observe_ledger_def Let_def observe_leadership_def set_pool_def)
    then show ?thesis
      using live_share_reap [OF _ that, of "set_pool (free_pool (split_for c s v)) lg"] wf [OF lg(1)]
      by (simp add: set_pool_def live_share_def)
  qed
  with lg that show ?thesis by blast
qed

lemma quiet_observe:
  assumes ok: "node_ok p now n g" and par: "params_ok p"
    and same: "nc_local c = nc_local (gc_inner g)" "nc_config c = nc_config (gc_inner g)"
      "nc_held c = nc_held (gc_inner g)" "nc_caps c = nc_caps (gc_inner g)"
      "nc_ledgers c = nc_ledgers (gc_inner g)" and mb: "mb_wf (nc_liveness c)"
  shows "quiet p now n g (g\<lparr>gc_inner := co_observe now c\<rparr>)"
proof -
  let ?g = "g\<lparr>gc_inner := co_observe now c\<rparr>"
  let ?o = "observe_ledger c (co_membership c now) (co_leading c now) now (fp_server p) (g_ledger p g)"
  have "hm_wf (nc_caps c)" "hm_get (nc_caps c) (fp_server p) = Some (fp_quota p)"
    using ok same by (simp_all add: node_ok_def)
  then have lg': "g_ledger p ?g = Some ?o"
    using co_observe_ledger [of c "fp_server p" "fp_quota p" now] same(5) by (simp add: g_ledger_def)
  have lease: "g_lease p ?g = g_lease p g" by (simp add: g_lease_def same)
  have okl: "ledger_ok p now lg" if "g_ledger p g = Some lg" for lg using ok that by (simp add: node_ok_def)
  have "ledger_ok p now ?o"
    by (rule observe_ledger_ok) (use split_for_pool [OF ok par same(4,2)] ok same okl in \<open>auto simp: node_ok_def\<close>)
  moreover have "hm_wf (nc_ledgers (co_observe now c))"
    using co_observe_ledgers_wf [of c now] ok same by (simp add: node_ok_def)
  ultimately have "node_ok p now n ?g"
    using ok lg' lease mb by (simp add: node_ok_def same)
  moreover have "\<exists>lg. g_ledger p g = Some lg \<and> took_office lg = Some s \<and>
      (\<forall>t\<ge>now. \<forall>h. live_share lg t h \<le> live_share ?o t h \<or> h = n \<and> g_lease p ?g = None)"
    if "took_office ?o = Some s" "s \<noteq> now" for s
  proof -
    have "hm_wf (lg_grants lg)" if "g_ledger p g = Some lg" for lg
      using okl [OF that] by (simp add: ledger_ok_def ledger_inv_def)
    from observe_ledger_kept [OF that this] obtain lg where
      "g_ledger p g = Some lg" "took_office lg = Some s" "\<And>u h. now \<le> u \<Longrightarrow> live_share ?o u h = live_share lg u h"
      by blast
    then show ?thesis by auto
  qed
  ultimately show ?thesis by (simp add: quiet_def lg' lease)
qed

lemma quiet_tick: "node_ok p now n g \<Longrightarrow> params_ok p \<Longrightarrow> quiet p now n g (gc_tick now g)"
  unfolding gc_tick_def by (rule quiet_observe) (simp_all add: node_ok_def)

lemma quiet_gossip: "node_ok p now n g \<Longrightarrow> params_ok p \<Longrightarrow> quiet p now n g (snd (gc_gossip v now g))"
proof -
  assume ok: "node_ok p now n g" and par: "params_ok p"
  have g: "snd (gc_gossip v now g) = g\<lparr>gc_inner := co_observe now (snd (co_gossip v now (gc_inner g)))\<rparr>"
    by (simp add: gc_gossip_def split: prod.splits)
  have "mb_wf (nc_liveness (snd (co_gossip v now (gc_inner g))))"
    using ok by (auto simp: node_ok_def co_gossip_def Let_def split: prod.splits merge_outcome.splits)
  then show ?thesis unfolding g by (intro quiet_observe ok par) simp_all
qed

lemma quiet_same:
  assumes "node_ok p now n g" "node_ok p now n g'" "g_ledger p g' = g_ledger p g" "g_lease p g' = g_lease p g"
  shows "quiet p now n g g'"
  using assms by (auto simp: quiet_def)

lemma quiet_set_mode: "node_ok p now n g \<Longrightarrow> quiet p now n g (gc_set_mode m g)"
  by (rule quiet_same) (simp_all add: node_ok_def g_ledger_def g_lease_def gc_set_mode_def co_set_mode_def)

lemma quiet_restart: "quiet p now n g (fleet_start p n now w)"
  using fleet_start_ok [of p now n now w] by (simp add: quiet_def fleet_start_empty)

lemma live_share_release: "live_share (ledger_release n lg) t h = (if h = n then 0 else live_share lg t h)"
  by (simp add: live_share_def ledger_release_def hm_simps)

lemma quiet_release:
  assumes ok: "node_ok p now n g"
  shows "quiet p now n g (fleet_release p g)"
proof (cases "g_lease p g")
  case None
  then show ?thesis using ok by (simp add: fleet_release_def quiet_same flip: g_lease_def)
next
  case (Some l)
  let ?g = "gc_release_quota l g"
  have s: "l_server l = fp_server p" using ok Some by (simp add: node_ok_def)
  have lease: "g_lease p ?g = None"
    by (simp add: s g_lease_def gc_release_quota_def co_release_def Let_def hm_simps split: option.splits)
  have lg: "g_ledger p ?g = map_option (ledger_release n) (g_ledger p g)"
    using ok by (auto simp: s g_ledger_def gc_release_quota_def co_release_def Let_def hm_simps node_ok_def split: option.splits)
  have "ledger_ok p now (ledger_release n lg)" if "ledger_ok p now lg" for lg
    using that ledger_release_inv by (simp add: ledger_ok_def) (simp add: ledger_release_def)
  then have "node_ok p now n ?g"
    using ok lease lg
    by (auto simp: node_ok_def gc_release_quota_def co_release_def Let_def split: option.splits)
  moreover have "took_office (ledger_release n lg) = took_office lg" for lg by (simp add: ledger_release_def)
  ultimately have "quiet p now n g ?g"
    by (auto simp: quiet_def lease lg live_share_release)
  then show ?thesis using Some by (simp add: fleet_release_def flip: g_lease_def)
qed

lemma on_node_inv:
  assumes "fleet_inv p F" "\<And>g. node_ok p (fl_now F) n g \<Longrightarrow> quiet p (fl_now F) n g (f g)"
  shows "fleet_inv p (on_node n f F)"
proof (cases "hm_get (fl_nodes F) n")
  case (Some g)
  then have "node_ok p (fl_now F) n g" using assms(1) by (simp add: fleet_inv_def)
  then show ?thesis using quiet_inv [OF assms(1) Some assms(2)] by (simp add: on_node_def Some)
qed (simp add: on_node_def assms(1))

subsection \<open>A grant\<close>

text \<open>
  Node \<open>a\<close>, in office since \<open>s\<close>, gives node \<open>h\<close> a lease; \<open>h\<close> takes it up, or never learns
  of it and keeps the lease it had.
\<close>

definition issued ::
  "fleet_params \<Rightarrow> instant \<Rightarrow> node_id \<Rightarrow> lease_ledger \<Rightarrow> instant \<Rightarrow> node_id \<Rightarrow> nat \<Rightarrow> nat \<Rightarrow> instant \<Rightarrow> lease_ledger \<Rightarrow> bool" where
  "issued p now a lg s h want n e lg' \<longleftrightarrow>
     ledger_ok p now lg \<and> took_office lg = Some s \<and> s + blind p \<le> now \<and>
     ledger_issue h want now lg = (Some (n, e), lg')"

lemma issued_facts:
  assumes "issued p now a lg s h want n e lg'" "params_ok p"
  shows "ledger_ok p now lg'" "took_office lg' = Some s" "e = now + lease_ttl p" "ledger_sound now lg"
    "ledger_issue h want now lg = (Some (n, e), lg')" "s + blind p \<le> now" "ttl (lg_config lg) = lease_ttl p"
proof -
  show i: "ledger_issue h want now lg = (Some (n, e), lg')" and "s + blind p \<le> now" and s: "ledger_sound now lg"
    using assms ledger_ok_sound by (auto simp: issued_def)
  show t: "ttl (lg_config lg) = lease_ttl p"
    using assms(1) by (simp add: issued_def ledger_ok_def effective_lease_def lease_ttl_def)
  note I = ledger_issueD [OF s i]
  show "e = now + lease_ttl p" using I(2) t by simp
  show "took_office lg' = Some s" using assms(1) I(4) by (simp add: issued_def)
  show "ledger_ok p now lg'" using assms(1) I(4,5) by (simp add: issued_def ledger_ok_def)
qed

lemma issued_backs_old:
  assumes i: "issued p now a lg s h want n e lg'" "params_ok p"
    and b: "s + blind p < l_expires l \<Longrightarrow> \<forall>t\<ge>now. lease_count l t \<le> live_share lg t k"
    and l: "l_expires l \<le> now + lease_ttl p" and ask: "k = h \<Longrightarrow> lease_count l now < want" and t: "now \<le> t"
  shows "lease_count l t \<le> live_share lg' t k"
proof (cases "now < l_expires l")
  case True
  note I = issued_facts [OF i]
  have b': "\<forall>t\<ge>now. lease_count l t \<le> live_share lg t k" using True I(6) b by simp
  show ?thesis
  proof (cases "k = h")
    case True
    then show ?thesis
      using ledger.unseen_issue_backs [where l = l, OF I(4,5)] ask b' l t I(7) by simp
  next
    case False
    then show ?thesis using ledger.issue_other [OF I(4,5)] b' t by simp
  qed
next
  case False
  then show ?thesis using t by (simp add: lease_count_def lease_is_expired_def)
qed

lemma issued_backs_new:
  assumes i: "issued p now a lg s h want n e lg'" "params_ok p"
    and l: "l_count l = n" "l_expires l \<le> e" and t: "now \<le> t"
  shows "lease_count l t \<le> live_share lg' t h"
  using ledger.issue_own [OF issued_facts(4,5) [OF i] t] l
  by (auto simp: lease_count_def lease_is_expired_def)

lemma backs_cong: "g_ledger p g' = g_ledger p g \<Longrightarrow> backs p now g' h l = backs p now g h l"
  by (simp add: backs_def)

text \<open>A second node in office took it too recently for the new lease to reach past its wait.\<close>

lemma issued_other_office:
  assumes ov: "overlap_bounded p F" and par: "params_ok p" and i: "issued p (fl_now F) a lg s h want n e lg'"
    and a: "hm_get (fl_nodes F) a = Some ga" "g_ledger p ga = Some lg"
    and b: "hm_get (fl_nodes F) b = Some gb" "b \<noteq> a" and l: "l_expires l \<le> e"
  shows "backs p (fl_now F) gb h l"
  unfolding backs_def
proof (intro allI impI)
  fix lb t u
  assume lb: "g_ledger p gb = Some lb" "took_office lb = Some t" and t: "t + blind p < l_expires l"
  have "in_office p ga = Some s" "in_office p gb = Some t"
    using a(2) lb i by (simp_all add: in_office_def issued_def)
  from overlap_boundedD [OF ov a(1) b(1) _ this] b(2)
  have "fl_now F < max s t + suspect_after (cc_membership (fp_config p))" by simp
  then have False
    using issued_facts(3,6) [OF i par] t l by (simp add: blind_def max_def split: if_splits)
  then show "lease_count l u \<le> live_share lb u h" ..
qed

lemma sum_over_nodes:
  assumes "hm_wf m"
  shows "sum_list (map (\<lambda>e. f (snd e)) m) =
    sum_list (map (\<lambda>k. case hm_get m k of None \<Rightarrow> 0 | Some v \<Rightarrow> f v) (map fst m))"
  unfolding map_map
proof (intro arg_cong [where f = sum_list] map_cong refl)
  fix e assume "e \<in> set m"
  then have "hm_get m (fst e) = Some (snd e)" using hm.get_entries [OF assms, of "fst e" "snd e"] by simp
  then show "f (snd e) = ((\<lambda>k. case hm_get m k of None \<Rightarrow> 0 | Some v \<Rightarrow> f v) \<circ> fst) e" by simp
qed

lemma granted_inv:
  assumes inv: "fleet_inv p F" and ov: "overlap_bounded p F" and par: "params_ok p"
    and i: "issued p (fl_now F) a lg s h want n e lg'"
    and a: "hm_get (fl_nodes F) a = Some ga" "g_ledger p ga = Some lg"
    and h: "hm_get (fl_nodes F) h = Some gh" "g_leased p gh (fl_now F) < want"
    and N': "fl_now F' = fl_now F" "map fst (fl_nodes F') = map fst (fl_nodes F)"
    and pt: "\<And>k g'. hm_get (fl_nodes F') k = Some g' \<Longrightarrow> \<exists>g. hm_get (fl_nodes F) k = Some g \<and>
      node_ok p (fl_now F) k g' \<and> g_ledger p g' = (if k = a then Some lg' else g_ledger p g) \<and>
      (g_lease p g' = g_lease p g \<or> k = h \<and> (\<exists>l. g_lease p g' = Some l \<and> l_count l = n \<and> l_expires l \<le> e))"
  shows "fleet_inv p F'"
proof -
  let ?now = "fl_now F"
  have ok: "\<And>k x. hm_get (fl_nodes F) k = Some x \<Longrightarrow> node_ok p ?now k x"
    and bk: "\<And>a x h y l. hm_get (fl_nodes F) a = Some x \<Longrightarrow> hm_get (fl_nodes F) h = Some y \<Longrightarrow>
       g_lease p y = Some l \<Longrightarrow> backs p ?now x h l"
    and wf: "hm_wf (fl_nodes F)" and len: "length (fl_nodes F) \<le> fleet_size (fp_config p)"
    using inv unfolding fleet_inv_def by blast+
  note I = issued_facts [OF i par]
  have shared: "\<forall>t\<ge>?now. lease_count l t \<le> live_share lg' t k"
    if k: "hm_get (fl_nodes F') k = Some g'" "g_lease p g' = Some l" for k g' l
  proof -
    obtain g where g: "hm_get (fl_nodes F) k = Some g"
      "g_lease p g' = g_lease p g \<or> k = h \<and> (\<exists>l. g_lease p g' = Some l \<and> l_count l = n \<and> l_expires l \<le> e)"
      using pt [OF k(1)] by blast
    show ?thesis
    proof (cases "g_lease p g' = g_lease p g")
      case True
      have "backs p ?now ga k l" "l_expires l \<le> ?now + lease_ttl p" "k = h \<Longrightarrow> lease_count l ?now < want"
        using bk [OF a(1) g(1)] ok [OF g(1)] k(2) True h g(1) by (auto simp: node_ok_def g_leased_def)
      then show ?thesis
        using issued_backs_old [OF i par, of l k] a(2) I(2) i by (auto simp: backs_def issued_def)
    next
      case False
      then show ?thesis using g k(2) issued_backs_new [OF i par, of l] by auto
    qed
  qed
  have "backs p ?now x k l"
    if b: "hm_get (fl_nodes F') b = Some x" and k: "hm_get (fl_nodes F') k = Some y" "g_lease p y = Some l" for b x k y l
  proof (cases "b = a")
    case True
    then show ?thesis using shared [OF k] pt [OF b] by (auto simp: backs_def)
  next
    case False
    then obtain x0 where x0: "hm_get (fl_nodes F) b = Some x0" "g_ledger p x = g_ledger p x0"
      using pt [OF b] by auto
    from pt [OF k(1)] show ?thesis
      using bk [OF x0(1)] issued_other_office [OF ov par i a x0(1) False] k(2)
      unfolding backs_cong [OF x0(2)] by auto
  qed
  moreover have "sum_list (map (\<lambda>e. g_leased p (snd e) ?now) (fl_nodes F')) \<le> fleet_pool p"
  proof -
    have wf': "hm_wf (fl_nodes F')" using wf N'(2) by simp
    have "sum_list (map (\<lambda>k. case hm_get (fl_nodes F') k of None \<Rightarrow> 0 | Some g \<Rightarrow> g_leased p g ?now)
        (map fst (fl_nodes F'))) \<le> lg_pool lg'"
      by (rule ledger.backed_sum [OF ledger_ok_sound [OF par I(1)]])
        (use wf' shared in \<open>auto simp: g_leased_def split: option.splits\<close>)
    then show ?thesis
      using I(1) by (simp only: sum_over_nodes [OF wf', of "\<lambda>g. g_leased p g ?now"] ledger_ok_def)
  qed
  moreover have "node_ok p ?now k x" if "hm_get (fl_nodes F') k = Some x" for k x using pt [OF that] by blast
  moreover have "length (fl_nodes F') = length (fl_nodes F)" using N'(2) by (metis length_map)
  ultimately show ?thesis
    using wf len N' unfolding fleet_inv_def by (intro conjI allI impI) simp_all
qed

subsection \<open>An exchange\<close>

lemma grant_issued:
  assumes ok: "ledger_ok p now lg" and par: "params_ok p" and g: "grant srv h want now lg = (Inr l, lg')"
  obtains s where "issued p now a lg s h want (l_count l) (l_expires l) lg'"
proof -
  have snd: "ledger_sound now lg" by (rule ledger_ok_sound [OF par ok])
  note G = grant_Inr [OF g ledger_soundD(1,3) [OF snd]]
  have "ledger_issue h want now lg = (Some (l_count l, l_expires l), lg')"
    using g by (auto simp: ledger_issue_def grant_def Let_def split: if_splits)
  moreover obtain s where "took_office lg = Some s" "s + takeover_wait (lg_config lg) \<le> now"
    using G(5) by (auto simp: can_grant_def split: option.splits)
  moreover have "blind p \<le> takeover_wait (lg_config lg)"
    using ok by (simp add: ledger_ok_def effective_lease_def blind_def lease_ttl_def)
  ultimately show ?thesis using that [of s] ok by (simp add: issued_def)
qed

definition served ::
  "fleet_params \<Rightarrow> instant \<Rightarrow> node_id \<Rightarrow> node_id \<Rightarrow> nat \<Rightarrow> gossip_coordinator \<Rightarrow> quota_lease \<Rightarrow> gossip_coordinator \<Rightarrow> bool" where
  "served p now a h want g l g' \<longleftrightarrow> l_server l = fp_server p \<and>
     (\<exists>lg s lg'. issued p now a lg s h want (l_count l) (l_expires l) lg' \<and> g_ledger p g = Some lg \<and>
        node_ok p now a g' \<and> g_ledger p g' = Some lg' \<and> g_lease p g' = g_lease p g)"

lemma serve_Inr:
  assumes ok: "node_ok p now a g" and par: "params_ok p"
    and r: "gc_serve_request (fp_server p) h want now g = (Inr l, g')"
  shows "served p now a h want g l g'"
proof -
  obtain lg lg' where lg: "g_ledger p g = Some lg" and gr: "grant (fp_server p) h want now lg = (Inr l, lg')"
    and g': "g' = g\<lparr>gc_inner := (gc_inner g)\<lparr>nc_ledgers := hm_put (fp_server p) lg' (nc_ledgers (gc_inner g))\<rparr>\<rparr>"
    using r by (auto simp: gc_serve_request_def co_request_def g_ledger_def split: if_splits option.splits prod.splits)
  have okl: "ledger_ok p now lg" using ok lg by (simp add: node_ok_def)
  then obtain s where i: "issued p now a lg s h want (l_count l) (l_expires l) lg'"
    using grant_issued [OF _ par gr] by blast
  have "node_ok p now a g'"
    using ok issued_facts(1) [OF i par] by (simp add: node_ok_def g' g_ledger_def g_lease_def hm_simps)
  moreover have "g_ledger p g' = Some lg'" "g_lease p g' = g_lease p g"
    by (simp_all add: g' g_ledger_def g_lease_def hm_simps)
  ultimately show ?thesis using i lg gc_serve_server [OF r] unfolding served_def by blast
qed

lemma serve_Inl_same:
  assumes "node_ok p now a g" "gc_serve_request srv h want now g = (Inl e, g')"
  shows "g_ledger p g' = g_ledger p g" "g_lease p g' = g_lease p g"
  using assms co_request_Inl [of "gc_inner g" srv h want now e]
  by (auto simp: g_ledger_def g_lease_def node_ok_def gc_serve_request_def split: prod.splits)

lemma serve_Inl:
  assumes ok: "node_ok p now a g" and r: "gc_serve_request srv h want now g = (Inl e, g')"
  shows "quiet p now a g g'"
proof -
  obtain c where c: "co_request srv h want now (gc_inner g) = (Inl e, c)" "g' = g\<lparr>gc_inner := c\<rparr>"
    using r by (auto simp: gc_serve_request_def split: prod.splits)
  have "hm_wf (nc_ledgers c)"
    using c(1) ok by (auto simp: co_request_def node_ok_def split: if_splits option.splits prod.splits)
  moreover note serve_Inl_same [OF assms]
  ultimately show ?thesis
    using co_request_Inl [OF _ c(1)] ok by (intro quiet_same) (auto simp: node_ok_def c(2))
qed

lemma accept_ok:
  assumes "node_ok p now n g" "l_server l = fp_server p" "l_expires l \<le> now + lease_ttl p"
  shows "node_ok p now n (g\<lparr>gc_inner := co_accept l (gc_inner g)\<rparr>)"
    "g_ledger p (g\<lparr>gc_inner := co_accept l (gc_inner g)\<rparr>) = g_ledger p g"
    "g_lease p (g\<lparr>gc_inner := co_accept l (gc_inner g)\<rparr>) = Some l"
  using assms by (simp_all add: node_ok_def g_ledger_def g_lease_def co_accept_def hm_simps)

lemma fleet_node_ok: "fleet_inv p F \<Longrightarrow> hm_get (fl_nodes F) n = Some g \<Longrightarrow> node_ok p (fl_now F) n g"
  by (simp add: fleet_inv_def)

lemma served_local:
  assumes inv: "fleet_inv p F" and ov: "overlap_bounded p F" and par: "params_ok p"
    and h: "hm_get (fl_nodes F) h = Some g" "g_leased p g (fl_now F) < want"
    and sv: "served p (fl_now F) h h want g l g'"
  shows "fleet_inv p (F\<lparr>fl_nodes := hm_put h (g'\<lparr>gc_inner := co_accept l (gc_inner g')\<rparr>) (fl_nodes F)\<rparr>)"
proof -
  obtain lg s lg' where i: "issued p (fl_now F) h lg s h want (l_count l) (l_expires l) lg'"
    and lg: "g_ledger p g = Some lg" and g': "node_ok p (fl_now F) h g'" "g_ledger p g' = Some lg'"
    and srv: "l_server l = fp_server p"
    using sv unfolding served_def by blast
  have "l_expires l \<le> fl_now F + lease_ttl p" using issued_facts(3) [OF i par] by simp
  note acc = accept_ok [OF g'(1) srv this]
  show ?thesis
  proof (rule granted_inv [OF inv ov par i h(1) lg h])
    fix k x
    assume "hm_get (fl_nodes (F\<lparr>fl_nodes := hm_put h (g'\<lparr>gc_inner := co_accept l (gc_inner g')\<rparr>) (fl_nodes F)\<rparr>)) k = Some x"
    then show "\<exists>g. hm_get (fl_nodes F) k = Some g \<and> node_ok p (fl_now F) k x \<and>
        g_ledger p x = (if k = h then Some lg' else g_ledger p g) \<and>
        (g_lease p x = g_lease p g \<or> k = h \<and> (\<exists>l'. g_lease p x = Some l' \<and> l_count l' = l_count l \<and> l_expires l' \<le> l_expires l))"
      using acc g'(2) h(1) fleet_node_ok [OF inv] by (cases "k = h") (auto simp: hm_simps)
  qed (simp_all add: keys_hm_put [OF h(1)])
qed

lemma served_remote:
  assumes inv: "fleet_inv p F" and ov: "overlap_bounded p F" and par: "params_ok p"
    and h: "hm_get (fl_nodes F) h = Some g" "g_leased p g (fl_now F) < want"
    and a: "hm_get (fl_nodes F) a = Some ga" "a \<noteq> h" and sv: "served p (fl_now F) a h want ga l ga'"
    and g': "node_ok p (fl_now F) h g'" "g_ledger p g' = g_ledger p g"
      "g_lease p g' = g_lease p g \<or> (\<exists>l'. g_lease p g' = Some l' \<and> l_count l' = l_count l \<and> l_expires l' \<le> l_expires l)"
  shows "fleet_inv p (F\<lparr>fl_nodes := hm_put h g' (hm_put a ga' (fl_nodes F))\<rparr>)"
proof -
  let ?F = "F\<lparr>fl_nodes := hm_put h g' (hm_put a ga' (fl_nodes F))\<rparr>"
  obtain lg s lg' where i: "issued p (fl_now F) a lg s h want (l_count l) (l_expires l) lg'"
    and lg: "g_ledger p ga = Some lg"
    and ga': "node_ok p (fl_now F) a ga'" "g_ledger p ga' = Some lg'" "g_lease p ga' = g_lease p ga"
    using sv unfolding served_def by blast
  have keys: "map fst (fl_nodes ?F) = map fst (fl_nodes F)"
    using keys_hm_put [OF a(1), of ga'] keys_hm_put [of "hm_put a ga' (fl_nodes F)" h g g'] h(1) a(2)
    by (simp add: hm_simps)
  show ?thesis
  proof (rule granted_inv [OF inv ov par i a(1) lg h _ keys])
    fix k x
    assume k: "hm_get (fl_nodes ?F) k = Some x"
    consider "k = h" "x = g'" | "k = a" "x = ga'" | "k \<noteq> h" "k \<noteq> a" "hm_get (fl_nodes F) k = Some x"
      using k a(2) by (auto simp: hm_simps split: if_splits)
    then show "\<exists>g. hm_get (fl_nodes F) k = Some g \<and> node_ok p (fl_now F) k x \<and>
        g_ledger p x = (if k = a then Some lg' else g_ledger p g) \<and>
        (g_lease p x = g_lease p g \<or> k = h \<and> (\<exists>l'. g_lease p x = Some l' \<and> l_count l' = l_count l \<and> l_expires l' \<le> l_expires l))"
      using g' ga' h(1) a fleet_node_ok [OF inv] by cases auto
  qed simp
qed

lemma quiet_two_inv:
  assumes inv: "fleet_inv p F" and h: "hm_get (fl_nodes F) h = Some g" "quiet p (fl_now F) h g g'"
    and a: "hm_get (fl_nodes F) a = Some ga" "quiet p (fl_now F) a ga ga'" "a \<noteq> h"
  shows "fleet_inv p (F\<lparr>fl_nodes := hm_put h g' (hm_put a ga' (fl_nodes F))\<rparr>)"
  using quiet_inv [OF quiet_inv [OF inv a(1,2)], of h g g'] h a(3) by (simp add: hm_simps)

lemma transport_Some:
  assumes par: "params_ok p" and a: "hm_get N a = Some ga"
    and r: "fleet_transport lost now a (fp_server p) h want N = (r, N')"
    and q: "gc_serve_request (fp_server p) h want now ga = (q, ga')"
  shows "N' = hm_put a ga' N"
    "\<And>l. r = Inr l \<Longrightarrow> \<exists>l0. q = Inr l0 \<and> l_count l = l_count l0 \<and> l_expires l \<le> l_expires l0"
proof -
  have srv: "server_parse (fp_server p) = Some (fp_server p)" using par by (simp add: params_ok_def)
  have w: "wire_grant ga (fp_server p) h want now now =
      ((case q of Inr l \<Rightarrow> QuotaGrant (l_server l) (l_count l) (as_millis_u64 (l_expires l - now))
        | Inl NoLeader \<Rightarrow> QuotaRefused ''no_leader'' | Inl _ \<Rightarrow> QuotaRefused ''exhausted''), ga')"
    using q by (auto simp: wire_grant_def srv split: sum.splits quota_error.splits)
  show "N' = hm_put a ga' N" using r a by (simp add: fleet_transport_def w)
  fix l
  assume l: "r = Inr l"
  then obtain l0 where l0: "q = Inr l0"
    using r a by (auto simp: fleet_transport_def w ask_def request_over_def split: if_splits sum.splits quota_error.splits)
  have "now \<le> l_expires l0"
    using q l0 by (auto simp: gc_serve_request_def co_request_def grant_def Let_def split: if_splits option.splits prod.splits)
  then have "now + from_millis (as_millis_u64 (l_expires l0 - now)) \<le> l_expires l0"
    using from_as_millis [of "l_expires l0 - now"] by linarith
  then show "\<exists>l0. q = Inr l0 \<and> l_count l = l_count l0 \<and> l_expires l \<le> l_expires l0"
    using r a l l0 srv gc_serve_server [of "fp_server p" h want now ga l0 ga'] q
    by (auto simp: fleet_transport_def w ask_def request_over_def split: if_splits)
qed

lemma remote_inv:
  assumes inv: "fleet_inv p F" and ov: "overlap_bounded p F" and par: "params_ok p"
    and h: "hm_get (fl_nodes F) h = Some g" "g_leased p g (fl_now F) < want" "quiet p (fl_now F) h g g1"
      "g_ledger p g1 = g_ledger p g" "g_lease p g1 = g_lease p g"
    and a: "a \<noteq> h" and t: "fleet_transport lost (fl_now F) a (fp_server p) h want (fl_nodes F) = (r, N)"
    and g': "g' = g1 \<or> (\<exists>l. r = Inr l \<and> l_server l = fp_server p \<and> g' = g1\<lparr>gc_inner := co_accept l (gc_inner g1)\<rparr>)"
  shows "fleet_inv p (F\<lparr>fl_nodes := hm_put h g' N\<rparr>)"
proof (cases "hm_get (fl_nodes F) a")
  case None
  then show ?thesis using t g' quiet_inv [OF inv h(1,3)] by (auto simp: fleet_transport_def)
next
  case (Some ga)
  obtain q ga' where q: "gc_serve_request (fp_server p) h want (fl_now F) ga = (q, ga')" by fastforce
  note T = transport_Some [OF par Some t q]
  have ok1: "node_ok p (fl_now F) h g1" using h(3) by (simp add: quiet_def)
  show ?thesis
  proof (cases q)
    case (Inl e)
    then have "g' = g1" using T(2) g' by auto
    then show ?thesis
      unfolding T(1) using quiet_two_inv [OF inv h(1) _ Some serve_Inl [OF fleet_node_ok [OF inv Some] q [unfolded Inl]] a] h(3)
      by simp
  next
    case (Inr l0)
    have sv: "served p (fl_now F) a h want ga l0 ga'"
      by (rule serve_Inr [OF fleet_node_ok [OF inv Some] par q [unfolded Inr]])
    then have "l_expires l0 = fl_now F + lease_ttl p" using issued_facts(3) [OF _ par] by (auto simp: served_def)
    with T(2) Inr g' ok1 accept_ok [OF ok1] h(4,5)
    have "node_ok p (fl_now F) h g'" "g_ledger p g' = g_ledger p g"
      "g_lease p g' = g_lease p g \<or> (\<exists>l'. g_lease p g' = Some l' \<and> l_count l' = l_count l0 \<and> l_expires l' \<le> l_expires l0)"
      by fastforce+
    then show ?thesis unfolding T(1) by (rule served_remote [OF inv ov par h(1,2) Some a sv])
  qed
qed

text \<open>The local attempt of a request is a request the node serves itself.\<close>

lemma request_serve:
  "gc_request_quota tr srv want now g w =
     (case gc_serve_request srv (gc_local g) want now g of
        (Inr lease, g1) \<Rightarrow> (Inr lease, g1\<lparr>gc_inner := co_accept lease (gc_inner g1)\<rparr>, w)
      | (Inl (Exhausted s), g1) \<Rightarrow> (Inl (Exhausted s), g1, w)
      | (Inl NoLeader, g1) \<Rightarrow>
          (case (leader (co_membership (gc_inner g1) now), tr) of
             (Some ldr, Some send) \<Rightarrow>
               if ldr = gc_local g then (Inl NoLeader, g1, w)
               else (case send ldr srv (gc_local g) want w of
                  (Inl e, w') \<Rightarrow> (Inl e, g1, w')
                | (Inr lease, w') \<Rightarrow>
                    if l_server lease \<noteq> srv then (Inl NoLeader, g1, w')
                    else (Inr lease, g1\<lparr>gc_inner := co_accept lease (gc_inner g1)\<rparr>, w'))
           | _ \<Rightarrow> (Inl NoLeader, g1, w)))"
  by (auto simp: gc_request_quota_def gc_serve_request_def split: prod.splits sum.splits quota_error.splits option.splits)

lemma exchange_inv:
  assumes inv: "fleet_inv p F" and ov: "overlap_bounded p F" and par: "params_ok p"
  shows "fleet_inv p (fleet_exchange p h demand lost F)"
proof (cases "hm_get (fl_nodes F) h")
  case (Some g)
  let ?al = "gc_allowance g (fp_server p) (fl_now F)"
  have ok: "node_ok p (fl_now F) h g" by (rule fleet_node_ok [OF inv Some])
  then have loc: "gc_local g = h" by (simp add: node_ok_def)
  show ?thesis
  proof (cases "wants_more_quota demand (guaranteed ?al) (leased ?al)")
    case None
    then show ?thesis using inv by (simp add: fleet_exchange_def Some Let_def)
  next
    case (Some want)
    have lt: "g_leased p g (fl_now F) < want"
      using wants_more_than_leased [OF Some]
      by (simp add: gc_allowance_def co_allowance_def g_leased_def g_lease_def)
    obtain r g' N where req: "gc_request_quota (Some (fleet_transport lost (fl_now F))) (fp_server p) want (fl_now F) g (fl_nodes F) = (r, g', N)"
      by (cases "gc_request_quota (Some (fleet_transport lost (fl_now F))) (fp_server p) want (fl_now F) g (fl_nodes F)")
    obtain q g1 where q: "gc_serve_request (fp_server p) h want (fl_now F) g = (q, g1)" by fastforce
    note h = \<open>hm_get (fl_nodes F) h = Some g\<close>
    have "fleet_inv p (F\<lparr>fl_nodes := hm_put h g' N\<rparr>)"
    proof (cases q)
      case (Inr l)
      then show ?thesis
        using served_local [OF inv ov par h lt serve_Inr [OF ok par q [unfolded Inr]]] req q
        by (simp add: request_serve loc)
    next
      case (Inl e)
      have qt: "quiet p (fl_now F) h g g1" by (rule serve_Inl [OF ok q [unfolded Inl]])
      have same: "g_ledger p g1 = g_ledger p g" "g_lease p g1 = g_lease p g"
        by (rule serve_Inl_same [OF ok q [unfolded Inl]])+
      consider "g' = g1" "N = fl_nodes F" | ldr r' where "ldr \<noteq> h"
          "fleet_transport lost (fl_now F) ldr (fp_server p) h want (fl_nodes F) = (r', N)"
          "g' = g1 \<or> (\<exists>l. r' = Inr l \<and> l_server l = fp_server p \<and> g' = g1\<lparr>gc_inner := co_accept l (gc_inner g1)\<rparr>)"
        using req q Inl loc
        by (auto simp: request_serve split: prod.splits sum.splits quota_error.splits option.splits if_splits)
      then show ?thesis
        using quiet_inv [OF inv h qt] remote_inv [OF inv ov par h lt qt same] by cases auto
    qed
    then show ?thesis by (simp add: fleet_exchange_def h Let_def Some req)
  qed
qed (simp add: fleet_exchange_def inv)

lemma fleet_do_inv:
  assumes "fleet_inv p F" "params_ok p" "is_exchange a \<Longrightarrow> overlap_bounded p F"
  shows "fleet_inv p (fleet_do p a F)"
proof (cases a)
  case (Exchange n d l)
  with assms show ?thesis by (simp add: exchange_inv)
qed (use assms in \<open>auto intro!: on_node_inv fleet_inv_advance quiet_tick quiet_gossip quiet_set_mode quiet_restart quiet_release\<close>)

lemma fleet_reach_inv: "fleet_reach p F \<Longrightarrow> params_ok p \<Longrightarrow> fleet_inv p F"
  by (induction rule: fleet_reach.induct) (auto intro: fleet_inv_new fleet_do_inv)

subsection \<open>The cap\<close>

lemma fleet_guaranteed:
  assumes inv: "fleet_inv p F" and par: "params_ok p"
  shows "sum_list (map (\<lambda>e. guaranteed (gc_allowance (snd e) (fp_server p) t)) (fl_nodes F))
    \<le> fraction_of (sq_cap (fp_quota p)) (sq_guaranteed_fraction (fp_quota p))"
proof -
  let ?c = "fp_config p" and ?q = "fp_quota p"
  let ?seen = "\<lambda>e. max (fleet_size ?c) (try_u32 (length (v_members (co_membership (gc_inner (snd e)) t))))"
  have ok: "hm_get (nc_caps (gc_inner (snd e))) (fp_server p) = Some ?q \<and> nc_config (gc_inner (snd e)) = ?c"
    if "e \<in> set (fl_nodes F)" for e
  proof -
    have "hm_get (fl_nodes F) (fst e) = Some (snd e)"
      using that inv hm.get_entries [of "fl_nodes F" "fst e" "snd e"] by (simp add: fleet_inv_def)
    from fleet_node_ok [OF inv this] show ?thesis by (simp add: node_ok_def)
  qed
  have m: "map (\<lambda>e. guaranteed (gc_allowance (snd e) (fp_server p) t)) (fl_nodes F) =
      map (\<lambda>n. guaranteed_per_node (split_quota (sq_cap ?q) n (sq_guaranteed_fraction ?q))) (map ?seen (fl_nodes F))"
    using ok by (simp add: gc_allowance_def co_allowance_def split_for_def Let_def)
  show ?thesis
    unfolding m by (rule fleet_guaranteed_le [of _ "fleet_size ?c"]) (use inv par in \<open>auto simp: fleet_inv_def params_ok_def\<close>)
qed

lemma allowance_total_le: "allowance_total (gc_allowance g (fp_server p) t) \<le> guaranteed (gc_allowance g (fp_server p) t) + g_leased p g t"
  by (simp add: allowance_total_def gc_allowance_def co_allowance_def g_leased_def g_lease_def sat_add_def)

lemma fleet_inv_total:
  assumes inv: "fleet_inv p F" and par: "params_ok p" and t: "fl_now F \<le> t"
  shows "fleet_total p F t \<le> sq_cap (fp_quota p)"
proof -
  have "fleet_total p F t \<le> sum_list (map (\<lambda>e. guaranteed (gc_allowance (snd e) (fp_server p) t) + g_leased p (snd e) (fl_now F)) (fl_nodes F))"
    unfolding fleet_total_def
    by (intro sum_list_map_mono le_trans [OF allowance_total_le]) (simp add: g_leased_antimono [OF t])
  also have "\<dots> \<le> fraction_of (sq_cap (fp_quota p)) (sq_guaranteed_fraction (fp_quota p)) + fleet_pool p"
    unfolding sum_list_map_add using fleet_guaranteed [OF inv par, of t] inv by (simp add: fleet_inv_def add_mono)
  also have "\<dots> = sq_cap (fp_quota p)"
    using split_halves par by (simp add: params_ok_def fleet_pool_def)
  finally show ?thesis .
qed

end
