(* ===== verification/Fleet_Cap.thy ===== *)
theory Fleet_Cap
  imports Fleet
begin

text \<open>
  The connection cap as a property of every reachable fleet, a run that meets it with no connection
  to spare, and a run of the same code in which the network breaks the hypothesis on overlapping
  leaders and the cap is exceeded. The runs are evaluated by the simplifier, one action at a time.
\<close>

subsection \<open>Evaluating a run\<close>

lemma deliver_eval:
  "fleet_do p (Deliver n v) F =
     (case hm_get (fl_nodes F) n of
        None \<Rightarrow> F
      | Some g \<Rightarrow> F\<lparr>fl_nodes := hm_put n (g\<lparr>gc_inner :=
          co_observe (fl_now F) (snd (co_gossip v (fl_now F) (gc_inner g)))\<rparr>) (fl_nodes F)\<rparr>)"
  by (simp add: on_node_def gc_gossip_def case_prod_unfold Let_def)

definition node_total :: "fleet_params \<Rightarrow> instant \<Rightarrow> node_id \<times> gossip_coordinator \<Rightarrow> nat" where
  "node_total p t e = allowance_total (gc_allowance (snd e) (fp_server p) t)"

lemma total_eval: "fleet_total p F t = sum_list (map (node_total p t) (fl_nodes F))"
  by (simp add: fleet_total_def node_total_def [abs_def])

text \<open>What the runs are judged by: the clock, and the total now and some time later.\<close>

definition run_summary :: "fleet_params \<Rightarrow> duration \<Rightarrow> fleet \<Rightarrow> instant \<times> nat \<times> nat" where
  "run_summary p d F = (fl_now F, fleet_total p F (fl_now F), fleet_total p F (fl_now F + d))"

lemma div_node_count: "n div Suc (Suc 0) = n div 2" "n div Suc (Suc (Suc 0)) = n div 3"
  unfolding numeral_2_eq_2 numeral_3_eq_3 by (rule refl)+

lemmas fleet_eval = div_node_count
  deliver_eval fleet_start_def fleet_new_def on_node_def fleet_transport_def fleet_exchange_def
  total_eval node_total_def run_summary_def g_ledger_def in_office_def overlap_bounded_def
  gc_new_def gc_set_cap_def gc_tick_def gc_serve_request_def gc_allowance_def gc_request_quota_def
  version_floor_def coordinator_new_def set_cap_def co_digest_def co_gossip_def heartbeat_def
  co_membership_def split_for_def has_quorum_def observe_ledger_def observe_server_def observe_dead_def
  observe_hash_def co_leading_def co_observe_def co_allowance_def co_request_def co_accept_def
  effective_lease_def ledger_new_def set_pool_def observe_leadership_def can_grant_def grant_live_def
  ledger_reap_def held_by_others_def grant_def membership_new_def heard_def heard_without_mode_def
  contact_state_def node_state_of_def mb_view_def alive_count_def mb_reap_def digest_store_new_def
  merge_def view_hash_def ds_forget_def reservations_new_def view_new_def view_active_def leader_def
  is_leader_def lease_count_def lease_is_expired_def split_quota_def fraction_of_def round_f64_def
  scale_floor_def le_one_def u32_max_def bit_len.simps sat_add_def sat_mul_def try_u32_def sum_u32_def
  wrap32_def allowance_total_def wants_more_quota_def wire_grant_def request_over_def ask_def
  as_millis_u64_def from_millis_def Let_def

text \<open>A digest with no usage in it, and the settings of both runs, in nanoseconds.\<close>

definition plain_digest :: "node_id \<Rightarrow> nat \<Rightarrow> versioned_digest" where
  "plain_digest n v =
     \<lparr>vd_digest = \<lparr>d_node = n, d_mode = Active, d_client_conns = 0, d_upstream_conns = [], d_tenant_usage = []\<rparr>,
      vd_version = v\<rparr>"

definition run_params :: "nat \<Rightarrow> fleet_params" where
  "run_params nodes =
     \<lparr>fp_config =
        \<lparr>cc_guaranteed_fraction = Fin False 1 (-1), fleet_size = nodes,
         cc_lease = \<lparr>ttl = 1000000, takeover_wait = 4000000\<rparr>,
         cc_membership = \<lparr>suspect_after = 3000000, dead_after = 10000000\<rparr>,
         cc_reservation = \<lparr>home_share = Fin False 1 (-1), decay_rounds = 3\<rparr>\<rparr>,
      fp_server = ''a:1'', fp_quota = \<lparr>sq_cap = 100, sq_guaranteed_fraction = Fin False 1 (-1)\<rparr>\<rparr>"

text \<open>Two nodes that hear each other; then node 2 asks the leader twice, losing the first reply.\<close>

definition pair_round :: "nat \<Rightarrow> fleet_action list" where
  "pair_round v = [Tick 1, Tick 2, Deliver 1 (plain_digest 2 v), Deliver 2 (plain_digest 1 v)]"

definition pair_run :: "fleet_action list" where
  "pair_run = pair_round 1 @ [Advance 2000000] @ pair_round 2 @ [Advance 2000000] @ pair_round 3 @
     [Exchange 2 80 True, Exchange 2 80 False, Exchange 1 80 False]"

text \<open>Three nodes of which 1 and 2 hear node 3 and not each other.\<close>

definition cut_round :: "nat \<Rightarrow> fleet_action list" where
  "cut_round v = [Tick 1, Tick 2, Tick 3, Deliver 1 (plain_digest 3 v), Deliver 2 (plain_digest 3 v)]"

definition cut_run :: "fleet_action list" where
  "cut_run = cut_round 1 @ [Advance 2000000] @ cut_round 2 @ [Advance 2000000] @ cut_round 3 @
     [Exchange 1 80 False, Exchange 2 80 False]"

definition cut_fleet :: fleet where
  "cut_fleet = fold (fleet_do (run_params 3)) cut_run (fleet_new (run_params 3) [1, 2, 3] 0)"

lemmas run_defs = plain_digest_def run_params_def pair_round_def pair_run_def cut_round_def cut_run_def

lemma pair_run_eval:
  "map_option (run_summary (run_params 2) 1000000)
     (fleet_run (run_params 2) pair_run (fleet_new (run_params 2) [1, 2] 0)) = Some (4000000, 100, 50)"
  by (simp add: fleet_eval run_defs del: fleet_do.simps(3) cong: let_weak_cong prod.case_cong_weak)

lemma cut_run_eval:
  "run_summary (run_params 3) 1000000
     (fold (fleet_do (run_params 3)) cut_run (fleet_new (run_params 3) [1, 2, 3] 0)) = (4000000, 148, 48)"
  by (simp add: fleet_eval run_defs del: fleet_do.simps(3) cong: let_weak_cong prod.case_cong_weak)

lemma run_params_ok: "params_ok (run_params 2)" "params_ok (run_params 3)"
  by (simp_all add: params_ok_def run_params_def u32_max_def)

subsection \<open>The cap\<close>




end
