(* ===== verification/Ascii.thy ===== *)
theory Ascii
  imports Text
begin

text \<open>
  The byte and text functions of the Rust standard library the SQL scanners use. A \<open>str\<close> is the
  list of its UTF-8 bytes, so a character outside ASCII is a run of bytes from 128 on. Unicode white
  space is spelled out byte by byte, which makes \<open>trim_start\<close> exact on every valid \<open>str\<close>.
\<close>

subsection \<open>Bytes\<close>

definition is_ascii :: "char \<Rightarrow> bool" where
  "is_ascii c = (of_char c < (128::nat))"

definition is_ascii_whitespace :: "char \<Rightarrow> bool" where
  "is_ascii_whitespace c = (of_char c \<in> {9, 10, 12, 13, 32 :: nat})"

definition is_ascii_digit :: "char \<Rightarrow> bool" where
  "is_ascii_digit c = (48 \<le> (of_char c :: nat) \<and> of_char c \<le> (57 :: nat))"

definition is_ascii_alphabetic :: "char \<Rightarrow> bool" where
  "is_ascii_alphabetic c =
     (65 \<le> (of_char c :: nat) \<and> of_char c \<le> (90 :: nat) \<or> 97 \<le> (of_char c :: nat) \<and> of_char c \<le> (122 :: nat))"

definition is_ascii_alphanumeric :: "char \<Rightarrow> bool" where
  "is_ascii_alphanumeric c = (is_ascii_alphabetic c \<or> is_ascii_digit c)"

definition lower :: "char \<Rightarrow> char" where
  "lower c = (if 65 \<le> (of_char c :: nat) \<and> of_char c \<le> (90 :: nat) then char_of (of_char c + 32 :: nat) else c)"

definition to_ascii_lowercase :: "string \<Rightarrow> string" where
  "to_ascii_lowercase s = map lower s"

definition eq_ignore_ascii_case :: "string \<Rightarrow> string \<Rightarrow> bool" where
  "eq_ignore_ascii_case a b = (to_ascii_lowercase a = to_ascii_lowercase b)"

subsection \<open>Searching\<close>

definition starts_with :: "'a list \<Rightarrow> 'a list \<Rightarrow> bool" where
  "starts_with s p = (take (length p) s = p)"

fun find_char :: "'a \<Rightarrow> 'a list \<Rightarrow> nat option" where
  "find_char c [] = None"
| "find_char c (x # xs) = (if x = c then Some 0 else map_option Suc (find_char c xs))"

fun find_sub :: "'a list \<Rightarrow> 'a list \<Rightarrow> nat option" where
  "find_sub p [] = (if p = [] then Some 0 else None)"
| "find_sub p (x # xs) = (if starts_with (x # xs) p then Some 0 else map_option Suc (find_sub p xs))"

fun find_where :: "('a \<Rightarrow> bool) \<Rightarrow> 'a list \<Rightarrow> nat option" where
  "find_where P [] = None"
| "find_where P (x # xs) = (if P x then Some 0 else map_option Suc (find_where P xs))"

subsection \<open>Unicode white space\<close>

text \<open>
  The number of bytes of the white-space character the text starts with, zero when it starts with
  something else: U+0009 to U+000D and U+0020; U+0085 and U+00A0; U+1680; U+2000 to U+200A, U+2028,
  U+2029, U+202F and U+205F; U+3000.
\<close>

definition space_len3 :: "nat \<Rightarrow> nat \<Rightarrow> nat \<Rightarrow> bool" where
  "space_len3 a b c =
     (a = 225 \<and> b = 154 \<and> c = 128 \<or>
      a = 226 \<and> b = 128 \<and> (128 \<le> c \<and> c \<le> 138 \<or> c = 168 \<or> c = 169 \<or> c = 175) \<or>
      a = 226 \<and> b = 129 \<and> c = 159 \<or>
      a = 227 \<and> b = 128 \<and> c = 128)"

fun space_len :: "nat list \<Rightarrow> nat" where
  "space_len [] = 0"
| "space_len (a # s) =
     (if 9 \<le> a \<and> a \<le> 13 \<or> a = 32 then 1
      else case s of
        [] \<Rightarrow> 0
      | b # s' \<Rightarrow>
          if a = 194 \<and> (b = 133 \<or> b = 160) then 2
          else case s' of [] \<Rightarrow> 0 | c # _ \<Rightarrow> if space_len3 a b c then 3 else 0)"

definition leading_space :: "string \<Rightarrow> nat" where
  "leading_space s = space_len (map of_char (take 3 s))"

lemma leading_space_le: "leading_space s \<le> length s"
proof -
  have "space_len n \<le> length n" for n
    by (induction n rule: space_len.induct) (auto split: list.splits)
  then have "leading_space s \<le> length (take 3 s)" unfolding leading_space_def by (metis length_map)
  then show ?thesis by simp
qed

function trim_start :: "string \<Rightarrow> string" where
  "trim_start s = (if leading_space s = 0 then s else trim_start (drop (leading_space s) s))"
  by pat_completeness auto
termination
proof (relation "measure length")
  fix s assume "leading_space s \<noteq> 0"
  then show "(drop (leading_space s) s, s) \<in> measure length"
    using leading_space_le [of s] by simp
qed simp

declare trim_start.simps [simp del]

text \<open>The same from the end: the bytes of the last character, read backwards.\<close>

fun space_len_rev :: "nat list \<Rightarrow> nat" where
  "space_len_rev [] = 0"
| "space_len_rev (a # s) =
     (if 9 \<le> a \<and> a \<le> 13 \<or> a = 32 then 1
      else case s of
        [] \<Rightarrow> 0
      | b # s' \<Rightarrow>
          if b = 194 \<and> (a = 133 \<or> a = 160) then 2
          else case s' of [] \<Rightarrow> 0 | c # _ \<Rightarrow> if space_len3 c b a then 3 else 0)"

definition trailing_space :: "string \<Rightarrow> nat" where
  "trailing_space r = space_len_rev (map of_char (take 3 r))"

lemma trailing_space_le: "trailing_space s \<le> length s"
proof -
  have "space_len_rev n \<le> length n" for n
    by (induction n rule: space_len_rev.induct) (auto split: list.splits)
  then have "trailing_space s \<le> length (take 3 s)" unfolding trailing_space_def by (metis length_map)
  then show ?thesis by simp
qed

function trim_back :: "string \<Rightarrow> string" where
  "trim_back r = (if trailing_space r = 0 then r else trim_back (drop (trailing_space r) r))"
  by pat_completeness auto
termination
proof (relation "measure length")
  fix s assume "trailing_space s \<noteq> 0"
  then show "(drop (trailing_space s) s, s) \<in> measure length"
    using trailing_space_le [of s] by simp
qed simp

declare trim_back.simps [simp del]

definition trim_end :: "string \<Rightarrow> string" where
  "trim_end s = rev (trim_back (rev s))"

definition trim :: "string \<Rightarrow> string" where
  "trim s = trim_end (trim_start s)"

subsection \<open>Laws\<close>

lemma starts_with_conv: "starts_with s p \<longleftrightarrow> (\<exists>t. s = p @ t)"
proof
  assume "starts_with s p"
  then have "s = p @ drop (length p) s" by (metis starts_with_def append_take_drop_id)
  then show "\<exists>t. s = p @ t" ..
qed (auto simp: starts_with_def)

lemma starts_with_append: "starts_with s p \<Longrightarrow> starts_with (s @ t) p"
  by (auto simp: starts_with_conv)

lemma starts_with_short: "starts_with (s @ t) p \<Longrightarrow> length p \<le> length s \<Longrightarrow> starts_with s p"
  by (simp add: starts_with_def)

lemma starts_with_Nil [simp]: "starts_with s []"
  by (simp add: starts_with_def)

lemma starts_with_Cons [simp]: "starts_with s (c # p) \<longleftrightarrow> (case s of [] \<Rightarrow> False | x # xs \<Rightarrow> x = c \<and> starts_with xs p)"
  by (cases s) (auto simp: starts_with_def)

lemma find_where_takeWhile:
  "(case find_where P s of None \<Rightarrow> length s | Some i \<Rightarrow> i) = length (takeWhile (\<lambda>c. \<not> P c) s)"
  by (induction s) (auto split: option.splits)

lemma find_char_less: "find_char c s = Some i \<Longrightarrow> i < length s"
  by (induction s arbitrary: i) (auto split: if_splits)

lemma find_char_None: "find_char c s = None \<longleftrightarrow> c \<notin> set s"
  by (induction s) (auto split: if_splits)

lemma find_char_append:
  "find_char c (s @ t) = (case find_char c s of Some i \<Rightarrow> Some i | None \<Rightarrow> map_option ((+) (length s)) (find_char c t))"
  by (induction s) (auto split: option.splits simp: option.map_comp comp_def map_option_case)

lemma find_char_nth: "find_char c s = Some i \<Longrightarrow> s = take i s @ c # drop (Suc i) s \<and> c \<notin> set (take i s)"
  by (induction s arbitrary: i) (auto split: if_splits)

lemma find_sub_bound: "find_sub p s = Some i \<Longrightarrow> i + length p \<le> length s"
proof (induction s arbitrary: i)
  case (Cons x s)
  show ?case
  proof (cases "starts_with (x # s) p")
    case True
    then obtain t where "x # s = p @ t" by (auto simp: starts_with_conv)
    then have "length p \<le> length (x # s)" by simp
    then show ?thesis using Cons.prems True by simp
  next
    case False
    then show ?thesis using Cons by auto
  qed
qed (auto split: if_splits)

lemma trim_start_suffix: "\<exists>u. s = u @ trim_start s"
proof (induction s rule: trim_start.induct)
  case (1 s)
  show ?case
  proof (cases "leading_space s = 0")
    case True
    then show ?thesis by (simp add: trim_start.simps [of s])
  next
    case False
    with 1 obtain u where "drop (leading_space s) s = u @ trim_start (drop (leading_space s) s)" by blast
    then have "s = (take (leading_space s) s @ u) @ trim_start (drop (leading_space s) s)"
      by (metis append.assoc append_take_drop_id)
    moreover have "trim_start s = trim_start (drop (leading_space s) s)"
      using False by (subst trim_start.simps) simp
    ultimately show ?thesis by metis
  qed
qed

lemma trim_start_Nil [simp]: "trim_start [] = []"
  by (subst trim_start.simps) (simp add: leading_space_def)

lemma lower_lower [simp]: "lower (lower c) = lower c"
  by (auto simp: lower_def)

lemma eq_ignore_ascii_case_refl [simp]: "eq_ignore_ascii_case a a"
  by (simp add: eq_ignore_ascii_case_def)

lemma is_ascii_lower [simp]: "is_ascii (lower c) \<longleftrightarrow> is_ascii c"
  by (auto simp: is_ascii_def lower_def)

text \<open>Text whose first and last bytes are ASCII and not white space is its own trimming.\<close>

definition is_solid :: "char \<Rightarrow> bool" where
  "is_solid c = (is_ascii c \<and> \<not> is_ascii_whitespace c \<and> of_char c \<noteq> (11 :: nat))"

lemma space_len_solid: "is_solid c \<Longrightarrow> space_len (of_char c # s) = 0" "is_solid c \<Longrightarrow> space_len_rev (of_char c # s) = 0"
  by (cases s; cases "tl s"; auto simp: is_solid_def is_ascii_def is_ascii_whitespace_def space_len3_def split: list.splits)+

lemma trim_start_solid: "is_solid c \<Longrightarrow> trim_start (c # s) = c # s"
  by (subst trim_start.simps) (simp add: leading_space_def space_len_solid numeral_3_eq_3 del: space_len.simps)

lemma trim_end_solid: "is_solid c \<Longrightarrow> trim_end (s @ [c]) = s @ [c]"
  unfolding trim_end_def
  by (subst trim_back.simps) (simp add: trailing_space_def space_len_solid numeral_3_eq_3 del: space_len_rev.simps)

lemma trim_solid:
  assumes "s \<noteq> []" "is_solid (hd s)" "is_solid (last s)"
  shows "trim s = s"
proof -
  have "trim_start s = s" using assms(1,2) trim_start_solid by (metis list.collapse)
  moreover have "trim_end s = s" using assms(1,3) trim_end_solid by (metis append_butlast_last_id)
  ultimately show ?thesis by (simp add: trim_def)
qed

text \<open>The rules that evaluate the byte predicates on a literal.\<close>

lemmas ascii_eval = is_ascii_def is_ascii_whitespace_def is_ascii_digit_def is_ascii_alphabetic_def
  is_ascii_alphanumeric_def lower_def char_of_def bit_0 to_ascii_lowercase_def eq_ignore_ascii_case_def

lemma drop_length_append: "n = length u \<Longrightarrow> drop n (u @ v) = v"
  by simp

end
