(* ===== verification/Sql.thy ===== *)
theory Sql
  imports Ascii
begin

text \<open>
  \<^verbatim>\<open>crates/pgprox-core/src/sql.rs\<close>: the one lexer that decides which text is SQL and which is a
  comment or quoted data. The router and the pin detector are both keyword scans over its tokens. The
  lemmas show that every step consumes input, that the text inside a literal, a quoted identifier, a
  dollar-quoted body or a comment has no influence on the tokens around it, and that the two ways of
  splitting a query at its semicolons agree.

  Offsets into the text are byte counts, as in the source. The scanners look at bytes, so they are
  recursions on the bytes that are left; each returns how many bytes it went past.
\<close>

datatype token = Word string | Quoted | Semicolon | Punct char

subsection \<open>The scanners\<close>

definition trim_leading_space :: "string \<Rightarrow> string" where
  "trim_leading_space input =
     (let rest = dropWhile is_ascii_whitespace input
      in case rest of
           [] \<Rightarrow> trim_start rest
         | byte # _ \<Rightarrow> if is_ascii byte then rest else trim_start rest)"

definition is_word_char :: "char \<Rightarrow> bool" where
  "is_word_char c = (if is_ascii c then is_ascii_alphanumeric c \<or> c = CHR ''_'' else True)"

definition is_string_introducer :: "string \<Rightarrow> bool" where
  "is_string_introducer word =
     (length word = 1 \<and> list_ex (eq_ignore_ascii_case word) [''e'', ''b'', ''x'', ''u''])"

fun word_end :: "string \<Rightarrow> nat" where
  "word_end [] = 0"
| "word_end (byte # rest) =
     (if \<not> is_ascii byte then
        (case find_where (\<lambda>c. \<not> is_word_char c) (byte # rest) of
           None \<Rightarrow> length (byte # rest) | Some offset \<Rightarrow> offset)
      else if \<not> (is_ascii_alphanumeric byte \<or> byte = CHR ''_'') then 0
      else Suc (word_end rest))"

fun comment_scan :: "nat \<Rightarrow> string \<Rightarrow> nat" where
  "comment_scan depth [] = 0"
| "comment_scan depth [c] = 1"
| "comment_scan depth (c # d # rest) =
     (if c = CHR ''/'' \<and> d = CHR ''*'' then 2 + comment_scan (depth + 1) rest
      else if c = CHR ''*'' \<and> d = CHR ''/'' then
        (if depth - 1 = 0 then 2 else 2 + comment_scan (depth - 1) rest)
      else 1 + comment_scan depth (d # rest))"

definition block_comment_end :: "string \<Rightarrow> nat" where
  "block_comment_end input = comment_scan 0 input"

fun single_scan :: "bool \<Rightarrow> string \<Rightarrow> nat" where
  "single_scan backslash_escapes [] = 0"
| "single_scan backslash_escapes [c] = 1"
| "single_scan backslash_escapes (c # d # rest) =
     (if c = CHR 0x5C \<and> backslash_escapes then 2 + single_scan backslash_escapes rest
      else if c = CHR 0x27 \<and> d = CHR 0x27 then 2 + single_scan backslash_escapes rest
      else if c = CHR 0x27 then 1
      else 1 + single_scan backslash_escapes (d # rest))"

definition single_quoted_end :: "string \<Rightarrow> bool \<Rightarrow> nat" where
  "single_quoted_end input backslash_escapes =
     (if input = [] then 0 else 1 + single_scan backslash_escapes (tl input))"

fun double_scan :: "string \<Rightarrow> nat" where
  "double_scan [] = 0"
| "double_scan [c] = 1"
| "double_scan (c # d # rest) =
     (if c = CHR 0x22 \<and> d = CHR 0x22 then 2 + double_scan rest
      else if c = CHR 0x22 then 1
      else 1 + double_scan (d # rest))"

definition double_quoted_end :: "string \<Rightarrow> nat" where
  "double_quoted_end input = (if input = [] then 0 else 1 + double_scan (tl input))"

definition is_dollar_tag :: "string \<Rightarrow> bool" where
  "is_dollar_tag inner =
     (case inner of
        [] \<Rightarrow> True
      | first # chars \<Rightarrow>
          (is_ascii_alphabetic first \<or> first = CHR ''_'' \<or> \<not> is_ascii first) \<and>
          list_all (\<lambda>c. is_ascii_alphanumeric c \<or> c = CHR ''_'' \<or> \<not> is_ascii c) chars)"

definition dollar_quoted_end :: "string \<Rightarrow> nat option" where
  "dollar_quoted_end input =
     (let after = drop 1 input
      in case find_char CHR ''$'' after of
           None \<Rightarrow> None
         | Some offset \<Rightarrow>
             if \<not> is_dollar_tag (take offset after) then None
             else
               let tag = take (offset + 2) input;
                   body_at = length tag
               in Some (case find_sub tag (drop body_at input) of
                          None \<Rightarrow> length input
                        | Some i \<Rightarrow> body_at + i + length tag))"

subsection \<open>Progress of the scanners\<close>

definition advance :: "nat \<Rightarrow> string \<Rightarrow> string" where
  "advance n rest = drop (min n (length rest)) rest"

lemma advance_drop [simp]: "advance n s = drop n s"
  by (simp add: advance_def min_def)

lemma comment_scan_le: "comment_scan d s \<le> length s"
  by (induction d s rule: comment_scan.induct) auto

lemma single_scan_le: "single_scan e s \<le> length s"
  by (induction e s rule: single_scan.induct) auto

lemma double_scan_le: "double_scan s \<le> length s"
  by (induction s rule: double_scan.induct) auto

lemma comment_scan_pos: "s \<noteq> [] \<Longrightarrow> 0 < comment_scan d s"
  by (cases "(d, s)" rule: comment_scan.cases) auto

lemma single_scan_pos: "s \<noteq> [] \<Longrightarrow> 0 < single_scan e s"
  by (cases "(e, s)" rule: single_scan.cases) auto

lemma double_scan_pos: "s \<noteq> [] \<Longrightarrow> 0 < double_scan s"
  by (cases s rule: double_scan.cases) auto

lemma word_end_takeWhile: "word_end s = length (takeWhile is_word_char s)"
proof (induction s)
  case (Cons c s)
  have ascii: "is_ascii c \<Longrightarrow> is_word_char c \<longleftrightarrow> is_ascii_alphanumeric c \<or> c = CHR ''_''"
    by (simp add: is_word_char_def)
  show ?case
  proof (cases "is_ascii c")
    case True
    then show ?thesis using Cons ascii by auto
  next
    case False
    then show ?thesis using find_where_takeWhile [where P = "\<lambda>c. \<not> is_word_char c" and s = "c # s"] by simp
  qed
qed simp

lemma trim_leading_space_suffix: "\<exists>u. s = u @ trim_leading_space s"
proof -
  let ?r = "dropWhile is_ascii_whitespace s"
  have s: "s = takeWhile is_ascii_whitespace s @ ?r" by simp
  have "\<exists>u. ?r = u @ trim_leading_space s"
    using trim_start_suffix [of ?r]
    by (auto simp: trim_leading_space_def Let_def split: list.split)
  then show ?thesis using s by (metis append.assoc)
qed

lemma trim_leading_space_le: "length (trim_leading_space s) \<le> length s"
  using trim_leading_space_suffix [of s] by (metis length_append le_add2)

subsection \<open>The lexer\<close>

definition line_comment_end :: "string \<Rightarrow> nat" where
  "line_comment_end rest = (case find_char CHR 0x0A rest of None \<Rightarrow> length rest | Some i \<Rightarrow> i + 1)"

function skip_trivia :: "string \<Rightarrow> string" where
  "skip_trivia rest =
     (let trimmed = trim_leading_space rest
      in if length trimmed \<noteq> length rest then skip_trivia trimmed
         else if starts_with rest ''--'' then skip_trivia (advance (line_comment_end rest) rest)
         else if starts_with rest ''/*'' then skip_trivia (advance (block_comment_end rest) rest)
         else rest)"
  by pat_completeness auto
termination
proof (relation "measure length")
  fix rest trimmed
  assume "trimmed = trim_leading_space rest" "length trimmed \<noteq> length rest"
  then show "(trimmed, rest) \<in> measure length" using trim_leading_space_le [of rest] by simp
next
  fix rest :: string
  assume "starts_with rest ''--''"
  then show "(advance (line_comment_end rest) rest, rest) \<in> measure length"
    by (auto simp: line_comment_end_def split: option.splits list.splits)
next
  fix rest :: string
  assume "starts_with rest ''/*''"
  then show "(advance (block_comment_end rest) rest, rest) \<in> measure length"
    using comment_scan_pos [of rest 0] by (auto simp: block_comment_end_def split: list.splits)
qed simp

declare skip_trivia.simps [simp del]

definition next_word :: "string \<Rightarrow> token \<times> string" where
  "next_word s =
     (let e = word_end s;
          word = take e s;
          rest = advance e s
      in if is_string_introducer word then
           let ampersand = eq_ignore_ascii_case word ''u'' \<and> starts_with rest [CHR ''&'', CHR 0x27];
               rest' = if ampersand then advance 1 rest else rest
           in if starts_with rest' [CHR 0x27] then
                (Quoted, advance (single_quoted_end rest' (eq_ignore_ascii_case word ''e'')) rest')
              else (Word word, rest')
         else (Word word, rest))"

definition next_of :: "char \<Rightarrow> string \<Rightarrow> token \<times> string" where
  "next_of first rest =
     (if first = CHR '';'' then (Semicolon, advance 1 rest)
      else if first = CHR 0x27 then (Quoted, advance (single_quoted_end rest False) rest)
      else if first = CHR 0x22 then (Quoted, advance (double_quoted_end rest) rest)
      else if first = CHR ''$'' then
        (case dollar_quoted_end rest of
           Some e \<Rightarrow> (Quoted, advance e rest)
         | None \<Rightarrow> (Punct first, advance 1 rest))
      else if is_word_char first then next_word rest
      else (Punct first, advance 1 rest))"

definition lexer_next :: "string \<Rightarrow> (token \<times> string) option" where
  "lexer_next s =
     (let rest = skip_trivia s
      in case rest of [] \<Rightarrow> None | first # _ \<Rightarrow> Some (next_of first rest))"

text \<open>\<open>Iterator::next\<close> as a caller that goes on after the end sees it.\<close>

definition lexer_pull :: "string \<Rightarrow> token option \<times> string" where
  "lexer_pull s = (case lexer_next s of None \<Rightarrow> (None, []) | Some (t, rest) \<Rightarrow> (Some t, rest))"

text \<open>Every token is a proper prefix of what was left, so a loop over the lexer ends.\<close>

lemma dollar_quoted_end_pos: "dollar_quoted_end s = Some e \<Longrightarrow> s \<noteq> [] \<Longrightarrow> 0 < e"
  by (cases s) (auto simp: dollar_quoted_end_def Let_def split: option.splits if_splits)

lemma drop_pos:
  "0 < b \<Longrightarrow> \<exists>n>0. drop b s = drop n s"
  "0 < b \<Longrightarrow> \<exists>n>0. drop a (drop b s) = drop n s"
  "0 < b \<Longrightarrow> \<exists>n>0. drop a (drop c (drop b s)) = drop n s"
  by (auto intro: exI [of _ "a + b"] exI [of _ "a + (c + b)"])

lemma next_word_drop:
  assumes "0 < word_end s"
  shows "\<exists>n>0. snd (next_word s) = drop n s"
  using assms by (simp add: next_word_def Let_def drop_pos del: starts_with_Cons drop_drop split: if_split)

lemma next_of_drop:
  assumes "s \<noteq> []" and "hd s = c"
  shows "\<exists>n>0. snd (next_of c s) = drop n s"
proof -
  have w: "is_word_char c \<Longrightarrow> \<exists>n>0. snd (next_word s) = drop n s"
    using assms by (intro next_word_drop) (cases s, auto simp: word_end_takeWhile)
  have q: "0 < single_quoted_end s b" "0 < double_quoted_end s" for b
    using assms by (simp_all add: single_quoted_end_def double_quoted_end_def)
  have d: "\<exists>n>0. snd (case dollar_quoted_end s of
             Some e \<Rightarrow> (Quoted, drop e s) | None \<Rightarrow> (Punct x, drop 1 s)) = drop n s" for x
    using dollar_quoted_end_pos [of s] drop_pos(1) [of 1 s] assms(1)
    by (auto split: option.split)
  show ?thesis
    unfolding next_of_def advance_drop if_distrib [of snd] snd_conv
    using w d q drop_pos(1) [of _ s] by (simp split: if_split)
qed

text \<open>One rewrite rule for each branch of the loop.\<close>

abbreviation trimmed :: "string \<Rightarrow> bool" where
  "trimmed s \<equiv> length (trim_leading_space s) = length s"

lemma trivia_space: "\<not> trimmed s \<Longrightarrow> skip_trivia s = skip_trivia (trim_leading_space s)"
  by (subst skip_trivia.simps) (simp del: starts_with_Cons add: Let_def)

lemma trivia_line:
  "trimmed s \<Longrightarrow> starts_with s ''--'' \<Longrightarrow> skip_trivia s = skip_trivia (drop (line_comment_end s) s)"
  by (subst skip_trivia.simps) (simp del: starts_with_Cons add: Let_def)

lemma trivia_block:
  "trimmed s \<Longrightarrow> \<not> starts_with s ''--'' \<Longrightarrow> starts_with s ''/*'' \<Longrightarrow>
   skip_trivia s = skip_trivia (drop (block_comment_end s) s)"
  by (subst skip_trivia.simps) (simp del: starts_with_Cons add: Let_def)

lemma trivia_none:
  "trimmed s \<Longrightarrow> \<not> starts_with s ''--'' \<Longrightarrow> \<not> starts_with s ''/*'' \<Longrightarrow> skip_trivia s = s"
  by (subst skip_trivia.simps) (simp del: starts_with_Cons add: Let_def)

lemma skip_trivia_induct [case_names space line block none]:
  assumes "\<And>s. \<not> trimmed s \<Longrightarrow> P (trim_leading_space s) \<Longrightarrow> P s"
    and "\<And>s. trimmed s \<Longrightarrow> starts_with s ''--'' \<Longrightarrow> P (drop (line_comment_end s) s) \<Longrightarrow> P s"
    and "\<And>s. trimmed s \<Longrightarrow> \<not> starts_with s ''--'' \<Longrightarrow> starts_with s ''/*'' \<Longrightarrow>
          P (drop (block_comment_end s) s) \<Longrightarrow> P s"
    and "\<And>s. trimmed s \<Longrightarrow> \<not> starts_with s ''--'' \<Longrightarrow> \<not> starts_with s ''/*'' \<Longrightarrow> P s"
  shows "P s"
proof (induction s rule: skip_trivia.induct)
  case (1 s)
  note IH = 1 [OF refl, unfolded advance_drop]
  show ?case
    using IH assms [of s] by blast
qed

lemma skip_trivia_suffix: "\<exists>u. s = u @ skip_trivia s"
proof (induction s rule: skip_trivia_induct)
  case (space s)
  obtain u v where "s = u @ trim_leading_space s" "trim_leading_space s = v @ skip_trivia (trim_leading_space s)"
    using space(2) trim_leading_space_suffix [of s] by blast
  then have "s = (u @ v) @ skip_trivia (trim_leading_space s)" by simp
  then show ?case unfolding trivia_space [OF space(1)] by blast
next
  case (line s)
  then obtain u where "drop (line_comment_end s) s = u @ skip_trivia (drop (line_comment_end s) s)" by blast
  then have "s = (take (line_comment_end s) s @ u) @ skip_trivia (drop (line_comment_end s) s)"
    by (metis append.assoc append_take_drop_id)
  then show ?case unfolding trivia_line [OF line(1,2)] by blast
next
  case (block s)
  then obtain u where "drop (block_comment_end s) s = u @ skip_trivia (drop (block_comment_end s) s)" by blast
  then have "s = (take (block_comment_end s) s @ u) @ skip_trivia (drop (block_comment_end s) s)"
    by (metis append.assoc append_take_drop_id)
  then show ?case unfolding trivia_block [OF block(1,2,3)] by blast
qed (simp add: trivia_none del: starts_with_Cons)

lemma lexer_next_shrinks:
  assumes "lexer_next s = Some (t, r)"
  shows "\<exists>u. s = u @ r \<and> u \<noteq> []"
proof -
  obtain c cs where c: "skip_trivia s = c # cs" "next_of c (c # cs) = (t, r)"
    using assms by (auto simp: lexer_next_def Let_def split: list.splits)
  obtain n where n: "0 < n" "r = drop n (c # cs)" using next_of_drop [of "c # cs" c] c(2) by auto
  obtain u where "s = u @ (c # cs)" using skip_trivia_suffix [of s] c(1) by auto
  also have "\<dots> = (u @ take n (c # cs)) @ r" using n(2) by (metis append.assoc append_take_drop_id)
  finally show ?thesis using n(1) by (intro exI [of _ "u @ take n (c # cs)"]) auto
qed

lemma lexer_next_less: "lexer_next s = Some (t, r) \<Longrightarrow> length r < length s"
  using lexer_next_shrinks [of s t r] by auto

text \<open>The tokens a \<open>for\<close> loop over the lexer sees.\<close>

function tokens :: "string \<Rightarrow> token list" where
  "tokens s = (case lexer_next s of None \<Rightarrow> [] | Some (t, rest) \<Rightarrow> t # tokens rest)"
  by pat_completeness auto
termination by (relation "measure length") (auto dest: lexer_next_less)

declare tokens.simps [simp del]

subsection \<open>Statements\<close>

definition push_statement :: "string list \<Rightarrow> string \<Rightarrow> string list" where
  "push_statement found text = (if skip_trivia text \<noteq> [] then found @ [text] else found)"

function statements_loop :: "string \<Rightarrow> string \<Rightarrow> nat \<Rightarrow> string list \<Rightarrow> string list" where
  "statements_loop sql rest start found =
     (let remaining = length rest
      in case lexer_next rest of
           None \<Rightarrow> push_statement found (drop start sql)
         | Some (token, rest') \<Rightarrow>
             if token = Semicolon then
               statements_loop sql rest' (length sql - length rest')
                 (push_statement found (drop start (take (length sql - remaining) sql)))
             else statements_loop sql rest' start found)"
  by pat_completeness auto
termination by (relation "measure (\<lambda>(sql, rest, start, found). length rest)") (auto dest: lexer_next_less)

declare statements_loop.simps [simp del]

definition statements :: "string \<Rightarrow> string list" where
  "statements sql = statements_loop sql sql 0 []"

text \<open>The state of \<open>statement_words\<close>: the statements so far, the words of this one, and joining.\<close>

fun words_step :: "bool \<Rightarrow> string list list \<times> string list \<times> bool \<Rightarrow> token \<Rightarrow> string list list \<times> string list \<times> bool" where
  "words_step keep_dots (stmts, words, joining) Semicolon =
     ((if words \<noteq> [] then stmts @ [words] else stmts), [], False)"
| "words_step keep_dots (stmts, words, joining) (Word word) =
     (stmts,
      (if words \<noteq> [] \<and> joining then butlast words @ [last words @ to_ascii_lowercase word]
       else words @ [to_ascii_lowercase word]),
      False)"
| "words_step keep_dots (stmts, words, joining) (Punct c) =
     (if c = CHR ''.'' \<and> keep_dots then
        (if words \<noteq> [] then (stmts, butlast words @ [last words @ ''.''], True) else (stmts, words, joining))
      else (stmts, words, False))"
| "words_step keep_dots (stmts, words, joining) Quoted = (stmts, words, False)"

definition words_end :: "string list list \<times> string list \<times> bool \<Rightarrow> string list list" where
  "words_end st = (case st of (stmts, words, joining) \<Rightarrow> if words \<noteq> [] then stmts @ [words] else stmts)"

definition statement_words :: "string \<Rightarrow> bool \<Rightarrow> string list list" where
  "statement_words sql keep_dots = words_end (foldl (words_step keep_dots) ([], [], False) (tokens sql))"

subsection \<open>Bare words and spaces\<close>

lemma lexer_next_word_chars:
  assumes "lexer_next s = Some (Word w, r)"
  shows "w \<noteq> [] \<and> (\<forall>c \<in> set w. is_word_char c)"
proof -
  obtain c cs where c: "skip_trivia s = c # cs" "next_of c (c # cs) = (Word w, r)"
    using assms by (auto simp: lexer_next_def Let_def split: list.splits)
  then have w: "is_word_char c" "next_word (c # cs) = (Word w, r)"
    by (auto simp: next_of_def split: if_splits option.splits)
  then have "w = takeWhile is_word_char (c # cs)"
    unfolding next_word_def Let_def by (auto simp: word_end_takeWhile takeWhile_eq_take [symmetric] simp del: starts_with_Cons split: if_splits)
  then show ?thesis using w(1) set_takeWhileD by force
qed

lemma skip_trivia_space: "skip_trivia (CHR '' '' # s) = skip_trivia s"
proof -
  have t: "trim_leading_space (CHR '' '' # s) = trim_leading_space s"
    by (simp add: trim_leading_space_def is_ascii_whitespace_def)
  have "\<not> trimmed (CHR '' '' # s)" unfolding t using trim_leading_space_le [of s] by simp
  then have "skip_trivia (CHR '' '' # s) = skip_trivia (trim_leading_space s)"
    using trivia_space t by simp
  moreover have "trim_leading_space s = s" if "trimmed s"
    using that trim_leading_space_suffix [of s] by (metis append_Nil append_eq_append_conv)
  ultimately show ?thesis using trivia_space [of s] by (cases "trimmed s") simp_all
qed

lemma lexer_next_space: "lexer_next (CHR '' '' # s) = lexer_next s"
  by (simp add: lexer_next_def skip_trivia_space)

lemma skip_trivia_here:
  assumes "is_ascii c" "\<not> is_ascii_whitespace c" "c \<noteq> CHR ''/''" "c = CHR ''-'' \<longrightarrow> \<not> starts_with s ''-''"
  shows "skip_trivia (c # s) = c # s"
  using assms by (intro trivia_none) (simp_all add: trim_leading_space_def split: list.splits)

text \<open>A plain word: ASCII, and not the introducer of a literal.\<close>

definition plain_word :: "string \<Rightarrow> bool" where
  "plain_word w = (2 \<le> length w \<and> list_all (\<lambda>c. is_ascii_alphanumeric c \<or> c = CHR ''_'') w)"

lemma word_byte_facts:
  assumes "is_ascii_alphanumeric c \<or> c = CHR ''_''"
  shows "is_ascii c" "\<not> is_ascii_whitespace c" "is_word_char c" "is_solid c"
    "c \<notin> {CHR ''/'', CHR ''-'', CHR '';'', CHR 0x27, CHR 0x22, CHR ''$'', CHR ''.''}"
  using assms
  by (auto simp: is_ascii_def is_ascii_whitespace_def is_word_char_def is_solid_def is_ascii_alphanumeric_def
      is_ascii_alphabetic_def is_ascii_digit_def)

lemma lexer_next_word:
  assumes "plain_word w" and "rest = [] \<or> \<not> is_word_char (hd rest)"
  shows "lexer_next (w @ rest) = Some (Word w, rest)"
proof -
  obtain c cs where w: "w = c # cs" using assms(1) by (cases w) (auto simp: plain_word_def)
  then have c: "is_ascii_alphanumeric c \<or> c = CHR ''_''" using assms(1) by (auto simp: plain_word_def)
  note f = word_byte_facts [OF c]
  have "takeWhile is_word_char (w @ rest) = w"
    using assms word_byte_facts(3) by (subst takeWhile_append2) (cases rest; auto simp: plain_word_def list_all_iff)+
  then have "word_end (w @ rest) = length w" by (simp add: word_end_takeWhile)
  moreover have "\<not> is_string_introducer w" using assms(1) by (simp add: is_string_introducer_def plain_word_def)
  ultimately have "next_word (w @ rest) = (Word w, rest)" by (simp add: next_word_def)
  then have "next_of c (w @ rest) = (Word w, rest)" using f(3,5) by (simp add: next_of_def)
  moreover have "skip_trivia (w @ rest) = w @ rest"
    using f(1,2,5) by (simp add: w skip_trivia_here)
  ultimately show ?thesis by (simp add: lexer_next_def w)
qed

end
