(* ===== verification/Sql_Split.thy ===== *)
theory Sql_Split
  imports Sql
begin

text \<open>
  The lexer is local: a token that ends inside a prefix of the text is the token the prefix alone
  gives. From that follows that the two splitters of
  \<^verbatim>\<open>crates/pgprox-core/src/sql.rs\<close>, \<^const>\<open>statements\<close> for the text and \<^const>\<open>statement_words\<close> for
  the keywords, cut a query at the same semicolons.
\<close>

declare starts_with_Cons [simp del]

subsection \<open>Each scanner is local\<close>

lemma comment_scan_local: "comment_scan d (u @ v) \<le> length u \<Longrightarrow> comment_scan d u = comment_scan d (u @ v)"
proof (induction d u rule: comment_scan.induct)
  case (2 d c)
  then show ?case using comment_scan_pos [of v d] by (cases v) (auto split: if_splits)
next
  case (1 d)
  then show ?case using comment_scan_pos [of v d] by (cases v) auto
qed (auto split: if_splits)

lemma single_scan_local: "single_scan e (u @ v) \<le> length u \<Longrightarrow> single_scan e u = single_scan e (u @ v)"
proof (induction e u rule: single_scan.induct)
  case (2 e c)
  then show ?case using single_scan_pos [of v e] by (cases v) (auto split: if_splits)
next
  case (1 e)
  then show ?case using single_scan_pos [of v e] by (cases v) auto
qed (auto split: if_splits)

lemma double_scan_local: "double_scan (u @ v) \<le> length u \<Longrightarrow> double_scan u = double_scan (u @ v)"
proof (induction u rule: double_scan.induct)
  case (2 c)
  then show ?case using double_scan_pos [of v] by (cases v) (auto split: if_splits)
next
  case 1
  then show ?case using double_scan_pos [of v] by (cases v) auto
qed (auto split: if_splits)

lemma single_quoted_end_local:
  "single_quoted_end (u @ v) e \<le> length u \<Longrightarrow> single_quoted_end u e = single_quoted_end (u @ v) e"
  using single_scan_local [of e "tl u" v] by (cases u) (auto simp: single_quoted_end_def split: if_splits)

lemma double_quoted_end_local:
  "double_quoted_end (u @ v) \<le> length u \<Longrightarrow> double_quoted_end u = double_quoted_end (u @ v)"
  using double_scan_local [of "tl u" v] by (cases u) (auto simp: double_quoted_end_def split: if_splits)

lemma line_comment_end_local:
  "line_comment_end (u @ v) \<le> length u \<Longrightarrow> line_comment_end u = line_comment_end (u @ v)"
  by (auto simp: line_comment_end_def find_char_append split: option.splits)

lemma word_end_local: "word_end (u @ v) \<le> length u \<Longrightarrow> word_end u = word_end (u @ v)"
  by (auto simp: word_end_takeWhile takeWhile_append takeWhile_eq_all_conv [THEN iffD2] split: if_splits)

lemma find_sub_local:
  "find_sub p (u @ v) = Some i \<Longrightarrow> i + length p \<le> length u \<Longrightarrow> find_sub p u = Some i"
proof (induction u arbitrary: i)
  case Nil
  then show ?case by simp
next
  case (Cons x u)
  show ?case
  proof (cases "starts_with (x # u @ v) p")
    case True
    with Cons.prems have "i = 0" "length p \<le> length (x # u)" by auto
    with True show ?thesis using starts_with_short [of "x # u" v p] by simp
  next
    case False
    then have "\<not> starts_with (x # u) p" using starts_with_append [of "x # u" p v] by auto
    with False Cons show ?thesis by auto
  qed
qed

lemma find_sub_None_local: "find_sub p (u @ v) = None \<Longrightarrow> find_sub p u = None"
proof (induction u)
  case (Cons x u)
  then show ?case using starts_with_append [of "x # u" p v] by (auto split: if_splits)
qed (cases v; auto split: if_splits)

lemma dollar_quoted_end_Cons:
  assumes "find_char CHR ''$'' w = Some off" and "tag = take (off + 2) (c # w)"
  shows "dollar_quoted_end (c # w) =
    (if is_dollar_tag (take off w)
     then Some (case find_sub tag (drop (off + 2) (c # w)) of
                  None \<Rightarrow> length (c # w) | Some i \<Rightarrow> (off + 2) + i + (off + 2))
     else None)"
proof -
  have "length (take (off + 2) (c # w)) = off + 2" using find_char_less [OF assms(1)] by simp
  then show ?thesis unfolding assms(2) by (simp only: dollar_quoted_end_def Let_def drop_Suc_Cons drop_0 One_nat_def
      assms(1) option.case not_not if_not_P if_P split: if_split) simp
qed

lemma dollar_quoted_end_local:
  assumes "dollar_quoted_end (c # w @ v) = Some e" "e \<le> length (c # w)"
  shows "dollar_quoted_end (c # w) = Some e"
proof -
  obtain off where off: "find_char CHR ''$'' (w @ v) = Some off"
    using assms(1) by (auto simp: dollar_quoted_end_def Let_def split: option.splits)
  define tag where "tag = take (off + 2) (c # w @ v)"
  note d = dollar_quoted_end_Cons [OF off tag_def]
  have tag: "is_dollar_tag (take off (w @ v))" using assms(1) d by (simp split: if_splits)
  show ?thesis
  proof (cases "find_sub tag (drop (off + 2) (c # w @ v))")
    case None
    then have "e = length (c # w @ v)" using assms(1) d tag by simp
    then have "v = []" using assms(2) by simp
    then show ?thesis using assms(1) by simp
  next
    case (Some i)
    then have e: "e = (off + 2) + i + (off + 2)" using assms(1) d tag by simp
    with assms(2) have le: "off + 2 + i + (off + 2) \<le> length (c # w)" by simp
    have t: "tag = take (off + 2) (c # w)" using le by (simp add: tag_def)
    have "find_sub tag (drop (off + 2) (c # w) @ v) = Some i" using Some le by simp
    then have "find_sub tag (drop (off + 2) (c # w)) = Some i"
      by (rule find_sub_local) (use le t in simp)
    moreover have "find_char CHR ''$'' w = Some off"
      using off le find_char_append [of "CHR ''$''" w v] by (auto split: option.splits)
    moreover have "is_dollar_tag (take off w)" using tag le by simp
    ultimately show ?thesis using dollar_quoted_end_Cons [OF _ t] e by simp
  qed
qed

lemma dollar_quoted_end_None_local:
  assumes "dollar_quoted_end (u @ v) = None"
  shows "dollar_quoted_end u = None"
proof (cases u)
  case (Cons c w)
  then show ?thesis
    using assms find_char_less [of "CHR ''$''" w]
    by (auto simp: dollar_quoted_end_def Let_def find_char_append split: option.splits if_splits)
qed (simp add: dollar_quoted_end_def)

subsection \<open>The lexer is local\<close>

lemma drop_into:
  assumes "drop n (u @ v) = w @ v" "w \<noteq> []"
  shows "n \<le> length u" "drop n u = w"
proof -
  have "length (u @ v) - n = length (w @ v)" using assms(1) by (metis length_drop)
  moreover have "0 < length w" using assms(2) by simp
  ultimately show "n \<le> length u" unfolding length_append by linarith
  then show "drop n u = w" using assms(1) by simp
qed

lemma space_len_local:
  "space_len (u @ v) \<noteq> 0 \<Longrightarrow> space_len (u @ v) \<le> length u \<Longrightarrow> space_len u = space_len (u @ v)"
  "space_len u \<noteq> 0 \<Longrightarrow> space_len (u @ v) = space_len u"
  by (cases u; cases "tl u"; cases "tl (tl u)"; cases v; auto split: if_splits list.splits)+

lemma space_len_take3: "space_len (take 3 s) = space_len s"
  by (cases s; cases "tl s"; cases "tl (tl s)") (auto split: list.splits simp: numeral_3_eq_3)

lemma leading_space_eq: "leading_space s = space_len (map of_char s)"
  unfolding leading_space_def by (metis space_len_take3 take_map)

lemma leading_space_local:
  "leading_space (u @ v) \<noteq> 0 \<Longrightarrow> leading_space (u @ v) \<le> length u \<Longrightarrow> leading_space u = leading_space (u @ v)"
  "leading_space u \<noteq> 0 \<Longrightarrow> leading_space (u @ v) = leading_space u"
  unfolding leading_space_eq map_append
  by (rule space_len_local(1), simp_all) (rule space_len_local(2), simp)

lemma trim_start_local:
  assumes "trim_start (u @ v) = w @ v" "w \<noteq> []"
  shows "trim_start u = w"
  using assms(1)
proof (induction "u" rule: trim_start.induct)
  case (1 u)
  show ?case
  proof (cases "leading_space (u @ v) = 0")
    case True
    then have "u = w" using 1(2) by (simp add: trim_start.simps [of "u @ v"])
    moreover have "leading_space u = 0" using True leading_space_local(2) [of u v] by auto
    ultimately show ?thesis by (subst trim_start.simps) simp
  next
    case False
    let ?n = "leading_space (u @ v)"
    have eq: "trim_start (drop ?n (u @ v)) = w @ v"
      using False 1(2) by (simp add: trim_start.simps [of "u @ v"])
    have "?n \<le> length u"
    proof (rule ccontr)
      assume "\<not> ?n \<le> length u"
      then have "length (drop ?n (u @ v)) < length v + 1" by simp
      moreover obtain x where "drop ?n (u @ v) = x @ w @ v" using trim_start_suffix eq by metis
      moreover have "0 < length w" using assms(2) by simp
      ultimately show False unfolding length_append by (simp only: length_append)
    qed
    then have n: "leading_space u = ?n" "drop ?n (u @ v) = drop ?n u @ v"
      using leading_space_local(1) [OF False] by simp_all
    then have "trim_start (drop ?n u) = w" using 1(1) False eq by simp
    then show ?thesis using False n by (simp add: trim_start.simps [of u])
  qed
qed

lemma trim_leading_space_local:
  assumes "trim_leading_space (u @ v) = w @ v" "w \<noteq> []"
  shows "trim_leading_space u = w"
proof -
  let ?P = is_ascii_whitespace
  have ne: "dropWhile ?P u \<noteq> []"
  proof
    assume "dropWhile ?P u = []"
    then have "dropWhile ?P (u @ v) = dropWhile ?P v" by (simp add: dropWhile_append3)
    then have "\<exists>x. dropWhile ?P v = x @ w @ v"
      using assms(1) trim_start_suffix [of "dropWhile ?P v"]
      by (auto simp: trim_leading_space_def Let_def split: list.splits if_splits)
    moreover have "length (dropWhile ?P v) \<le> length v" by (rule length_dropWhile_le)
    ultimately show False using assms(2) by auto
  qed
  then have "dropWhile ?P (u @ v) = dropWhile ?P u @ v"
    by (metis dropWhile_append dropWhile_eq_Nil_conv)
  then show ?thesis
    using assms ne trim_start_local [of "dropWhile ?P u" v w]
    by (auto simp: trim_leading_space_def Let_def split: list.splits if_splits)
qed

lemma suffix_over:
  assumes "u @ v = x @ w @ v"
  shows "u = x @ w"
  using assms by (metis append.assoc append_same_eq)

lemma line_comment_end_ge: "starts_with s ''--'' \<Longrightarrow> 2 \<le> line_comment_end s"
  by (auto simp: line_comment_end_def starts_with_conv split: option.splits if_splits)

lemma block_comment_end_ge: "starts_with s ''/*'' \<Longrightarrow> 2 \<le> block_comment_end s"
  by (auto simp: block_comment_end_def starts_with_conv)

lemma trimmed_local:
  assumes "trimmed (u @ v)" "u \<noteq> []"
  shows "trimmed u"
proof -
  obtain x where "u @ v = x @ trim_leading_space (u @ v)" using trim_leading_space_suffix by blast
  moreover from this have "length x = 0" using assms(1) by (metis add_0 add_right_cancel length_append)
  ultimately have "trim_leading_space (u @ v) = u @ v" by simp
  then show ?thesis using trim_leading_space_local [of u v u] assms(2) by simp
qed

lemma skip_trivia_local:
  assumes "skip_trivia (u @ v) = w @ v" "w \<noteq> []"
  shows "skip_trivia u = w"
  using assms(1)
proof (induction "u @ v" arbitrary: u rule: skip_trivia_induct)
  case space
  have eq: "skip_trivia (trim_leading_space (u @ v)) = w @ v"
    using space.prems trivia_space [OF space.hyps(1)] by simp
  obtain x where x: "trim_leading_space (u @ v) = (x @ w) @ v"
    using skip_trivia_suffix [of "trim_leading_space (u @ v)"] eq by auto
  have t: "trim_leading_space u = x @ w" using trim_leading_space_local [OF x] assms(2) by simp
  have "skip_trivia (x @ w) = w" using space.hyps(2) [OF x] eq x by simp
  moreover have "\<not> trimmed u" using space.hyps(1) x t by simp
  ultimately show ?case using t trivia_space [of u] by simp
next
  case line
  let ?n = "line_comment_end (u @ v)"
  have eq: "skip_trivia (drop ?n (u @ v)) = w @ v"
    using line.prems trivia_line [OF line.hyps(1,2)] by simp
  obtain x where x: "drop ?n (u @ v) = (x @ w) @ v"
    using skip_trivia_suffix [of "drop ?n (u @ v)"] eq by auto
  have n: "?n \<le> length u" "drop ?n u = x @ w" using drop_into [OF x] assms(2) by simp_all
  have l: "line_comment_end u = ?n" using n(1) by (rule line_comment_end_local)
  have "2 \<le> length u"
    using n(1) line.hyps(2) line_comment_end_ge [of "u @ v"] by linarith
  then have "starts_with u ''--''" using line.hyps(2) starts_with_short [of u v "''--''"] by simp
  moreover have "trimmed u" using line.hyps(1) by (rule trimmed_local) (use \<open>2 \<le> length u\<close> in auto)
  moreover have "skip_trivia (x @ w) = w" using line.hyps(3) [OF x] eq x by simp
  ultimately show ?case using l n trivia_line [of u] by simp
next
  case block
  let ?n = "block_comment_end (u @ v)"
  have eq: "skip_trivia (drop ?n (u @ v)) = w @ v"
    using block.prems trivia_block [OF block.hyps(1,2,3)] by simp
  obtain x where x: "drop ?n (u @ v) = (x @ w) @ v"
    using skip_trivia_suffix [of "drop ?n (u @ v)"] eq by auto
  have n: "?n \<le> length u" "drop ?n u = x @ w" using drop_into [OF x] assms(2) by simp_all
  have l: "block_comment_end u = ?n"
    using n(1) unfolding block_comment_end_def by (rule comment_scan_local)
  have "2 \<le> length u"
    using n(1) block.hyps(3) block_comment_end_ge [of "u @ v"] by linarith
  then have "starts_with u ''/*''" using block.hyps(3) starts_with_short [of u v "''/*''"] by simp
  moreover have "\<not> starts_with u ''--''" using block.hyps(2) starts_with_append by blast
  moreover have "trimmed u" using block.hyps(1) by (rule trimmed_local) (use \<open>2 \<le> length u\<close> in auto)
  moreover have "skip_trivia (x @ w) = w" using block.hyps(4) [OF x] eq x by simp
  ultimately show ?case using l n trivia_block [of u] by simp
next
  case none
  then have "u = w" using trivia_none [OF none.hyps(1-3)] by simp
  moreover have "\<not> starts_with u ''--''" "\<not> starts_with u ''/*''"
    using none.hyps(2,3) starts_with_append by blast+
  moreover have "trimmed u" using none.hyps(1) by (rule trimmed_local) (use \<open>u = w\<close> assms(2) in auto)
  ultimately show ?case using trivia_none [of u] by simp
qed

lemma drop_upto:
  assumes "drop n (u @ v) = r @ v" "v \<noteq> []"
  shows "n \<le> length u" "drop n u = r"
proof -
  have "length (u @ v) - n = length (r @ v)" using assms(1) by (metis length_drop)
  moreover have "0 < length v" using assms(2) by simp
  ultimately show "n \<le> length u" unfolding length_append by linarith
  then show "drop n u = r" using assms(1) by simp
qed

text \<open>What follows the bare word: a literal when the word introduces one, nothing otherwise.\<close>

definition after_word :: "string \<Rightarrow> string \<Rightarrow> token \<times> string" where
  "after_word word rest =
     (if is_string_introducer word then
        let ampersand = eq_ignore_ascii_case word ''u'' \<and> starts_with rest [CHR ''&'', CHR 0x27];
            rest' = if ampersand then drop 1 rest else rest
        in if starts_with rest' [CHR 0x27] then
             (Quoted, drop (single_quoted_end rest' (eq_ignore_ascii_case word ''e'')) rest')
           else (Word word, rest')
      else (Word word, rest))"

lemma next_word_after: "next_word s = after_word (take (word_end s) s) (drop (word_end s) s)"
  by (simp add: next_word_def after_word_def Let_def)

lemma after_word_drop: "\<exists>k. snd (after_word w x) = drop k x"
  by (simp add: after_word_def Let_def split: if_split) (metis drop_0)

lemma single_quoted_end_pos: "s \<noteq> [] \<Longrightarrow> 0 < single_quoted_end s e"
  by (simp add: single_quoted_end_def)

lemma after_word_local:
  assumes "after_word word (x @ v) = (t, r @ v)" "v \<noteq> []"
  shows "after_word word x = (t, r)"
proof (cases "is_string_introducer word")
  case intro: True
  let ?amp = "\<lambda>y. eq_ignore_ascii_case word ''u'' \<and> starts_with y [CHR ''&'', CHR 0x27]"
  let ?stop = "\<lambda>y. single_quoted_end y (eq_ignore_ascii_case word ''e'')"
  have mono: "?amp x \<Longrightarrow> ?amp (x @ v)" "starts_with x [CHR 0x27] \<Longrightarrow> starts_with (x @ v) [CHR 0x27]"
    using starts_with_append by blast+
  consider (amp) "?amp (x @ v)" | (quote) "\<not> ?amp (x @ v)" "starts_with (x @ v) [CHR 0x27]"
    | (plain) "\<not> ?amp (x @ v)" "\<not> starts_with (x @ v) [CHR 0x27]" by blast
  then show ?thesis
  proof cases
    case amp
    then obtain y where "x @ v = CHR ''&'' # CHR 0x27 # y" by (auto simp: starts_with_conv)
    then have "drop 1 (x @ v) = CHR 0x27 # y" by (simp only: drop_Suc_Cons One_nat_def drop_0)
    then have q: "starts_with (drop 1 (x @ v)) [CHR 0x27]" by (simp only: starts_with_conv) simp
    with amp intro assms(1) have r: "t = Quoted" "drop (?stop (drop 1 (x @ v))) (drop 1 (x @ v)) = r @ v"
      by (simp_all add: after_word_def Let_def)
    have pos: "0 < ?stop (drop 1 (x @ v))" using q by (intro single_quoted_end_pos) (auto simp: starts_with_conv)
    have "drop (?stop (drop 1 (x @ v)) + 1) (x @ v) = r @ v" using r(2) by (simp only: drop_drop)
    then have "?stop (drop 1 (x @ v)) + 1 \<le> length x" using assms(2) by (rule drop_upto(1))
    moreover from this pos have "2 \<le> length x" by linarith
    moreover from this have x: "2 \<le> length x" "drop 1 (x @ v) = drop 1 x @ v" by simp_all
    ultimately have e: "?stop (drop 1 x) = ?stop (drop 1 x @ v)" by (intro single_quoted_end_local) simp
    have "?amp x" using amp x(1) starts_with_short [of x v] by simp
    moreover have "starts_with (drop 1 x) [CHR 0x27]"
      using q x starts_with_short [of "drop 1 x" v "[CHR 0x27]"] by simp
    moreover have "drop (?stop (drop 1 x)) (drop 1 x) = r"
      using r(2) drop_upto(2) [of "?stop (drop 1 x @ v)" "drop 1 x" v r] assms(2) unfolding x(2) e by simp
    ultimately show ?thesis using intro r(1) by (simp add: after_word_def Let_def)
  next
    case quote
    with intro assms(1) have r: "t = Quoted" "drop (?stop (x @ v)) (x @ v) = r @ v"
      by (simp_all add: after_word_def Let_def)
    have pos: "0 < ?stop (x @ v)" using assms(2) by (intro single_quoted_end_pos) simp
    note d = drop_upto [OF r(2) assms(2)]
    have e: "?stop x = ?stop (x @ v)" using d(1) by (rule single_quoted_end_local)
    have "starts_with x [CHR 0x27]" using quote(2) pos d(1) by (intro starts_with_short [of x v]) simp_all
    then show ?thesis using intro quote(1) mono(1) r(1) d(2) e by (auto simp: after_word_def Let_def)
  next
    case plain
    then show ?thesis using intro assms mono by (auto simp: after_word_def Let_def)
  qed
qed (use assms in \<open>auto simp: after_word_def\<close>)

lemma next_word_local:
  assumes "next_word (u @ v) = (t, r @ v)" "v \<noteq> []"
  shows "next_word u = (t, r)"
proof -
  let ?e = "word_end (u @ v)"
  obtain k where "drop k (drop ?e (u @ v)) = r @ v"
    using after_word_drop assms(1) unfolding next_word_after by (metis snd_conv)
  then have "drop (k + ?e) (u @ v) = r @ v" by (simp only: drop_drop)
  then have "k + ?e \<le> length u" using assms(2) by (rule drop_upto(1))
  then have e: "?e \<le> length u" by simp
  have w: "word_end u = ?e" using e by (rule word_end_local)
  have "after_word (take ?e u) (drop ?e u @ v) = (t, r @ v)" using assms(1) e by (simp add: next_word_after)
  then show ?thesis unfolding next_word_after w by (rule after_word_local) (rule assms(2))
qed

lemma next_of_local:
  assumes "next_of c (u @ v) = (t, r @ v)" "v \<noteq> []" "u \<noteq> []"
  shows "next_of c u = (t, r)"
proof -
  have one: "drop 1 (u @ v) = drop 1 u @ v" using assms(3) by (cases u) auto
  show ?thesis
  proof (cases "c = CHR ''$''")
    case True
    obtain x xs where u: "u = x # xs" using assms(3) by (cases u) auto
    show ?thesis
    proof (cases "dollar_quoted_end (u @ v)")
      case None
      then show ?thesis using True assms(1) one dollar_quoted_end_None_local [OF None] by (simp add: next_of_def)
    next
      case (Some e)
      then have d: "t = Quoted" "drop e (u @ v) = r @ v" using True assms(1) by (simp_all add: next_of_def)
      have "dollar_quoted_end u = Some e"
        using dollar_quoted_end_local [of x xs v e] Some drop_upto(1) [OF d(2) assms(2)] by (simp add: u)
      then show ?thesis using True d(1) drop_upto(2) [OF d(2) assms(2)] by (simp add: next_of_def)
    qed
  next
    case nd: False
    consider (semi) "c = CHR '';''" | (single) "c = CHR 0x27" | (double) "c = CHR 0x22"
      | (word) "c \<notin> {CHR '';'', CHR 0x27, CHR 0x22}" "is_word_char c"
      | (other) "c \<notin> {CHR '';'', CHR 0x27, CHR 0x22}" "\<not> is_word_char c" by blast
    then show ?thesis
    proof cases
      case semi
      then show ?thesis using assms(1) one by (simp add: next_of_def)
    next
      case single
      then have d: "t = Quoted" "drop (single_quoted_end (u @ v) False) (u @ v) = r @ v"
        using assms(1) by (simp_all add: next_of_def)
      have e: "single_quoted_end u False = single_quoted_end (u @ v) False"
        by (rule single_quoted_end_local) (rule drop_upto(1) [OF d(2) assms(2)])
      show ?thesis using single d(1) drop_upto(2) [OF d(2) assms(2)] by (simp add: next_of_def e)
    next
      case double
      then have d: "t = Quoted" "drop (double_quoted_end (u @ v)) (u @ v) = r @ v"
        using assms(1) by (simp_all add: next_of_def)
      have e: "double_quoted_end u = double_quoted_end (u @ v)"
        by (rule double_quoted_end_local) (rule drop_upto(1) [OF d(2) assms(2)])
      show ?thesis using double d(1) drop_upto(2) [OF d(2) assms(2)] by (simp add: next_of_def e)
    next
      case word
      then have "next_word (u @ v) = (t, r @ v)" using assms(1) nd by (simp add: next_of_def)
      then have "next_word u = (t, r)" using assms(2) by (rule next_word_local)
      then show ?thesis using word nd by (simp add: next_of_def)
    next
      case other
      then show ?thesis using assms(1) nd one by (simp add: next_of_def)
    qed
  qed
qed

lemma lexer_next_local:
  assumes "lexer_next (u @ v) = Some (t, r @ v)"
  shows "lexer_next u = Some (t, r)"
proof (cases "v = []")
  case False
  obtain c cs where c: "skip_trivia (u @ v) = c # cs" "next_of c (c # cs) = (t, r @ v)"
    using assms by (auto simp: lexer_next_def Let_def split: list.splits)
  obtain n where n: "0 < n" "r @ v = drop n (c # cs)" using next_of_drop [of "c # cs" c] c(2) by auto
  obtain x where "u @ v = x @ c # cs" using skip_trivia_suffix [of "u @ v"] c(1) by auto
  moreover have "c # cs = (take n (c # cs) @ r) @ v" using n(2) by (metis append.assoc append_take_drop_id)
  ultimately obtain w where w: "c # cs = w @ v" "w \<noteq> []" using n(1) by (metis append_is_Nil_conv less_numeral_extra(3) list.distinct(1) take_eq_Nil)
  then have s: "skip_trivia u = w" "hd w = c"
    using skip_trivia_local [of u v w] c(1) by (simp, metis hd_append2 list.sel(1))
  have "next_of c w = (t, r)" using c(2) False w by (intro next_of_local [of c w v]) simp_all
  then show ?thesis using s w(2) by (cases w) (auto simp: lexer_next_def Let_def)
qed (use assms in simp)

subsection \<open>The two splitters agree\<close>

text \<open>The tokens up to a point of the text are the tokens of the text up to that point.\<close>

inductive lexes :: "string \<Rightarrow> token list \<Rightarrow> string \<Rightarrow> bool" where
  lexes_none: "lexes s [] s"
| lexes_more: "lexer_next s = Some (t, r) \<Longrightarrow> lexes r ts v \<Longrightarrow> lexes s (t # ts) v"

lemma lexes_snoc: "lexes s ts v \<Longrightarrow> lexer_next v = Some (t, r) \<Longrightarrow> lexes s (ts @ [t]) r"
  by (induction rule: lexes.induct) (auto intro: lexes.intros)

lemma lexes_suffix: "lexes s ts v \<Longrightarrow> \<exists>u. s = u @ v"
proof (induction rule: lexes.induct)
  case (lexes_more s t r ts v)
  then show ?case using lexer_next_shrinks [of s t r] by (metis append.assoc)
qed simp

lemma lexes_tokens: "lexes s ts v \<Longrightarrow> tokens s = ts @ tokens v"
proof (induction rule: lexes.induct)
  case (lexes_more s t r ts v)
  then show ?case by (subst tokens.simps) simp
qed simp

lemma tokens_Nil [simp]: "tokens [] = []"
proof -
  have "skip_trivia [] = []" using skip_trivia_suffix [of "[]"] by simp
  then show ?thesis by (subst tokens.simps) (simp add: lexer_next_def)
qed

lemma lexes_local: "lexes (u @ v) ts v \<Longrightarrow> tokens u = ts"
proof (induction "u @ v" ts v arbitrary: u rule: lexes.induct)
  case (lexes_more t r ts v)
  then obtain u' where r: "r = u' @ v" using lexes_suffix by blast
  then have "lexer_next u = Some (t, u')" using lexes_more.hyps(1) lexer_next_local by blast
  moreover have "tokens u' = ts" using lexes_more.hyps(3) r by blast
  ultimately show ?case by (subst tokens.simps) simp
qed simp

text \<open>The words of a token list, and how they come apart at a semicolon.\<close>

definition words_of :: "bool \<Rightarrow> token list \<Rightarrow> string list list" where
  "words_of k ts = words_end (foldl (words_step k) ([], [], False) ts)"

lemma words_step_prefix:
  "words_step k (a @ b, ws, j) t = (case words_step k (b, ws, j) t of (c, ws', j') \<Rightarrow> (a @ c, ws', j'))"
  by (cases t) simp_all

lemma words_fold_prefix:
  "foldl (words_step k) (a @ b, ws, j) ts =
     (case foldl (words_step k) (b, ws, j) ts of (c, ws', j') \<Rightarrow> (a @ c, ws', j'))"
proof (induction ts arbitrary: b ws j)
  case (Cons t ts)
  obtain c ws' j' where w: "words_step k (b, ws, j) t = (c, ws', j')" by (cases "words_step k (b, ws, j) t") auto
  show ?case using Cons [of c ws' j'] by (simp add: words_step_prefix w)
qed simp

lemma words_end_prefix:
  "words_end (foldl (words_step k) (a, [], False) us) = a @ words_of k us"
  using words_fold_prefix [of k a "[]" "[]" False us]
  by (cases "foldl (words_step k) ([], [], False) us") (simp add: words_of_def words_end_def)

lemma words_of_split: "words_of k (ts @ Semicolon # us) = words_of k ts @ words_of k us"
proof -
  obtain a ws j where f: "foldl (words_step k) ([], [], False) ts = (a, ws, j)"
    by (cases "foldl (words_step k) ([], [], False) ts") auto
  have "foldl (words_step k) ([], [], False) (ts @ [Semicolon]) = (words_end (a, ws, j), [], False)"
    by (simp add: f words_end_def)
  then have "words_of k (ts @ Semicolon # us) =
      words_end (foldl (words_step k) (words_end (a, ws, j), [], False) us)"
    by (simp add: words_of_def)
  then show ?thesis unfolding words_end_prefix by (simp add: words_of_def f)
qed

lemma push_statement_words:
  "concat (map (\<lambda>s. statement_words s k) (push_statement found text)) =
   concat (map (\<lambda>s. statement_words s k) found) @ words_of k (tokens text)"
proof (cases "skip_trivia text = []")
  case True
  then have "tokens text = []" by (subst tokens.simps) (simp add: lexer_next_def)
  then show ?thesis using True by (simp add: push_statement_def words_of_def words_end_def)
qed (simp add: push_statement_def statement_words_def words_of_def)

lemma statements_loop_words:
  assumes "sql = pre @ seg @ rest" "start = length pre" "lexes (seg @ rest) ts rest"
  shows "concat (map (\<lambda>s. statement_words s k) (statements_loop sql rest start found)) =
         concat (map (\<lambda>s. statement_words s k) found) @ words_of k (ts @ tokens rest)"
  using assms
proof (induction sql rest start found arbitrary: pre seg ts rule: statements_loop.induct)
  case (1 sql rest start found)
  have seg: "drop start sql = seg @ rest" "drop start (take (length sql - length rest) sql) = seg"
    using 1(3,4) by simp_all
  show ?case
  proof (cases "lexer_next rest")
    case None
    then have "tokens rest = []" by (subst tokens.simps) simp
    moreover from this have "tokens (seg @ rest) = ts" using lexes_tokens [OF 1(5)] by simp
    ultimately show ?thesis
      by (subst statements_loop.simps) (simp add: None push_statement_words seg)
  next
    case (Some p)
    then obtain t r where t: "lexer_next rest = Some (t, r)" by (cases p) auto
    obtain w where w: "rest = w @ r" using lexer_next_shrinks [OF t] by blast
    have ts: "tokens rest = t # tokens r" using t by (subst tokens.simps) simp
    show ?thesis
    proof (cases "t = Semicolon")
      case True
      have "concat (map (\<lambda>s. statement_words s k) (statements_loop sql r (length sql - length r)
              (push_statement found seg))) =
            concat (map (\<lambda>s. statement_words s k) (push_statement found seg)) @ words_of k ([] @ tokens r)"
        using 1(1) [OF refl t refl True, of "pre @ seg @ w" "[]" "[]"] 1(3) w seg by (simp add: lexes_none)
      then show ?thesis using t True
        by (subst statements_loop.simps)
           (simp add: push_statement_words lexes_local [OF 1(5)] ts words_of_split seg)
    next
      case False
      have "lexes (seg @ w @ r) (ts @ [t]) r" using lexes_snoc [OF 1(5) t] w by simp
      then have "concat (map (\<lambda>s. statement_words s k) (statements_loop sql r start found)) =
            concat (map (\<lambda>s. statement_words s k) found) @ words_of k ((ts @ [t]) @ tokens r)"
        using 1(2) [OF refl t refl False, of pre "seg @ w" "ts @ [t]"] 1(3,4) w by simp
      then show ?thesis using t False by (subst statements_loop.simps) (simp add: ts)
    qed
  qed
qed

text \<open>
  C23. The two splitters of a query agree. The keywords of the whole query, statement by statement,
  are the keywords of the statement texts, one after the other, whatever the query holds: literals,
  comments and dollar quotes with semicolons inside, unterminated ones, empty statements.
\<close>

theorem splitters_agree:
  "statement_words sql keep_dots = concat (map (\<lambda>s. statement_words s keep_dots) (statements sql))"
  using statements_loop_words [of sql "[]" "[]" sql 0 "[]" keep_dots "[]"]
  by (simp add: statements_def lexes_none statement_words_def words_of_def)

end
