(* ===== verification/Sql_Data.thy ===== *)
theory Sql_Data
  imports Sql_Split
begin

text \<open>
  What a tenant puts inside a literal, a quoted identifier, a dollar-quoted body or a comment does not
  reach the tokens. The quoting functions here are the rules of the server's documentation, against
  which the lexer of \<^verbatim>\<open>crates/pgprox-core/src/sql.rs\<close> is judged.
\<close>

subsection \<open>Quoting, as the server reads it\<close>

text \<open>\<open>'...'\<close> with quotes doubled, \<open>E'...'\<close> with quotes and backslashes escaped, \<open>"..."\<close> with quotes doubled.\<close>

definition double_up :: "char \<Rightarrow> string \<Rightarrow> string" where
  "double_up q d = concat (map (\<lambda>c. if c = q then [q, q] else [c]) d)"

definition quote_literal :: "string \<Rightarrow> string" where
  "quote_literal d = CHR 0x27 # double_up CHR 0x27 d @ [CHR 0x27]"

definition quote_ident :: "string \<Rightarrow> string" where
  "quote_ident d = CHR 0x22 # double_up CHR 0x22 d @ [CHR 0x22]"

definition escape_up :: "string \<Rightarrow> string" where
  "escape_up d = concat (map (\<lambda>c. if c = CHR 0x27 \<or> c = CHR 0x5C then [CHR 0x5C, c] else [c]) d)"

definition quote_escaped :: "string \<Rightarrow> string" where
  "quote_escaped d = CHR ''E'' # CHR 0x27 # escape_up d @ [CHR 0x27]"

definition dollar_delim :: "string \<Rightarrow> string" where
  "dollar_delim tag = CHR ''$'' # tag @ [CHR ''$'']"

lemmas quoting_defs = double_up_def quote_literal_def quote_ident_def escape_up_def quote_escaped_def dollar_delim_def

subsection \<open>The scanners stop where the quoting ends\<close>

lemma single_scan_doubled:
  assumes "\<not> starts_with rest [CHR 0x27]"
  shows "single_scan False (double_up CHR 0x27 d @ CHR 0x27 # rest) = length (double_up CHR 0x27 d) + 1"
proof (induction d)
  case Nil
  then show ?case using assms by (cases rest) (auto simp: double_up_def starts_with_Cons)
next
  case (Cons c d)
  obtain x xs where x: "double_up CHR 0x27 d @ CHR 0x27 # rest = x # xs"
    by (cases "double_up CHR 0x27 d @ CHR 0x27 # rest") auto
  show ?case using Cons x by (simp add: double_up_def)
qed

lemma double_scan_doubled:
  assumes "\<not> starts_with rest [CHR 0x22]"
  shows "double_scan (double_up CHR 0x22 d @ CHR 0x22 # rest) = length (double_up CHR 0x22 d) + 1"
proof (induction d)
  case Nil
  then show ?case using assms by (cases rest) (auto simp: double_up_def starts_with_Cons)
next
  case (Cons c d)
  obtain x xs where x: "double_up CHR 0x22 d @ CHR 0x22 # rest = x # xs"
    by (cases "double_up CHR 0x22 d @ CHR 0x22 # rest") auto
  show ?case using Cons x by (simp add: double_up_def)
qed

lemma single_scan_escaped:
  assumes "\<not> starts_with rest [CHR 0x27]"
  shows "single_scan True (escape_up d @ CHR 0x27 # rest) = length (escape_up d) + 1"
proof (induction d)
  case Nil
  then show ?case using assms by (cases rest) (auto simp: escape_up_def starts_with_Cons)
next
  case (Cons c d)
  obtain x xs where x: "escape_up d @ CHR 0x27 # rest = x # xs"
    by (cases "escape_up d @ CHR 0x27 # rest") auto
  show ?case using Cons x by (simp add: escape_up_def)
qed

lemma tokens_at: "skip_trivia s = c # s' \<Longrightarrow> next_of c (c # s') = (t, r) \<Longrightarrow> tokens s = t # tokens r"
  by (subst tokens.simps) (simp add: lexer_next_def)

lemma tokens_literal:
  assumes "\<not> starts_with rest [CHR 0x27]"
  shows "tokens (quote_literal d @ rest) = Quoted # tokens rest"
proof -
  let ?s = "double_up CHR 0x27 d @ CHR 0x27 # rest"
  have "skip_trivia (CHR 0x27 # ?s) = CHR 0x27 # ?s"
    by (rule skip_trivia_here) (simp_all add: is_ascii_def is_ascii_whitespace_def)
  moreover have "next_of CHR 0x27 (CHR 0x27 # ?s) = (Quoted, rest)"
    using single_scan_doubled [OF assms] by (simp add: next_of_def single_quoted_end_def)
  ultimately show ?thesis using tokens_at [of "CHR 0x27 # ?s"] by (simp add: quote_literal_def)
qed

lemma tokens_ident:
  assumes "\<not> starts_with rest [CHR 0x22]"
  shows "tokens (quote_ident d @ rest) = Quoted # tokens rest"
proof -
  let ?s = "double_up CHR 0x22 d @ CHR 0x22 # rest"
  have "skip_trivia (CHR 0x22 # ?s) = CHR 0x22 # ?s"
    by (rule skip_trivia_here) (simp_all add: is_ascii_def is_ascii_whitespace_def)
  moreover have "next_of CHR 0x22 (CHR 0x22 # ?s) = (Quoted, rest)"
    using double_scan_doubled [OF assms] by (simp add: next_of_def double_quoted_end_def)
  ultimately show ?thesis using tokens_at [of "CHR 0x22 # ?s"] by (simp add: quote_ident_def)
qed

lemma tokens_escaped:
  assumes "\<not> starts_with rest [CHR 0x27]"
  shows "tokens (quote_escaped d @ rest) = Quoted # tokens rest"
proof -
  let ?s = "CHR 0x27 # escape_up d @ CHR 0x27 # rest"
  have "skip_trivia (CHR ''E'' # ?s) = CHR ''E'' # ?s"
    by (rule skip_trivia_here) (simp_all add: is_ascii_def is_ascii_whitespace_def)
  moreover have "word_end (CHR ''E'' # ?s) = 1"
    by (simp add: is_ascii_def is_ascii_alphanumeric_def is_ascii_alphabetic_def is_ascii_digit_def)
  moreover have "is_string_introducer ''E''" "eq_ignore_ascii_case ''E'' ''e''"
    by (simp_all add: is_string_introducer_def ascii_eval)
  ultimately have "next_of CHR ''E'' (CHR ''E'' # ?s) = (Quoted, rest)"
    using single_scan_escaped [OF assms]
    by (simp add: next_of_def next_word_def Let_def single_quoted_end_def starts_with_Cons is_word_char_def is_ascii_def
        is_ascii_alphanumeric_def is_ascii_alphabetic_def)
  then show ?thesis
    using tokens_at [OF \<open>skip_trivia _ = _\<close>] by (simp add: quote_escaped_def)
qed

lemma tag_no_dollar: "is_dollar_tag tag \<Longrightarrow> CHR ''$'' \<notin> set tag"
  by (auto simp: is_dollar_tag_def list_all_iff is_ascii_alphanumeric_def is_ascii_alphabetic_def is_ascii_digit_def
      is_ascii_def split: list.splits)

lemma tokens_dollar:
  assumes "is_dollar_tag tag" and "find_sub (dollar_delim tag) (body @ dollar_delim tag @ rest) = Some (length body)"
  shows "tokens (dollar_delim tag @ body @ dollar_delim tag @ rest) = Quoted # tokens rest"
proof -
  let ?w = "tag @ CHR ''$'' # body @ dollar_delim tag @ rest"
  have f: "find_char CHR ''$'' ?w = Some (length tag)"
    using tag_no_dollar [OF assms(1)] by (simp add: find_char_append find_char_None [THEN iffD2])
  have t: "dollar_delim tag = take (length tag + 2) (CHR ''$'' # ?w)" by (simp add: dollar_delim_def)
  have "dollar_quoted_end (CHR ''$'' # ?w) = Some (2 * (length tag + 2) + length body)"
    using dollar_quoted_end_Cons [OF f t] assms by simp
  moreover have "drop (2 * (length tag + 2) + length body) (CHR ''$'' # ?w) = rest"
    using drop_length_append [of "2 * (length tag + 2) + length body" "dollar_delim tag @ body @ dollar_delim tag" rest] by (simp add: dollar_delim_def add_ac)
  ultimately have "next_of CHR ''$'' (CHR ''$'' # ?w) = (Quoted, rest)" by (simp add: next_of_def)
  moreover have "skip_trivia (CHR ''$'' # ?w) = CHR ''$'' # ?w"
    by (rule skip_trivia_here) (simp_all add: is_ascii_def is_ascii_whitespace_def)
  ultimately show ?thesis using tokens_at by (simp add: dollar_delim_def)
qed

lemma tokens_line_comment:
  assumes "CHR 0x0A \<notin> set d"
  shows "tokens (''--'' @ d @ CHR 0x0A # rest) = tokens rest"
proof -
  let ?s = "''--'' @ d @ CHR 0x0A # rest"
  have "line_comment_end ?s = length d + 3"
    using assms by (simp add: line_comment_end_def find_char_append find_char_None [THEN iffD2])
  moreover have "drop (length d + 3) ?s = rest"
    using drop_length_append [of "length d + 3" "''--'' @ d @ [CHR 0x0A]" rest] by simp
  ultimately have "skip_trivia ?s = skip_trivia rest"
    by (subst trivia_line) (simp_all add: trim_leading_space_def is_ascii_def is_ascii_whitespace_def starts_with_Cons)
  then show ?thesis by (subst (1 2) tokens.simps) (simp only: lexer_next_def)
qed

text \<open>Comment bodies in which every \<open>/*\<close> is closed by its own \<open>*/\<close>.\<close>

inductive comment_body :: "string \<Rightarrow> bool" where
  comment_empty: "comment_body []"
| comment_char: "comment_body d \<Longrightarrow> c \<noteq> CHR ''/'' \<Longrightarrow> c \<noteq> CHR ''*'' \<Longrightarrow> comment_body (c # d)"
| comment_nested: "comment_body d \<Longrightarrow> comment_body d' \<Longrightarrow> comment_body (''/*'' @ d @ ''*/'' @ d')"

lemma comment_scan_body:
  assumes "comment_body d"
  shows "comment_scan (Suc n) (d @ ''*/'' @ rest) =
         length d + 2 + (if n = 0 then 0 else comment_scan n rest)"
  using assms
proof (induction arbitrary: n rest rule: comment_body.induct)
  case (comment_char d c)
  obtain x xs where "d @ ''*/'' @ rest = x # xs" by (cases d) auto
  then show ?case using comment_char by (cases d) auto
next
  case (comment_nested d d')
  then show ?case using comment_nested.IH(1) [of "Suc n" "d' @ ''*/'' @ rest"] comment_nested.IH(2) [of n rest] by simp
qed simp

lemma tokens_block_comment:
  assumes "comment_body d"
  shows "tokens (''/*'' @ d @ ''*/'' @ rest) = tokens rest"
proof -
  let ?s = "''/*'' @ d @ ''*/'' @ rest"
  have "block_comment_end ?s = length d + 4"
    using comment_scan_body [OF assms, of 0 rest] by (simp add: block_comment_end_def)
  moreover have "drop (length d + 4) ?s = rest"
    using drop_length_append [of "length d + 4" "''/*'' @ d @ ''*/''" rest] by simp
  ultimately have "skip_trivia ?s = skip_trivia rest"
    by (subst trivia_block) (simp_all add: trim_leading_space_def is_ascii_def is_ascii_whitespace_def starts_with_Cons)
  then show ?thesis by (subst (1 2) tokens.simps) (simp only: lexer_next_def)
qed



end
