(* ===== verification/Ordered_Map.thy ===== *)
theory Ordered_Map
  imports Prelude "HOL-Library.List_Lexorder" "HOL-Library.Char_ord"
begin

text \<open>
  \<open>std::collections::BTreeMap\<close>: the entries in the order of their keys. Strings compare byte by byte.
  It is an instance of the map interface of the prelude, so what the components prove of a map holds
  of it too, and of its extension by an order, in which maps with the same lookups are equal.
\<close>

locale ordered_map = hash_map get put del retain entries wf
  for get :: "'m \<Rightarrow> 'k::linorder \<Rightarrow> 'v option" and put del retain and entries :: "'m \<Rightarrow> ('k \<times> 'v) list" and wf +
  assumes entries_sorted: "wf m \<Longrightarrow> sorted_wrt (<) (map fst (entries m))"
    and entries_inject: "entries m = entries n \<Longrightarrow> m = n"
begin

lemma same_lookups:
  assumes "wf m" "wf n" "\<And>k. get m k = get n k"
  shows "m = n"
proof (rule entries_inject)
  have s: "set (entries m) = set (entries n)"
    using get_entries [OF assms(1)] get_entries [OF assms(2)] assms(3) by auto
  have keys: "map fst (entries m) = map fst (entries n)"
    using entries_sorted [OF assms(1)] entries_sorted [OF assms(2)] s by (intro strict_sorted_equal) auto
  have len: "length (entries m) = length (entries n)" using keys by (metis length_map)
  show "entries m = entries n"
  proof (rule nth_equalityI [OF len])
    fix i assume i: "i < length (entries m)"
    then have k: "fst (entries m ! i) = fst (entries n ! i)" using keys len by (metis nth_map)
    have "get m (fst (entries m ! i)) = Some (snd (entries m ! i))" "get n (fst (entries n ! i)) = Some (snd (entries n ! i))"
      using get_entries [OF assms(1)] get_entries [OF assms(2)] i len by simp_all
    then have "snd (entries m ! i) = snd (entries n ! i)" using assms(3) k by simp
    then show "entries m ! i = entries n ! i" using k by (rule prod_eqI [rotated])
  qed
qed

end

fun bt_put :: "'k::linorder \<Rightarrow> 'v \<Rightarrow> ('k \<times> 'v) list \<Rightarrow> ('k \<times> 'v) list" where
  "bt_put k v [] = [(k, v)]"
| "bt_put k v ((j, w) # m) =
     (if k = j then (k, v) # m else if k < j then (k, v) # (j, w) # m else (j, w) # bt_put k v m)"

definition bt_del :: "'k::linorder \<Rightarrow> ('k \<times> 'v) list \<Rightarrow> ('k \<times> 'v) list" where
  "bt_del k m = filter (\<lambda>(j, _). j \<noteq> k) m"

definition bt_wf :: "('k::linorder \<times> 'v) list \<Rightarrow> bool" where
  "bt_wf m = sorted_wrt (<) (map fst m)"

abbreviation bt_get :: "('k::linorder \<times> 'v) list \<Rightarrow> 'k \<Rightarrow> 'v option" where
  "bt_get \<equiv> map_of"

lemma fst_bt_put: "fst ` set (bt_put k v m) = insert k (fst ` set m)"
  by (induction k v m rule: bt_put.induct) auto

lemma bt_wf_put: "bt_wf m \<Longrightarrow> bt_wf (bt_put k v m)"
  unfolding bt_wf_def by (induction k v m rule: bt_put.induct) (auto simp: fst_bt_put)

lemma bt_wf_filter: "bt_wf m \<Longrightarrow> bt_wf (filter P m)"
  unfolding bt_wf_def by (induction m) auto

lemma bt_wf_distinct: "bt_wf m \<Longrightarrow> distinct (map fst m)"
  unfolding bt_wf_def by (simp add: strict_sorted_iff)

lemma mset_bt_put: "bt_wf m \<Longrightarrow> mset (bt_put k v m) = add_mset (k, v) (mset (filter (\<lambda>(j, _). j \<noteq> k) m))"
proof (induction k v m rule: bt_put.induct)
  case (2 k v j w m)
  have *: "\<forall>x \<in> set m. j < fst x" using 2(2) by (auto simp: bt_wf_def)
  have **: "k \<le> j \<Longrightarrow> filter (\<lambda>(j, _). j \<noteq> k) m = m" using * by (intro filter_True) force
  have "k \<le> j \<Longrightarrow> {#(j, _) \<in># mset m. j \<noteq> k#} = mset m" using ** by (metis mset_filter)
  then show ?case using 2 by (auto simp: bt_wf_def)
qed simp

interpretation bt: ordered_map bt_get bt_put bt_del filter "\<lambda>m. m" bt_wf
proof
  fix m :: "('k::linorder \<times> 'v) list" and j k :: 'k and v :: 'v and P :: "'k \<times> 'v \<Rightarrow> bool"
  show "map_of (bt_put k v m) j = (if j = k then Some v else map_of m j)"
    by (induction k v m rule: bt_put.induct) auto
  show "map_of (bt_del k m) j = (if j = k then None else map_of m j)"
    unfolding bt_del_def by (induction m) auto
  show "bt_wf m \<Longrightarrow> map_of m k = Some v \<longleftrightarrow> (k, v) \<in> set m"
    using bt_wf_distinct [of m] by (auto dest: map_of_SomeD)
  show "bt_wf m \<Longrightarrow> distinct (map fst m)" by (rule bt_wf_distinct)
  show "filter P m = filter P m" by simp
  show "bt_del k m = filter (\<lambda>(j, _). j \<noteq> k) m" by (rule bt_del_def)
  show "bt_wf m \<Longrightarrow> mset (bt_put k v m) = add_mset (k, v) (mset (bt_del k m))"
    by (simp add: mset_bt_put bt_del_def)
  show "bt_wf m \<Longrightarrow> bt_wf (bt_put k v m)" by (rule bt_wf_put)
  show "bt_wf m \<Longrightarrow> bt_wf (bt_del k m)" unfolding bt_del_def by (rule bt_wf_filter)
  show "bt_wf m \<Longrightarrow> bt_wf (filter P m)" by (rule bt_wf_filter)
  show "bt_wf m \<Longrightarrow> sorted_wrt (<) (map fst m)" by (simp only: bt_wf_def)
qed

end
