(* ===== verification/Statements.thy ===== *)
theory Statements
  imports Sql Ordered_Map Core_Cluster
begin

text \<open>
  \<^verbatim>\<open>crates/pgprox-pool/src/statements.rs\<close>: prepared statements under transaction pooling. A client's
  statement gets a global name derived from its SQL; a session remembers which SQL its own names stand
  for, and a connection remembers which global names the server holds for it, least recently used
  first. The properties are that the name carries the whole 128-bit hash within the server's identifier
  limit, and that the connection's map is an LRU queue of the configured size.
\<close>

unbundle bit_operations_syntax

record statement_config =
  per_connection_cap :: nat

definition statement_config_default :: statement_config where
  "statement_config_default = \<lparr>per_connection_cap = 128\<rparr>"

subsection \<open>The global name\<close>

type_synonym global_name = string

definition hash_from :: "u64 \<Rightarrow> string \<Rightarrow> u64" where
  "hash_from basis bytes =
     (let hash = foldl (\<lambda>h byte. (h XOR byte64 byte) * 0x100000001b3) basis bytes;
          z = hash + 0x9e3779b97f4a7c15;
          z = (z XOR drop_bit 30 z) * 0xbf58476d1ce4e5b9;
          z = (z XOR drop_bit 27 z) * 0x94d049bb133111eb
      in z XOR drop_bit 31 z)"

definition sql_hash :: "string \<Rightarrow> u64" where
  "sql_hash bytes = hash_from 0xcbf29ce484222325 bytes"

definition wide_hash :: "string \<Rightarrow> u64 \<times> u64" where
  "wide_hash bytes = (sql_hash bytes, hash_from 0x9E3779B97F4A7C15 (rev bytes))"

text \<open>The format specifier \<open>{:016x}\<close>.\<close>

definition hex16 :: "u64 \<Rightarrow> string" where
  "hex16 w = pad_zero 16 (to_ascii_lowercase (write_radix 16 (unat w)))"

definition for_sql :: "string \<Rightarrow> global_name" where
  "for_sql sql = (case wide_hash sql of (low, high) \<Rightarrow> ''pgprox_'' @ hex16 high @ hex16 low)"

definition max_identifier :: nat where
  "max_identifier = 63"

subsection \<open>What a session has prepared\<close>

record prepared_statement =
  p_sql :: string
  p_global :: global_name

type_synonym session_statements = "(string, prepared_statement) hmap"

definition deallocates_everything :: "string \<Rightarrow> bool" where
  "deallocates_everything sql =
     (case lexer_pull sql of
        (Some (Word verb), lexer) \<Rightarrow>
          if \<not> eq_ignore_ascii_case verb ''discard'' \<and> \<not> eq_ignore_ascii_case verb ''deallocate'' then False
          else
            (let word = (\<lambda>t. case t of Some (Word w) \<Rightarrow> w | _ \<Rightarrow> []);
                 (token, rest) = lexer_pull lexer;
                 what = word token
             in eq_ignore_ascii_case
                  (if eq_ignore_ascii_case what ''prepare'' then word (fst (lexer_pull rest)) else what) ''all'')
      | _ \<Rightarrow> False)"

definition ss_new :: session_statements where
  "ss_new = []"

definition ss_parse :: "string \<Rightarrow> string \<Rightarrow> session_statements \<Rightarrow> global_name \<times> session_statements" where
  "ss_parse client_name sql ss =
     (let global = for_sql sql in (global, hm_put client_name \<lparr>p_sql = sql, p_global = global\<rparr> ss))"

definition ss_get :: "session_statements \<Rightarrow> string \<Rightarrow> prepared_statement option" where
  "ss_get ss client_name = hm_get ss client_name"

definition ss_close :: "string \<Rightarrow> session_statements \<Rightarrow> prepared_statement option \<times> session_statements" where
  "ss_close client_name ss = (hm_get ss client_name, hm_del client_name ss)"

definition ss_close_all :: "session_statements \<Rightarrow> session_statements" where
  "ss_close_all ss = []"

definition ss_iter :: "session_statements \<Rightarrow> prepared_statement list" where
  "ss_iter ss = map snd ss"

subsection \<open>What a connection holds\<close>

record connection_statements =
  cs_config :: statement_config
  cs_held :: "(global_name, nat) hmap"
  cs_unnamed :: u64
  cs_tick :: nat

datatype preparation = AlreadyHeld | Replay "global_name list"

definition cs_new :: "statement_config \<Rightarrow> connection_statements" where
  "cs_new config = \<lparr>cs_config = config, cs_held = [], cs_unnamed = 0, cs_tick = 0\<rparr>"

definition note_unnamed :: "string \<Rightarrow> connection_statements \<Rightarrow> connection_statements" where
  "note_unnamed sql cs = cs\<lparr>cs_unnamed := sql_hash sql\<rparr>"

definition holds_unnamed :: "connection_statements \<Rightarrow> string \<Rightarrow> bool" where
  "holds_unnamed cs sql = (let hash = sql_hash sql in hash \<noteq> 0 \<and> cs_unnamed cs = hash)"

definition holds :: "connection_statements \<Rightarrow> global_name \<Rightarrow> bool" where
  "holds cs global = (hm_get (cs_held cs) global \<noteq> None)"

definition older :: "global_name \<times> nat \<Rightarrow> global_name \<times> nat \<Rightarrow> global_name \<times> nat" where
  "older a b = (if snd b < snd a \<or> snd b = snd a \<and> fst b < fst a then b else a)"

definition least_recently_used :: "(global_name, nat) hmap \<Rightarrow> global_name option" where
  "least_recently_used held = (case held of [] \<Rightarrow> None | e # es \<Rightarrow> Some (fst (foldl older e es)))"

text \<open>The eviction loop; what is left and the victims in order.\<close>

lemma foldl_older_mem: "foldl older e es \<in> set (e # es)"
  by (induction es arbitrary: e) (auto simp: older_def)

lemma lru_mem: "least_recently_used held = Some v \<Longrightarrow> v \<in> fst ` set held"
proof (cases held)
  case (Cons e es)
  assume "least_recently_used held = Some v"
  then have "v = fst (foldl older e es)" by (simp add: least_recently_used_def Cons)
  then show ?thesis using foldl_older_mem [of e es] unfolding Cons by (metis imageI)
qed (simp add: least_recently_used_def)

lemma hm_del_shrinks: "v \<in> fst ` set m \<Longrightarrow> length (hm_del v m) < length m"
proof -
  assume "v \<in> fst ` set m"
  then obtain t where "(v, t) \<in> set m" by auto
  then show ?thesis unfolding delete_filter by (intro length_filter_less [of "(v, t)"]) simp_all
qed

function evict_loop :: "nat \<Rightarrow> (global_name, nat) hmap \<Rightarrow> global_name list \<Rightarrow> global_name list \<times> (global_name, nat) hmap" where
  "evict_loop cap held evict =
     (if length held + 1 > cap then
        (case least_recently_used held of
           None \<Rightarrow> (evict, held)
         | Some victim \<Rightarrow> evict_loop cap (hm_del victim held) (evict @ [victim]))
      else (evict, held))"
  by pat_completeness auto
termination
  by (relation "measure (\<lambda>(cap, held, evict). length held)") (auto dest!: lru_mem hm_del_shrinks)

declare evict_loop.simps [simp del]

definition prepare_for :: "global_name \<Rightarrow> connection_statements \<Rightarrow> preparation \<times> connection_statements" where
  "prepare_for global cs0 =
     (let cs = cs0\<lparr>cs_tick := cs_tick cs0 + 1\<rparr>
      in case hm_get (cs_held cs) global of
           Some _ \<Rightarrow> (AlreadyHeld, cs\<lparr>cs_held := hm_put global (cs_tick cs) (cs_held cs)\<rparr>)
         | None \<Rightarrow>
             (let cap = per_connection_cap (cs_config cs);
                  (evict, held) = evict_loop cap (cs_held cs) []
              in (Replay evict,
                  cs\<lparr>cs_held := if cap > 0 then hm_put global (cs_tick cs) held else held\<rparr>)))"

definition cs_forget :: "global_name \<Rightarrow> connection_statements \<Rightarrow> connection_statements" where
  "cs_forget global cs = cs\<lparr>cs_held := hm_del global (cs_held cs)\<rparr>"

definition cs_forget_all :: "connection_statements \<Rightarrow> connection_statements" where
  "cs_forget_all cs = cs\<lparr>cs_held := [], cs_unnamed := 0\<rparr>"

subsection \<open>The name is the hash\<close>

lemma digit_val_lower: "digit_val 16 (lower c) = digit_val 16 c"
proof (cases "65 \<le> (of_char c :: nat) \<and> of_char c \<le> (90 :: nat)")
  case True
  then have "of_char (lower c) = (of_char c + 32 :: nat)" by (simp add: lower_def take_bit_eq_mod)
  then show ?thesis using True by (simp add: digit_val_def Let_def)
qed (auto simp: lower_def)

lemma read_digits_lower: "read_digits 16 lim acc (to_ascii_lowercase s) = read_digits 16 lim acc s"
  by (induction s arbitrary: acc) (auto simp: to_ascii_lowercase_def digit_val_lower split: option.split)

lemma unat_bound: "unat (w :: u64) < 2 ^ 64"
  using unsigned_less [of w, where 'a = nat] by simp

lemma read_hex16: "read_digits 16 (2 ^ 64) 0 (hex16 w) = Some (unat w)"
proof -
  have "unat w \<le> 2 ^ 64" using unat_bound [of w] by simp
  then show ?thesis
    using read_write_digits [of 16 "unat w" "2 ^ 64"]
    by (simp add: hex16_def pad_zero_def read_digits_zeros read_digits_lower)
qed

lemma write_radix_length: "n < 16 ^ Suc k \<Longrightarrow> length (write_radix 16 n) \<le> Suc k"
proof (induction k arbitrary: n)
  case 0
  then show ?case by (subst write_radix.simps) simp
next
  case (Suc k)
  have "n div 16 < 16 ^ Suc k" using Suc.prems by (simp add: less_mult_imp_div_less)
  then show ?case using Suc.IH [of "n div 16"] by (subst write_radix.simps) simp
qed

lemma length_hex16: "length (hex16 w) = 16"
proof -
  have "unat w < 16 ^ Suc 15" using unat_bound [of w] by simp
  then show ?thesis using write_radix_length [of "unat w" 15] by (simp add: hex16_def pad_zero_def to_ascii_lowercase_def)
qed

lemma hex16_inj: "hex16 a = hex16 b \<longleftrightarrow> a = b"
proof
  assume "hex16 a = hex16 b"
  then have "unat a = unat b" using read_hex16 [of a] read_hex16 [of b] by simp
  then show "a = b" by (simp add: word_unat_eq_iff)
qed simp

text \<open>
  C33. The global name is the 128-bit hash and nothing less. Two texts share a name exactly when both
  halves of their hashes agree, and the name is 39 bytes long, below the limit at which the server
  would cut identifiers short.
\<close>

theorem global_name_faithful:
  "(for_sql a = for_sql b \<longleftrightarrow> wide_hash a = wide_hash b) \<and>
   length (for_sql a) = 39 \<and> length (for_sql a) \<le> max_identifier"
  by (auto simp: for_sql_def length_hex16 max_identifier_def hex16_inj split: prod.splits)

subsection \<open>The map is an LRU queue\<close>

text \<open>The names held, least recently used first.\<close>

definition by_use :: "connection_statements \<Rightarrow> global_name list" where
  "by_use cs = map fst (sort_key snd (cs_held cs))"

text \<open>The queue as a specification: a use moves a name to the back, a new name pushes the oldest out.\<close>

definition lru_use :: "nat \<Rightarrow> global_name \<Rightarrow> global_name list \<Rightarrow> preparation \<times> global_name list" where
  "lru_use cap g q =
     (if g \<in> set q then (AlreadyHeld, filter (\<lambda>n. n \<noteq> g) q @ [g])
      else let k = length q + 1 - cap
           in (Replay (take k q), if cap > 0 then drop k q @ [g] else drop k q))"

definition held_inv :: "(global_name, nat) hmap \<Rightarrow> nat \<Rightarrow> bool" where
  "held_inv held tick = (hm_wf held \<and> inj_on snd (set held) \<and> (\<forall>e \<in> set held. snd e \<le> tick))"

definition cs_inv :: "connection_statements \<Rightarrow> bool" where
  "cs_inv cs = (held_inv (cs_held cs) (cs_tick cs) \<and> length (cs_held cs) \<le> per_connection_cap (cs_config cs))"

lemma held_inv_filter: "held_inv held t \<Longrightarrow> held_inv (filter P held) t"
  by (auto simp: held_inv_def intro: inj_on_subset distinct_map_filter)

lemma sort_filter:
  assumes "held_inv held t"
  shows "sort_key snd (filter P held) = filter P (sort_key snd held)"
proof (rule sort_key_inj_key_eq)
  show "inj_on snd (set (filter P held))" using assms by (auto simp: held_inv_def intro: inj_on_subset)
  show "sorted (map snd (filter P (sort_key snd held)))" by (rule sorted_filter) simp
qed simp

lemma sort_put:
  assumes "held_inv held t"
  shows "sort_key snd (hm_put g (Suc t) held) = filter (\<lambda>e. fst e \<noteq> g) (sort_key snd held) @ [(g, Suc t)]"
proof (rule sort_key_inj_key_eq)
  have wf: "hm_wf held" using assms by (simp add: held_inv_def)
  show "mset (hm_put g (Suc t) held) = mset (filter (\<lambda>e. fst e \<noteq> g) (sort_key snd held) @ [(g, Suc t)])"
    using mset_update_alist [OF wf, of g "Suc t"] by (simp add: case_prod_beta')
  have "\<forall>e \<in> set held. snd e \<noteq> Suc t" using assms by (auto simp: held_inv_def)
  then show "inj_on snd (set (hm_put g (Suc t) held))"
    using assms unfolding hm_set_put [OF wf] held_inv_def by (auto simp: inj_on_def)
  show "sorted (map snd (filter (\<lambda>e. fst e \<noteq> g) (sort_key snd held) @ [(g, Suc t)]))"
    using assms by (auto simp: sorted_append held_inv_def intro: sorted_filter)
qed

lemma held_inv_put: "held_inv held t \<Longrightarrow> held_inv (hm_put g (Suc t) held) (Suc t)"
  unfolding held_inv_def by (auto simp: hm_set_put inj_on_def)

lemma foldl_older_least: "\<forall>e' \<in> set (e # es). snd (foldl older e es) \<le> snd e'"
proof (induction es arbitrary: e)
  case (Cons x es)
  have "snd (older e x) \<le> snd e" "snd (older e x) \<le> snd x" by (auto simp: older_def)
  then show ?case using Cons.IH [of "older e x"] by (auto intro: order_trans)
qed simp

lemma lru_hd:
  assumes "held_inv held t" "held \<noteq> []"
  shows "least_recently_used held = Some (fst (hd (sort_key snd held)))"
proof -
  obtain e es where held: "held = e # es" using assms(2) by (cases held) auto
  let ?m = "foldl older e es"
  have "sort_key snd held \<noteq> []" using assms(2) by (metis length_0_conv length_sort)
  then obtain x xs where x: "sort_key snd held = x # xs" by (cases "sort_key snd held") auto
  have set: "set held = set (x # xs)" using set_sort [of snd held] x by simp
  have "sorted (map snd (x # xs))" using sorted_sort_key [of snd held] x by simp
  then have le: "\<forall>y \<in> set held. snd x \<le> snd y" unfolding set by auto
  have m: "?m \<in> set held" using foldl_older_mem [of e es] held by simp
  have h: "x \<in> set held" unfolding set by simp
  have "snd ?m \<le> snd x" using foldl_older_least [of e es] h held by blast
  moreover have "snd x \<le> snd ?m" using le m by blast
  ultimately have "?m = x"
    using assms(1) h m unfolding held_inv_def by (metis inj_onD order_antisym)
  then show ?thesis unfolding x by (simp add: least_recently_used_def held)
qed

lemma evict_loop_lru:
  assumes "held_inv held t" "k = length held + 1 - cap"
  shows "\<exists>held'. evict_loop cap held ev = (ev @ take k (map fst (sort_key snd held)), held') \<and>
    sort_key snd held' = drop k (sort_key snd held) \<and> held_inv held' t"
  using assms
proof (induction cap held ev arbitrary: k rule: evict_loop.induct)
  case (1 cap held ev)
  show ?case
  proof (cases "length held + 1 > cap \<and> held \<noteq> []")
    case False
    then have "evict_loop cap held ev = (ev, held)" "k = 0 \<or> held = []"
      using 1(3) by (auto simp: evict_loop.simps [of cap held] least_recently_used_def)
    then show ?thesis using 1(2) by auto
  next
    case True
    obtain x xs where x: "sort_key snd held = x # xs"
      using True by (cases "sort_key snd held") (auto, metis length_0_conv length_sort)
    have v: "least_recently_used held = Some (fst x)" using lru_hd [OF 1(2)] True x by simp
    have wf: "hm_wf (sort_key snd held)" using 1(2) by (simp add: held_inv_def distinct_map inj_on_def)
    have inv: "held_inv (hm_del (fst x) held) t" unfolding delete_filter by (rule held_inv_filter [OF 1(2)])
    have q: "sort_key snd (hm_del (fst x) held) = xs"
      using wf unfolding delete_filter sort_filter [OF 1(2)] x by (cases x) (force simp: filter_id_conv)
    have len: "length (hm_del (fst x) held) = length xs" using q by (metis length_sort)
    have lh: "length held = Suc (length xs)" using x by (metis length_sort length_Cons)
    have k: "k = Suc (length (hm_del (fst x) held) + 1 - cap)" using 1(3) True len lh by (simp add: Suc_diff_le less_Suc_eq_le)
    obtain held' where "evict_loop cap (hm_del (fst x) held) (ev @ [fst x]) =
        ((ev @ [fst x]) @ take (length (hm_del (fst x) held) + 1 - cap) (map fst xs), held')"
      "sort_key snd held' = drop (length (hm_del (fst x) held) + 1 - cap) xs" "held_inv held' t"
      using 1(1) [OF conjunct1 [OF True] v inv refl] q by auto
    then show ?thesis using True v unfolding k x by (simp add: evict_loop.simps [of cap held])
  qed
qed

lemma set_by_use: "set (by_use cs) = fst ` set (cs_held cs)"
  by (simp add: by_use_def)

lemma length_by_use: "length (by_use cs) = length (cs_held cs)"
  by (simp add: by_use_def)

lemma filter_map_fst: "map fst (filter (\<lambda>e. fst e \<noteq> g) xs) = filter (\<lambda>n. n \<noteq> g) (map fst xs)"
  by (induction xs) auto

lemma by_use_put:
  assumes "held_inv held t"
  shows "map fst (sort_key snd (hm_put g (Suc t) held)) = filter (\<lambda>n. n \<noteq> g) (map fst (sort_key snd held)) @ [g]"
  unfolding sort_put [OF assms] by (simp add: filter_map_fst)

lemma length_held_put:
  assumes "held_inv held t"
  shows "length (hm_put g (Suc t) held) = length (filter (\<lambda>n. n \<noteq> g) (map fst (sort_key snd held))) + 1"
  using arg_cong [OF by_use_put [OF assms, of g], of length] by simp

lemma prepare_for_lru:
  assumes "cs_inv cs"
  shows "(case prepare_for g cs of (p, cs') \<Rightarrow>
            (p, by_use cs') = lru_use (per_connection_cap (cs_config cs)) g (by_use cs) \<and>
            cs_inv cs' \<and> cs_config cs' = cs_config cs)"
proof -
  let ?cap = "per_connection_cap (cs_config cs)" and ?t = "cs_tick cs" and ?q = "sort_key snd (cs_held cs)"
  have inv: "held_inv (cs_held cs) ?t" "length (cs_held cs) \<le> ?cap" using assms by (simp_all add: cs_inv_def)
  have mem: "g \<in> set (by_use cs) \<longleftrightarrow> hm_get (cs_held cs) g \<noteq> None"
    by (simp add: set_by_use map_of_eq_None_iff)
  show ?thesis
  proof (cases "hm_get (cs_held cs) g")
    case (Some u)
    have "length (filter (\<lambda>n. n \<noteq> g) (by_use cs)) < length (by_use cs)"
      using mem Some by (intro length_filter_less [of g]) simp_all
    then have "length (hm_put g (Suc ?t) (cs_held cs)) \<le> ?cap"
      using length_held_put [OF inv(1), of g] inv(2) by (simp add: by_use_def)
    then show ?thesis
      using Some mem held_inv_put [OF inv(1), of g] by_use_put [OF inv(1), of g]
      by (simp add: prepare_for_def Let_def lru_use_def cs_inv_def by_use_def)
  next
    case None
    let ?k = "length (cs_held cs) + 1 - ?cap"
    obtain held' where ev: "evict_loop ?cap (cs_held cs) [] = (take ?k (map fst ?q), held')"
      and q: "sort_key snd held' = drop ?k ?q" and inv': "held_inv held' ?t"
      using evict_loop_lru [OF inv(1) refl, of ?cap "[]"] by auto
    have len: "length held' = length (cs_held cs) - ?k" using arg_cong [OF q, of length] by simp
    have "g \<notin> set (map fst ?q)" using mem None by (simp add: by_use_def)
    then have f: "filter (\<lambda>n. n \<noteq> g) (map fst (sort_key snd held')) = map fst (drop ?k ?q)"
      unfolding q by (auto simp: filter_id_conv) (metis fst_conv image_eqI in_set_dropD set_sort)
    have "length (hm_put g (Suc ?t) held') = length held' + 1" using length_held_put [OF inv', of g] f len by simp
    then have "?cap > 0 \<Longrightarrow> length (hm_put g (Suc ?t) held') \<le> ?cap" "?cap = 0 \<Longrightarrow> length held' \<le> ?cap"
      using len inv(2) by simp_all
    moreover have "held_inv held' (Suc ?t)" using inv' by (auto simp: held_inv_def)
    ultimately show ?thesis
      using None mem ev held_inv_put [OF inv', of g] by_use_put [OF inv', of g] f q
      by (auto simp: prepare_for_def Let_def lru_use_def cs_inv_def by_use_def take_map drop_map)
  qed
qed

subsection \<open>The contract a server can rely on\<close>

text \<open>
  What the path of a statement needs of the record of a connection: making room for a new statement names
  the ones to close, never the new one, and afterwards holds it and everything not named; forgetting drops
  one statement or all of them; noting the unnamed statement changes none. A server that is told of each of
  these, and started in agreement with the record, stays in agreement.
\<close>

locale statement_record =
  fixes has :: "'b \<Rightarrow> global_name \<Rightarrow> bool"
    and room :: "global_name \<Rightarrow> 'b \<Rightarrow> (global_name list \<times> 'b) option"
    and drop_one :: "global_name \<Rightarrow> 'b \<Rightarrow> 'b"
    and drop_all :: "'b \<Rightarrow> 'b"
    and note_it :: "string \<Rightarrow> 'b \<Rightarrow> 'b"
    and sound :: "'b \<Rightarrow> bool"
  assumes room_some: "sound b \<Longrightarrow> \<not> has b g \<Longrightarrow> \<exists>evict b'. room g b = Some (evict, b')"
    and room_sound: "sound b \<Longrightarrow> room g b = Some (evict, b') \<Longrightarrow> sound b'"
    and room_has: "sound b \<Longrightarrow> room g b = Some (evict, b') \<Longrightarrow> has b' x \<longleftrightarrow> x = g \<or> has b x \<and> x \<notin> set evict"
    and room_spares: "sound b \<Longrightarrow> room g b = Some (evict, b') \<Longrightarrow> g \<notin> set evict"
    and drop_one_sound: "sound b \<Longrightarrow> sound (drop_one g b)"
    and drop_one_has: "has (drop_one g b) x \<longleftrightarrow> x \<noteq> g \<and> has b x"
    and drop_all_sound: "sound b \<Longrightarrow> sound (drop_all b)"
    and drop_all_has: "\<not> has (drop_all b) x"
    and note_sound: "sound b \<Longrightarrow> sound (note_it sql b)"
    and note_has: "has (note_it sql b) x = has b x"
begin

definition agrees :: "'b \<Rightarrow> (global_name \<rightharpoonup> 't) \<Rightarrow> bool" where
  "agrees b v \<longleftrightarrow> sound b \<and> (\<forall>g. has b g \<longleftrightarrow> v g \<noteq> None)"

lemma agrees_room:
  assumes "agrees b v" "\<not> has b g"
  obtains evict b' where "room g b = Some (evict, b')" "g \<notin> set evict" "v g = None"
    "agrees b' ((\<lambda>x. if x \<in> set evict then None else v x)(g \<mapsto> t))"
proof -
  have s: "sound b" "\<And>g. has b g \<longleftrightarrow> v g \<noteq> None" using assms(1) by (simp_all add: agrees_def)
  obtain evict b' where r: "room g b = Some (evict, b')" using room_some [OF s(1) assms(2)] by blast
  have "agrees b' ((\<lambda>x. if x \<in> set evict then None else v x)(g \<mapsto> t))"
    using room_sound [OF s(1) r] room_has [OF s(1) r] s(2) by (simp add: agrees_def)
  then show thesis using that r room_spares [OF s(1) r] s(2) assms(2) by blast
qed

lemma agrees_drop: "agrees b v \<Longrightarrow> agrees (drop_one g b) (v(g := None))" "agrees b v \<Longrightarrow> agrees (drop_all b) Map.empty"
  by (simp_all add: agrees_def drop_one_sound drop_one_has drop_all_sound drop_all_has)

lemma agrees_note: "agrees b v \<Longrightarrow> agrees (note_it sql b) v"
  by (simp add: agrees_def note_sound note_has)

end

lemma holds_by_use: "holds cs g \<longleftrightarrow> g \<in> set (by_use cs)"
  by (simp add: holds_def set_by_use map_of_eq_None_iff)

lemma cs_inv_keeps:
  "cs_inv cs \<Longrightarrow> cs_inv (cs_forget g cs)" "cs_inv cs \<Longrightarrow> cs_inv (cs_forget_all cs)" "cs_inv cs \<Longrightarrow> cs_inv (note_unnamed sql cs)"
  "cs_inv (cs_new config)"
  using held_inv_filter [of "cs_held cs" "cs_tick cs"] le_trans [OF length_filter_le]
  by (auto simp: cs_inv_def cs_forget_def cs_forget_all_def note_unnamed_def cs_new_def held_inv_def delete_filter)

lemma holds_keeps [simp]:
  "holds (cs_forget g cs) x \<longleftrightarrow> x \<noteq> g \<and> holds cs x" "\<not> holds (cs_forget_all cs) x" "holds (note_unnamed sql cs) x = holds cs x"
  "\<not> holds (cs_new config) x" "cs_config (cs_forget g cs) = cs_config cs" "cs_config (cs_forget_all cs) = cs_config cs"
  "cs_config (note_unnamed sql cs) = cs_config cs" "cs_config (cs_new config) = config"
  by (simp_all add: holds_def cs_forget_def cs_forget_all_def note_unnamed_def cs_new_def hm_simps)

lemma distinct_by_use: "cs_inv cs \<Longrightarrow> distinct (by_use cs)"
  by (simp add: cs_inv_def held_inv_def by_use_def distinct_map)

lemma prepare_fresh:
  assumes "cs_inv cs" "0 < per_connection_cap (cs_config cs)" "\<not> holds cs g"
  obtains evict cs' where "prepare_for g cs = (Replay evict, cs')" "cs_inv cs'" "cs_config cs' = cs_config cs"
    "\<And>x. holds cs' x \<longleftrightarrow> x = g \<or> holds cs x \<and> x \<notin> set evict" "g \<notin> set evict"
proof -
  let ?q = "by_use cs" and ?k = "length (by_use cs) + 1 - per_connection_cap (cs_config cs)"
  obtain p cs' where p: "prepare_for g cs = (p, cs')" by force
  have g: "g \<notin> set ?q" using assms(3) by (simp add: holds_by_use)
  then have l: "p = Replay (take ?k ?q)" "by_use cs' = drop ?k ?q @ [g]" "cs_inv cs'" "cs_config cs' = cs_config cs"
    using prepare_for_lru [OF assms(1), of g] assms(2) by (auto simp: p lru_use_def Let_def)
  have d: "distinct (take ?k ?q @ drop ?k ?q)" using distinct_by_use [OF assms(1)] by simp
  have "set ?q = set (take ?k ?q) \<union> set (drop ?k ?q)" by (metis append_take_drop_id set_append)
  then have "holds cs' x \<longleftrightarrow> x = g \<or> holds cs x \<and> x \<notin> set (take ?k ?q)" for x
    using d by (auto simp: holds_by_use l(2) simp del: append_take_drop_id)
  moreover have "g \<notin> set (take ?k ?q)" using g by (metis in_set_takeD)
  ultimately show thesis using that p l by simp
qed

definition cs_room :: "global_name \<Rightarrow> connection_statements \<Rightarrow> (global_name list \<times> connection_statements) option" where
  "cs_room g cs = (case prepare_for g cs of (Replay evict, cs') \<Rightarrow> Some (evict, cs') | _ \<Rightarrow> None)"

definition cs_sound :: "connection_statements \<Rightarrow> bool" where
  "cs_sound cs = (cs_inv cs \<and> 0 < per_connection_cap (cs_config cs))"

lemma prepare_held: "holds cs g \<Longrightarrow> cs_room g cs = None"
  by (auto simp: cs_room_def prepare_for_def holds_def Let_def split: option.splits)

interpretation conn: statement_record holds cs_room cs_forget cs_forget_all note_unnamed cs_sound
proof
  fix cs cs' :: connection_statements and g x :: global_name and evict and sql :: string
  assume s: "cs_sound cs"
  have fresh: "\<exists>ev cs1. cs_room g cs = Some (ev, cs1) \<and> cs_sound cs1 \<and> (\<forall>x. holds cs1 x \<longleftrightarrow> x = g \<or> holds cs x \<and> x \<notin> set ev) \<and> g \<notin> set ev"
    if n: "\<not> holds cs g"
  proof -
    obtain ev cs1 where "prepare_for g cs = (Replay ev, cs1)" "cs_inv cs1" "cs_config cs1 = cs_config cs"
        "\<And>x. holds cs1 x \<longleftrightarrow> x = g \<or> holds cs x \<and> x \<notin> set ev" "g \<notin> set ev"
      using prepare_fresh [OF _ _ n] s unfolding cs_sound_def by blast
    then show ?thesis using s by (simp add: cs_room_def cs_sound_def)
  qed
  then show "\<not> holds cs g \<Longrightarrow> \<exists>evict cs'. cs_room g cs = Some (evict, cs')" by blast
  assume r: "cs_room g cs = Some (evict, cs')"
  then have "\<not> holds cs g" using prepare_held by force
  from fresh [OF this] r show "cs_sound cs'" "holds cs' x \<longleftrightarrow> x = g \<or> holds cs x \<and> x \<notin> set evict" "g \<notin> set evict" by auto
qed (simp_all add: cs_sound_def cs_inv_keeps)

text \<open>
  C25. A connection's statement map is an LRU queue. Seen as the list of its names, oldest use first,
  preparing a statement answers and changes the list exactly as the queue does: a held name moves to
  the back and needs no \<open>Parse\<close>; a new one evicts just as many of the oldest as needed to stay within
  the cap, in order, and goes to the back. The invariant, with its bound on the number of statements, is
  kept.
\<close>

theorem prepare_refines_lru:
  assumes "cs_inv cs"
  shows "(case prepare_for g cs of (p, cs') \<Rightarrow>
            (p, by_use cs') = lru_use (per_connection_cap (cs_config cs)) g (by_use cs) \<and>
            cs_inv cs' \<and> cs_config cs' = cs_config cs)"
  using assms by (rule prepare_for_lru)

theorem prepare_refines_lru_witness:
  "(case prepare_for ''b'' \<lparr>cs_config = \<lparr>per_connection_cap = 2\<rparr>, cs_held = [(''a'', 5)], cs_unnamed = 0, cs_tick = 7\<rparr> of
      (p, cs') \<Rightarrow>
        (p, by_use cs') = lru_use 2 ''b'' (by_use \<lparr>cs_config = \<lparr>per_connection_cap = 2\<rparr>, cs_held = [(''a'', 5)], cs_unnamed = 0, cs_tick = 7\<rparr>) \<and>
        cs_inv cs' \<and> cs_config cs' = \<lparr>per_connection_cap = 2\<rparr>)"
  using prepare_refines_lru [of "\<lparr>cs_config = \<lparr>per_connection_cap = 2\<rparr>, cs_held = [(''a'', 5)], cs_unnamed = 0, cs_tick = 7\<rparr>" "''b''"]
  by (simp add: cs_inv_def held_inv_def)

end
