(* ===== verification/Pool.thy ===== *)
theory Pool
  imports Quota_Apply Statements
begin

text \<open>
  \<^verbatim>\<open>crates/pgprox-pool/src/pool.rs\<close> and \<^verbatim>\<open>crates/pgprox-core/src/pool.rs\<close>: which upstream connections
  one pool has, who holds them and when they come back. The lemmas show that a connection has one
  holder at a time and is never lent again once it was given up, that nothing is opened above the limit,
  and what becomes of a limit that is lowered under load.

  Connection ids are a 64-bit counter that starts at 1; they are naturals here.
\<close>

subsection \<open>The contract\<close>

type_synonym upstream_id = nat

datatype release_outcome = Discard | Reusable

datatype pool_error = AtCap server_id nat | PoolTimeout server_id duration | ConnectFailed server_id string

definition stats_total :: "pool_stats \<Rightarrow> nat" where
  "stats_total st = ps_active st + ps_idle st"

definition has_headroom :: "pool_stats \<Rightarrow> bool" where
  "has_headroom st = (stats_total st < ps_limit st)"

record upstream_guard =
  ug_id :: upstream_id
  ug_key :: pool_key
  ug_outcome :: release_outcome

definition guard_new :: "upstream_id \<Rightarrow> pool_key \<Rightarrow> upstream_guard" where
  "guard_new i key = \<lparr>ug_id = i, ug_key = key, ug_outcome = Discard\<rparr>"

definition release_clean :: "upstream_guard \<Rightarrow> upstream_guard" where
  "release_clean g = g\<lparr>ug_outcome := Reusable\<rparr>"

definition poison :: "upstream_guard \<Rightarrow> upstream_guard" where
  "poison g = g\<lparr>ug_outcome := Discard\<rparr>"

subsection \<open>A pool\<close>

record retry_config =
  rc_attempts :: nat
  rc_base :: duration
  rc_max :: duration

definition retry_config_default :: retry_config where
  "retry_config_default = \<lparr>rc_attempts = 0, rc_base = from_millis 20, rc_max = from_secs 2\<rparr>"

record pool_config =
  pc_max_size :: nat
  pc_statements :: statement_config
  pc_retry :: retry_config

definition pool_config_default :: pool_config where
  "pool_config_default = \<lparr>pc_max_size = 20, pc_statements = statement_config_default, pc_retry = retry_config_default\<rparr>"

record connection =
  cn_id :: upstream_id
  cn_statements :: connection_statements
  cn_idle_since :: "instant option"
  cn_opened_at :: instant
  cn_expired :: bool

datatype acquired = Reused upstream_id | OpenNew | MustWait

record pool =
  pl_config :: pool_config
  pl_key :: pool_key
  pl_idle :: "connection list"
  pl_checked_out :: "(upstream_id, connection) hmap"
  pl_opening :: nat
  pl_waiting :: nat
  pl_limit :: nat
  pl_next_id :: nat

definition pool_new :: "pool_key \<Rightarrow> pool_config \<Rightarrow> pool" where
  "pool_new key config =
     \<lparr>pl_config = config, pl_key = key, pl_idle = [], pl_checked_out = [], pl_opening = 0, pl_waiting = 0,
      pl_limit = pc_max_size config, pl_next_id = 1\<rparr>"

definition pool_set_limit :: "nat \<Rightarrow> pool \<Rightarrow> pool" where
  "pool_set_limit limit p = p\<lparr>pl_limit := min limit (pc_max_size (pl_config p))\<rparr>"

definition pool_total :: "pool \<Rightarrow> nat" where
  "pool_total p =
     (let idle = try_u32 (length (pl_idle p)); busy = try_u32 (length (pl_checked_out p))
      in sat_add (sat_add idle busy) (pl_opening p))"

definition retained :: "pool \<Rightarrow> nat" where
  "retained p = sat_add (try_u32 (length (pl_idle p))) (pl_opening p)"

definition pool_stats_of :: "pool \<Rightarrow> pool_stats" where
  "pool_stats_of p =
     \<lparr>ps_active = try_u32 (length (pl_checked_out p)), ps_idle = try_u32 (length (pl_idle p)),
      ps_waiting = pl_waiting p, ps_limit = pl_limit p\<rparr>"

definition acquire :: "pool \<Rightarrow> acquired \<times> pool" where
  "acquire p =
     (if pl_idle p \<noteq> [] then
        let connection = last (pl_idle p)\<lparr>cn_idle_since := None\<rparr>; i = cn_id connection
        in (Reused i, p\<lparr>pl_idle := butlast (pl_idle p), pl_checked_out := hm_put i connection (pl_checked_out p)\<rparr>)
      else if pool_total p < pl_limit p then (OpenNew, p\<lparr>pl_opening := pl_opening p + 1\<rparr>)
      else (MustWait, p))"

definition opened :: "instant \<Rightarrow> pool \<Rightarrow> upstream_id \<times> pool" where
  "opened now p =
     (let i = pl_next_id p;
          connection = \<lparr>cn_id = i, cn_statements = cs_new (pc_statements (pl_config p)), cn_idle_since = None,
                        cn_opened_at = now, cn_expired = False\<rparr>
      in (i, p\<lparr>pl_opening := pl_opening p - 1, pl_next_id := i + 1,
               pl_checked_out := hm_put i connection (pl_checked_out p)\<rparr>))"

definition open_failed :: "pool \<Rightarrow> pool" where
  "open_failed p = p\<lparr>pl_opening := pl_opening p - 1\<rparr>"

definition pool_release :: "upstream_id \<Rightarrow> release_outcome \<Rightarrow> instant \<Rightarrow> pool \<Rightarrow> bool \<times> pool" where
  "pool_release i outcome now p =
     (case hm_get (pl_checked_out p) i of
        None \<Rightarrow> (False, p)
      | Some connection \<Rightarrow>
          let p = p\<lparr>pl_checked_out := hm_del i (pl_checked_out p)\<rparr>
          in if outcome = Reusable \<and> retained p < pl_limit p \<and> \<not> cn_expired connection
             then (True, p\<lparr>pl_idle := pl_idle p @ [connection\<lparr>cn_idle_since := Some now\<rparr>]\<rparr>)
             else (False, p))"

text \<open>\<^verbatim>\<open>reap.rs\<close>: whether a connection has outlived its lifetime.\<close>

definition lifetime_expired :: "instant \<Rightarrow> duration \<Rightarrow> instant \<Rightarrow> bool" where
  "lifetime_expired opened_at max_lifetime now = (max_lifetime \<noteq> 0 \<and> now - opened_at \<ge> max_lifetime)"

definition expire_in_use :: "duration \<Rightarrow> instant \<Rightarrow> pool \<Rightarrow> pool" where
  "expire_in_use max_lifetime now p =
     (if max_lifetime = 0 then p
      else p\<lparr>pl_checked_out :=
               map (\<lambda>(i, connection).
                      (i, if \<not> cn_expired connection \<and> lifetime_expired (cn_opened_at connection) max_lifetime now
                          then connection\<lparr>cn_expired := True\<rparr> else connection))
                 (pl_checked_out p)\<rparr>)"

definition begin_wait :: "pool \<Rightarrow> pool" where
  "begin_wait p = p\<lparr>pl_waiting := sat_add (pl_waiting p) 1\<rparr>"

definition end_wait :: "pool \<Rightarrow> pool" where
  "end_wait p = p\<lparr>pl_waiting := pl_waiting p - 1\<rparr>"

definition give_up :: "duration \<Rightarrow> pool \<Rightarrow> pool_error" where
  "give_up waited p =
     (if pool_total p \<ge> pl_limit p then AtCap (pk_server (pl_key p)) (pl_limit p)
      else PoolTimeout (pk_server (pl_key p)) waited)"

definition pool_is_unused :: "pool \<Rightarrow> bool" where
  "pool_is_unused p = (pool_total p = 0 \<and> pl_waiting p = 0)"

definition close_idle :: "upstream_id \<Rightarrow> pool \<Rightarrow> bool \<times> pool" where
  "close_idle i p =
     (let kept = filter (\<lambda>connection. cn_id connection \<noteq> i) (pl_idle p)
      in (length kept \<noteq> length (pl_idle p), p\<lparr>pl_idle := kept\<rparr>))"

lemmas pool_ops = pool_set_limit_def acquire_def opened_def open_failed_def pool_release_def expire_in_use_def
  begin_wait_def end_wait_def close_idle_def

subsection \<open>Runs and what they show of a connection\<close>

datatype pool_op =
    Acquire
  | Opened instant
  | OpenFailed
  | Release upstream_id release_outcome instant
  | SetLimit nat
  | ExpireInUse duration instant
  | BeginWait
  | EndWait
  | CloseIdle upstream_id

text \<open>A connection is lent, comes back to the pool, or is given up and its socket closed.\<close>

datatype pool_event = Lent upstream_id | Returned upstream_id | Retired upstream_id

fun pool_do :: "pool_op \<Rightarrow> pool \<Rightarrow> pool_event list \<times> pool" where
  "pool_do Acquire p = (case acquire p of (Reused i, p') \<Rightarrow> ([Lent i], p') | (_, p') \<Rightarrow> ([], p'))"
| "pool_do (Opened now) p = (case opened now p of (i, p') \<Rightarrow> ([Lent i], p'))"
| "pool_do OpenFailed p = ([], open_failed p)"
| "pool_do (Release i outcome now) p =
     (case pool_release i outcome now p of (kept, p') \<Rightarrow>
        (if hm_get (pl_checked_out p) i = None then [] else if kept then [Returned i] else [Retired i], p'))"
| "pool_do (SetLimit limit) p = ([], pool_set_limit limit p)"
| "pool_do (ExpireInUse max_lifetime now) p = ([], expire_in_use max_lifetime now p)"
| "pool_do BeginWait p = ([], begin_wait p)"
| "pool_do EndWait p = ([], end_wait p)"
| "pool_do (CloseIdle i) p = (case close_idle i p of (closed, p') \<Rightarrow> (if closed then [Retired i] else [], p'))"

fun pool_run :: "pool_op list \<Rightarrow> pool \<Rightarrow> pool_event list \<times> pool" where
  "pool_run [] p = ([], p)"
| "pool_run (opn # ops) p =
     (case pool_do opn p of (now, p') \<Rightarrow> case pool_run ops p' of (later, p'') \<Rightarrow> (now @ later, p''))"

subsection \<open>The promise: a connection has one holder\<close>

datatype life = Fresh | Busy | Resting | Gone

fun life_step :: "pool_event \<Rightarrow> (upstream_id \<Rightarrow> life) \<Rightarrow> (upstream_id \<Rightarrow> life) option" where
  "life_step (Lent i) s = (if s i = Fresh \<or> s i = Resting then Some (s(i := Busy)) else None)"
| "life_step (Returned i) s = (if s i = Busy then Some (s(i := Resting)) else None)"
| "life_step (Retired i) s = (if s i = Busy \<or> s i = Resting then Some (s(i := Gone)) else None)"

fun life_run :: "pool_event list \<Rightarrow> (upstream_id \<Rightarrow> life) \<Rightarrow> (upstream_id \<Rightarrow> life) option" where
  "life_run [] s = Some s"
| "life_run (e # es) s = (case life_step e s of None \<Rightarrow> None | Some s' \<Rightarrow> life_run es s')"

definition life_of :: "pool \<Rightarrow> upstream_id \<Rightarrow> life" where
  "life_of p i =
     (if i \<in> fst ` set (pl_checked_out p) then Busy
      else if i \<in> cn_id ` set (pl_idle p) then Resting
      else if 0 < i \<and> i < pl_next_id p then Gone else Fresh)"

definition pool_inv :: "pool \<Rightarrow> bool" where
  "pool_inv p =
     (hm_wf (pl_checked_out p) \<and> distinct (map cn_id (pl_idle p)) \<and>
      fst ` set (pl_checked_out p) \<inter> cn_id ` set (pl_idle p) = {} \<and>
      (\<forall>(i, c) \<in> set (pl_checked_out p). cn_id c = i) \<and>
      (\<forall>i \<in> fst ` set (pl_checked_out p) \<union> cn_id ` set (pl_idle p). 0 < i \<and> i < pl_next_id p) \<and>
      0 < pl_next_id p)"

lemma pool_new_inv [simp]: "pool_inv (pool_new key config)"
  by (simp add: pool_inv_def pool_new_def)

lemma pool_new_life [simp]: "life_of (pool_new key config) = (\<lambda>_. Fresh)"
  by (auto simp: life_of_def pool_new_def)

lemma keys_put: "fst ` set (hm_put k v m) = insert k (fst ` set m)"
  by (induction m) auto

lemma keys_del: "fst ` set (hm_del k m) = fst ` set m - {k}"
  by (auto simp: delete_filter)

lemma pool_same:
  assumes "pl_idle p' = pl_idle p" "pl_checked_out p' = pl_checked_out p" "pl_next_id p' = pl_next_id p"
  shows "pool_inv p' = pool_inv p" "life_of p' = life_of p"
  unfolding pool_inv_def life_of_def assms by (rule refl)+

lemma acquire_life:
  assumes "pool_inv p" "acquire p = (Reused i, p')"
  shows "pool_inv p' \<and> (life_of p i = Resting) \<and> life_of p' = (life_of p)(i := Busy)"
proof -
  obtain xs c where idle: "pl_idle p = xs @ [c]" using assms(2) by (cases "pl_idle p" rule: rev_exhaust) (auto simp: acquire_def split: if_splits)
  then have i: "i = cn_id c" and p': "p' = p\<lparr>pl_idle := xs, pl_checked_out := hm_put i (c\<lparr>cn_idle_since := None\<rparr>) (pl_checked_out p)\<rparr>"
    using assms(2) by (auto simp: acquire_def Let_def)
  have inv: "pool_inv p'"
    using assms(1) idle by (auto simp: pool_inv_def p' i keys_put hm_set_put)
  have "i \<notin> fst ` set (pl_checked_out p)" "i \<notin> cn_id ` set xs" using assms(1) idle by (auto simp: pool_inv_def i)
  then show ?thesis using inv idle by (auto simp: fun_eq_iff life_of_def p' keys_put i)
qed

lemma acquire_other:
  assumes "acquire p = (a, p')" "\<forall>i. a \<noteq> Reused i" "pool_inv p"
  shows "pool_inv p' \<and> life_of p' = life_of p"
  using assms pool_same [of p' p] by (auto simp: acquire_def Let_def split: if_splits)

lemma opened_life:
  assumes "pool_inv p" "opened now p = (i, p')"
  shows "pool_inv p' \<and> life_of p i = Fresh \<and> life_of p' = (life_of p)(i := Busy)"
proof -
  let ?busy = "fst ` set (pl_checked_out p)" and ?idle = "cn_id ` set (pl_idle p)"
  have i: "i = pl_next_id p" using assms(2) by (simp add: opened_def Let_def)
  have wf: "hm_wf (pl_checked_out p)" "distinct (map cn_id (pl_idle p))" "?busy \<inter> ?idle = {}"
    and own: "\<forall>(i, c) \<in> set (pl_checked_out p). cn_id c = i"
    and bd: "\<forall>i \<in> ?busy \<union> ?idle. 0 < i \<and> i < pl_next_id p" "0 < pl_next_id p"
    using assms(1) unfolding pool_inv_def by auto
  obtain c where c: "cn_id c = i" "pl_checked_out p' = hm_put i c (pl_checked_out p)"
    and out: "pl_idle p' = pl_idle p" "pl_next_id p' = Suc i"
  proof
    let ?c = "\<lparr>cn_id = i, cn_statements = cs_new (pc_statements (pl_config p)), cn_idle_since = None, cn_opened_at = now, cn_expired = False\<rparr>"
    show "cn_id ?c = i" by simp
    show "pl_checked_out p' = hm_put i ?c (pl_checked_out p)" "pl_idle p' = pl_idle p" "pl_next_id p' = Suc i"
      using assms(2) i by (auto simp: opened_def Let_def)
  qed
  have busy': "fst ` set (pl_checked_out p') = insert i ?busy" unfolding c(2) by (rule keys_put)
  have "i \<notin> ?busy \<union> ?idle" using bspec [OF bd(1), of i] i by auto
  then have ni: "i \<notin> ?busy" "i \<notin> ?idle" by simp_all
  have "\<forall>(i, c) \<in> set (pl_checked_out p'). cn_id c = i" using own c(1) unfolding c(2) hm_set_put [OF wf(1)] by auto
  moreover have "\<forall>j \<in> insert i ?busy \<union> ?idle. 0 < j \<and> j < Suc i" using bd i by (auto simp: less_Suc_eq)
  ultimately have "pool_inv p'"
    unfolding pool_inv_def busy' out using wf ni by (auto simp: c(2))
  moreover have "life_of p' = (life_of p)(i := Busy)"
    unfolding fun_eq_iff life_of_def busy' out using ni bd i by (auto simp: less_Suc_eq)
  moreover have "life_of p i = Fresh" using ni i by (simp add: life_of_def)
  ultimately show ?thesis by simp
qed

lemma release_shape:
  assumes "pool_release i outcome now p = (kept, p')" "hm_get (pl_checked_out p) i = Some c"
  shows "pl_checked_out p' = hm_del i (pl_checked_out p)"
    "pl_idle p' = pl_idle p @ (if kept then [c\<lparr>cn_idle_since := Some now\<rparr>] else [])"
    "pl_next_id p' = pl_next_id p" "kept \<Longrightarrow> outcome = Reusable"
  using assms by (auto simp: pool_release_def Let_def split: if_splits)

lemma release_life:
  assumes "pool_inv p" "pool_release i outcome now p = (kept, p')" "hm_get (pl_checked_out p) i = Some c"
  shows "pool_inv p' \<and> life_of p i = Busy \<and> life_of p' = (life_of p)(i := if kept then Resting else Gone)"
proof -
  let ?busy = "fst ` set (pl_checked_out p)" and ?idle = "cn_id ` set (pl_idle p)"
  have mem: "(i, c) \<in> set (pl_checked_out p)" using assms(3) by (rule map_of_SomeD)
  then have b: "i \<in> ?busy" by force
  have c: "cn_id c = i" and wf: "hm_wf (pl_checked_out p)" "distinct (map cn_id (pl_idle p))" "?busy \<inter> ?idle = {}"
    and own: "\<forall>(i, c) \<in> set (pl_checked_out p). cn_id c = i"
    and bd: "\<forall>i \<in> ?busy \<union> ?idle. 0 < i \<and> i < pl_next_id p" "0 < pl_next_id p"
    using assms(1) mem unfolding pool_inv_def by auto
  have ni: "i \<notin> ?idle" using b wf(3) by blast
  define c' where "c' = c\<lparr>cn_idle_since := Some now\<rparr>"
  have c': "cn_id c' = i" using c by (simp add: c'_def)
  have out: "pl_checked_out p' = hm_del i (pl_checked_out p)" "pl_idle p' = pl_idle p @ (if kept then [c'] else [])"
      "pl_next_id p' = pl_next_id p"
    using release_shape [OF assms(2,3)] by (simp_all add: c'_def)
  have busy': "fst ` set (pl_checked_out p') = ?busy - {i}" unfolding out by (rule keys_del)
  have idle': "cn_id ` set (pl_idle p') = ?idle \<union> (if kept then {i} else {})" unfolding out using c' by simp
  have "distinct (map cn_id (pl_idle p'))" unfolding out using wf(2) ni c' by simp
  moreover have "\<forall>(i, c) \<in> set (pl_checked_out p'). cn_id c = i" using own unfolding out delete_filter by auto
  ultimately have "pool_inv p'"
    unfolding pool_inv_def busy' idle' out(3) using wf bd b by (auto simp: out(1))
  moreover have "life_of p' = (life_of p)(i := if kept then Resting else Gone)"
    unfolding fun_eq_iff life_of_def busy' idle' out(3) using ni b bd by auto
  ultimately show ?thesis using b by (simp add: life_of_def)
qed

lemma filter_same_length: "length (filter P xs) = length xs \<longleftrightarrow> (\<forall>x \<in> set xs. P x)"
proof (induction xs)
  case (Cons x xs)
  moreover have "length (filter P xs) \<noteq> Suc (length xs)" using length_filter_le [of P xs] by linarith
  ultimately show ?case by simp
qed simp

lemma close_idle_life:
  assumes "pool_inv p" "close_idle i p = (closed, p')"
  shows "pool_inv p' \<and> (closed \<longrightarrow> life_of p i = Resting) \<and> life_of p' = (if closed then (life_of p)(i := Gone) else life_of p)"
proof -
  have p': "p' = p\<lparr>pl_idle := filter (\<lambda>c. cn_id c \<noteq> i) (pl_idle p)\<rparr>" using assms(2) by (simp add: close_idle_def Let_def)
  have closed: "closed \<longleftrightarrow> i \<in> cn_id ` set (pl_idle p)"
  proof -
    have "length (filter (\<lambda>c. cn_id c \<noteq> i) (pl_idle p)) = length (pl_idle p) \<longleftrightarrow> (\<forall>c \<in> set (pl_idle p). cn_id c \<noteq> i)"
      by (rule filter_same_length)
    then show ?thesis using assms(2) by (auto simp: close_idle_def Let_def)
  qed
  have inv: "pool_inv p'" using assms(1) by (auto simp: pool_inv_def p' distinct_map_filter)
  have "i \<notin> fst ` set (pl_checked_out p)" "0 < i \<and> i < pl_next_id p" if closed
    using that assms(1) closed by (auto simp: pool_inv_def)
  moreover have "cn_id ` set (pl_idle p') = cn_id ` set (pl_idle p) - {i}" by (auto simp: p')
  moreover have "pl_checked_out p' = pl_checked_out p" "pl_next_id p' = pl_next_id p" by (simp_all add: p')
  ultimately show ?thesis using inv closed by (simp add: fun_eq_iff life_of_def)
qed

lemma expire_life:
  assumes "pool_inv p"
  shows "pool_inv (expire_in_use m now p) \<and> life_of (expire_in_use m now p) = life_of p"
proof -
  let ?f = "\<lambda>(i, connection). (i, if \<not> cn_expired connection \<and> lifetime_expired (cn_opened_at connection) m now
       then connection\<lparr>cn_expired := True\<rparr> else connection)"
  have "map fst (map ?f xs) = map fst xs" for xs by (simp add: case_prod_beta')
  then have f: "fst ` set (map ?f xs) = fst ` set xs" "hm_wf (map ?f xs) = hm_wf xs" for xs by (metis list.set_map)+
  have own: "(\<forall>(i, c) \<in> set (map ?f xs). cn_id c = i) = (\<forall>(i, c) \<in> set xs. cn_id c = i)" for xs by auto
  define q where "q = expire_in_use m now p"
  show ?thesis
  proof (cases "m = 0")
    case False
    then have q: "pl_checked_out q = map ?f (pl_checked_out p)" "pl_idle q = pl_idle p" "pl_next_id q = pl_next_id p"
      by (simp_all add: q_def expire_in_use_def)
    have "pool_inv q = pool_inv p" unfolding pool_inv_def q f own by (rule refl)
    moreover have "life_of q = life_of p" unfolding fun_eq_iff life_of_def q f by simp
    ultimately show ?thesis using assms by (simp add: q_def)
  qed (use assms in \<open>simp add: expire_in_use_def\<close>)
qed

lemma pool_do_life:
  assumes "pool_inv p" "pool_do opn p = (events, p')"
  shows "pool_inv p' \<and> life_run events (life_of p) = Some (life_of p')"
proof (cases opn)
  case Acquire
  obtain a q where a: "acquire p = (a, q)" by force
  show ?thesis
  proof (cases a)
    case (Reused i)
    then have "events = [Lent i]" "p' = q" using assms(2) a Acquire by simp_all
    then show ?thesis using acquire_life [OF assms(1) a [unfolded Reused]] by simp
  next
    case OpenNew
    then have "events = []" "p' = q" using assms(2) a Acquire by simp_all
    then show ?thesis using acquire_other [OF a _ assms(1)] OpenNew by simp
  next
    case MustWait
    then have "events = []" "p' = q" using assms(2) a Acquire by simp_all
    then show ?thesis using acquire_other [OF a _ assms(1)] MustWait by simp
  qed
next
  case (Release i outcome now)
  obtain kept q where r: "pool_release i outcome now p = (kept, q)" by force
  show ?thesis
  proof (cases "hm_get (pl_checked_out p) i")
    case None
    then show ?thesis using assms Release r by (simp add: pool_release_def)
  next
    case (Some c)
    then have "events = (if kept then [Returned i] else [Retired i])" "p' = q" using assms(2) r Release by auto
    then show ?thesis using release_life [OF assms(1) r Some] by simp
  qed
next
  case (CloseIdle i)
  obtain closed q where c: "close_idle i p = (closed, q)" by force
  then have "events = (if closed then [Retired i] else [])" "p' = q" using assms(2) CloseIdle by simp_all
  then show ?thesis using close_idle_life [OF assms(1) c] by simp
next
  case (Opened now)
  obtain i q where o: "opened now p = (i, q)" by force
  then have "events = [Lent i]" "p' = q" using assms(2) Opened by simp_all
  then show ?thesis using opened_life [OF assms(1) o] by simp
next
  case (ExpireInUse m now)
  then have "events = []" "p' = expire_in_use m now p" using assms(2) by simp_all
  then show ?thesis using expire_life [OF assms(1)] by simp
qed (use assms pool_same [of p' p] in \<open>auto simp: open_failed_def pool_set_limit_def begin_wait_def end_wait_def\<close>)

lemma life_run_append: "life_run (a @ b) s = (case life_run a s of None \<Rightarrow> None | Some s' \<Rightarrow> life_run b s')"
  by (induction a arbitrary: s) (auto split: option.splits)

lemma pool_run_life:
  assumes "pool_inv p" "pool_run ops p = (events, p')"
  shows "pool_inv p' \<and> life_run events (life_of p) = Some (life_of p')"
  using assms
proof (induction ops arbitrary: p events)
  case (Cons opn ops)
  obtain now q where q: "pool_do opn p = (now, q)" by force
  then obtain later where r: "pool_run ops q = (later, p')" and ev: "events = now @ later"
    using Cons.prems(2) by (cases "pool_run ops q") auto
  show ?case using pool_do_life [OF Cons.prems(1) q] Cons.IH [OF _ r] by (simp add: ev life_run_append)
qed simp

text \<open>
  C5. A pool keeps the promise of ownership over every sequence of operations: read as a history of
  connections lent, returned and retired, a run is one that the life of a connection allows. A connection
  is lent only when it is new or was handed back clean and still rests in the pool, never to a second
  client while one has it, and never again once it was discarded or reaped.
\<close>

theorem pool_lends_once:
  "life_run (fst (pool_run ops (pool_new key config))) (\<lambda>_. Fresh) = Some (life_of (snd (pool_run ops (pool_new key config))))"
  using pool_run_life [OF pool_new_inv, of ops key config] by (cases "pool_run ops (pool_new key config)") simp

subsection \<open>The limit\<close>

definition pool_size :: "pool \<Rightarrow> nat" where
  "pool_size p = length (pl_idle p) + length (pl_checked_out p) + pl_opening p"

lemma pool_total_eq: "pool_total p = min (pool_size p) u32_max"
  by (auto simp: pool_total_def pool_size_def sat_add_def try_u32_def Let_def min_def)

lemma length_put_new: "k \<notin> fst ` set m \<Longrightarrow> length (hm_put k v m) = Suc (length m)"
  by (induction m) auto

lemma length_del_mem: "hm_wf m \<Longrightarrow> hm_get m k = Some v \<Longrightarrow> Suc (length (hm_del k m)) = length m"
proof (induction m)
  case (Cons e m)
  show ?case
  proof (cases "fst e = k")
    case True
    then have "hm_del k m = m" using Cons.prems(1) by (intro delete_id) (auto simp: dom_map_of_conv_image_fst)
    then show ?thesis using True by (cases e) simp
  next
    case False
    then show ?thesis using Cons by (cases e) simp
  qed
qed simp

lemma acquire_size:
  assumes "pool_inv p" "acquire p = (a, p')"
  shows "pl_limit p' = pl_limit p" "pl_config p' = pl_config p" "pool_size p' = (if a = OpenNew then Suc (pool_size p) else pool_size p)"
    "a = OpenNew \<Longrightarrow> pool_total p < pl_limit p"
proof -
  show "pl_limit p' = pl_limit p" "pl_config p' = pl_config p" "a = OpenNew \<Longrightarrow> pool_total p < pl_limit p"
    using assms(2) by (auto simp: acquire_def Let_def split: if_splits)
  show "pool_size p' = (if a = OpenNew then Suc (pool_size p) else pool_size p)"
  proof (cases "pl_idle p" rule: rev_exhaust)
    case (snoc xs c)
    then have "cn_id c \<notin> fst ` set (pl_checked_out p)" using assms(1) by (auto simp: pool_inv_def)
    then show ?thesis using assms(2) snoc by (auto simp: acquire_def pool_size_def Let_def length_put_new)
  qed (use assms(2) in \<open>auto simp: acquire_def pool_size_def split: if_splits\<close>)
qed

lemma opened_size:
  assumes "pool_inv p" "opened now p = (i, p')" "0 < pl_opening p"
  shows "pl_limit p' = pl_limit p" "pl_config p' = pl_config p" "pool_size p' = pool_size p"
proof -
  have "pl_next_id p \<notin> fst ` set (pl_checked_out p)" using assms(1) by (auto simp: pool_inv_def)
  then show "pl_limit p' = pl_limit p" "pl_config p' = pl_config p" "pool_size p' = pool_size p"
    using assms(2,3) by (auto simp: opened_def Let_def pool_size_def length_put_new)
qed

lemma release_size:
  assumes "pool_inv p" "pool_release i outcome now p = (kept, p')"
  shows "pl_limit p' = pl_limit p" "pl_config p' = pl_config p" "pool_size p' \<le> pool_size p"
proof -
  have wf: "hm_wf (pl_checked_out p)" using assms(1) by (simp add: pool_inv_def)
  show "pl_limit p' = pl_limit p" "pl_config p' = pl_config p" "pool_size p' \<le> pool_size p"
    using assms(2) length_del_mem [OF wf, of i]
    by (auto simp: pool_release_def pool_size_def Let_def split: option.splits if_splits)
qed

text \<open>A caller reports a connection as opened only when it was told to open one.\<close>

fun dials_answered :: "pool_op list \<Rightarrow> pool \<Rightarrow> bool" where
  "dials_answered [] p = True"
| "dials_answered (opn # ops) p =
     ((case opn of Opened _ \<Rightarrow> 0 < pl_opening p | _ \<Rightarrow> True) \<and> dials_answered ops (snd (pool_do opn p)))"

lemma pool_do_size:
  assumes "pool_inv p" "pool_do opn p = (events, p')" "dials_answered [opn] p"
    and "pl_limit p \<le> pc_max_size (pl_config p)"
  shows "pl_limit p' \<le> pc_max_size (pl_config p') \<and> pl_config p' = pl_config p \<and>
    (pool_total p' \<le> pool_total p \<or> opn = Acquire \<and> pool_total p' \<le> pl_limit p')"
proof (cases opn)
  case Acquire
  obtain a q where a: "acquire p = (a, q)" by force
  then have "q = p'" using assms(2) Acquire by (cases a) auto
  then show ?thesis using acquire_size [OF assms(1) a] assms(4) Acquire
    by (cases "a = OpenNew") (auto simp: pool_total_eq min_def split: if_splits)
next
  case (Opened now)
  obtain i q where o: "opened now p = (i, q)" by force
  then have "q = p'" using assms(2) Opened by simp
  then show ?thesis using opened_size [OF assms(1) o] assms(3,4) Opened by (simp add: pool_total_eq)
next
  case (Release i outcome now)
  obtain kept q where r: "pool_release i outcome now p = (kept, q)" by force
  then have "q = p'" using assms(2) Release by auto
  then show ?thesis using release_size [OF assms(1) r] assms(4) by (auto simp: pool_total_eq)
next
  case (CloseIdle i)
  have "length (filter (\<lambda>c. cn_id c \<noteq> i) (pl_idle p)) \<le> length (pl_idle p)" by (rule length_filter_le)
  then have "pool_size (snd (close_idle i p)) \<le> pool_size p" by (simp add: close_idle_def pool_size_def Let_def)
  then show ?thesis using assms(2,4) CloseIdle by (auto simp: close_idle_def Let_def pool_total_eq)
qed (use assms(2,4) in \<open>auto simp: pool_ops pool_total_eq pool_size_def\<close>)

lemma pool_run_size:
  assumes "pool_inv p" "dials_answered ops p" "pl_limit p \<le> pc_max_size (pl_config p)" "pool_total p \<le> pc_max_size (pl_config p)"
  shows "let p' = snd (pool_run ops p) in pool_inv p' \<and> pl_limit p' \<le> pc_max_size (pl_config p') \<and> pl_config p' = pl_config p \<and>
    pool_total p' \<le> pc_max_size (pl_config p)"
  using assms
proof (induction ops arbitrary: p)
  case (Cons opn ops)
  obtain ev q where q: "pool_do opn p = (ev, q)" by force
  have d: "dials_answered [opn] p" "dials_answered ops q" using Cons.prems(2) q by simp_all
  note step = pool_do_size [OF Cons.prems(1) q d(1) Cons.prems(3)] and inv = pool_do_life [OF Cons.prems(1) q]
  have "snd (pool_run (opn # ops) p) = snd (pool_run ops q)" using q by (simp add: case_prod_beta')
  moreover have "pool_total q \<le> pc_max_size (pl_config q)" using step Cons.prems(4) by auto
  moreover have "pool_inv q" "pl_limit q \<le> pc_max_size (pl_config q)" "pl_config q = pl_config p" using step inv by auto
  ultimately show ?case using Cons.IH [OF _ d(2)] by (simp only: Let_def) auto
qed (simp add: Let_def)

lemma pool_run_append: "pool_run (a @ b) p =
    (case pool_run a p of (now, p') \<Rightarrow> case pool_run b p' of (later, p'') \<Rightarrow> (now @ later, p''))"
  by (induction a arbitrary: p) (simp_all add: case_prod_beta')

lemma dials_append: "dials_answered (a @ b) p = (dials_answered a p \<and> dials_answered b (snd (pool_run a p)))"
  by (induction a arbitrary: p) (auto simp: case_prod_beta')

text \<open>
  C6. The pool opens nothing above its limit. Over any sequence of operations in which only the
  connections it asked for are reported open, the connections open and being opened never exceed the
  configured size; and the one step that can make them more, an acquire, leaves them within the limit in
  force at that moment.
\<close>

theorem pool_within_limit:
  assumes "dials_answered (ops @ [opn]) (pool_new key config)"
    and "pool_run ops (pool_new key config) = (events, p)" "pool_do opn p = (event, p')"
  shows "pool_total p' \<le> pc_max_size config \<and>
    (pool_total p' \<le> pool_total p \<or> opn = Acquire \<and> pool_total p' \<le> pl_limit p')"
proof -
  have d: "dials_answered ops (pool_new key config)" "dials_answered [opn] p"
    using assms(1) unfolding dials_append assms(2) by simp_all
  have "pool_total (pool_new key config) = 0" by (simp add: pool_total_eq pool_size_def pool_new_def)
  then have inv: "pool_inv p" "pl_limit p \<le> pc_max_size (pl_config p)" "pl_config p = config" "pool_total p \<le> pc_max_size config"
    using pool_run_size [OF pool_new_inv d(1)] unfolding assms(2) by (auto simp: pool_new_def Let_def)
  show ?thesis using pool_do_size [OF inv(1) assms(3) d(2) inv(2)] inv by auto
qed

definition example_key :: pool_key where
  "example_key = \<lparr>pk_server = ''db:5432'', pk_database = ''app'', pk_user = ''app''\<rparr>"

text \<open>Three connections opened and in use, and then the limit lowered to one.\<close>

definition example_busy :: pool where
  "example_busy = snd (pool_run [Acquire, Opened 5, Acquire, Opened 6, Acquire, Opened 7, SetLimit 1]
     (pool_new example_key pool_config_default))"

lemmas example_eval = pool_ops pool_new_def pool_config_default_def pool_total_def sat_add_def try_u32_def u32_max_def
  example_key_def retained_def Let_def cs_new_def

theorem pool_within_limit_witness:
  "\<exists>p'. pool_do Acquire (pool_new example_key pool_config_default) = ([], p') \<and> pool_total p' \<le> pc_max_size pool_config_default \<and> pool_total p' \<le> pl_limit p'"
  using pool_within_limit [of "[]" Acquire example_key pool_config_default "[]" "pool_new example_key pool_config_default"]
  by (simp add: example_eval)

text \<open>
  C29. A limit lowered under steady load is not reached. While every connection is in use and no other
  client releases in between, a client that hands one back clean and takes one again gets the same
  connection, and this can be repeated for ever: the pool stays at its size, however far above the limit
  that is, because a returning connection is measured against what rests in the pool and never against
  what is lent.
\<close>

theorem lowered_limit_not_reached:
  assumes "pool_inv p" "pl_idle p = []" "pl_opening p = 0" "0 < pl_limit p"
    and "\<forall>(i, c) \<in> set (pl_checked_out p). \<not> cn_expired c" "set clients \<subseteq> fst ` set (pl_checked_out p)"
    and "pool_run (concat (map (\<lambda>i. [Release i Reusable now, Acquire]) clients)) p = (events, p')"
  shows "events = concat (map (\<lambda>i. [Returned i, Lent i]) clients) \<and> pool_total p' = pool_total p \<and> pl_limit p' = pl_limit p"
  using assms
proof (induction clients arbitrary: p events)
  case (Cons i clients)
  have wf: "hm_wf (pl_checked_out p)" using Cons.prems(1) by (simp add: pool_inv_def)
  obtain c where c: "(i, c) \<in> set (pl_checked_out p)" using Cons.prems(6) by force
  then have get: "hm_get (pl_checked_out p) i = Some c" and ok: "\<not> cn_expired c" "cn_id c = i"
    using wf Cons.prems(1,5) by (auto simp: pool_inv_def)
  define busy where "busy = hm_put i (c\<lparr>cn_idle_since := None\<rparr>) (hm_del i (pl_checked_out p))"
  define q where "q = p\<lparr>pl_checked_out := busy\<rparr>"
  have two: "pool_run [Release i Reusable now, Acquire] p = ([Returned i, Lent i], q)"
    using Cons.prems(2,3,4) get ok
    by (simp add: pool_release_def acquire_def Let_def retained_def sat_add_def try_u32_def u32_max_def busy_def q_def)
  have busy: "set busy = insert (i, c\<lparr>cn_idle_since := None\<rparr>) {e \<in> set (pl_checked_out p). fst e \<noteq> i}"
    using hm_set_put [OF hm.wf_del [OF wf]] by (auto simp: busy_def delete_filter)
  have keys: "fst ` set busy = fst ` set (pl_checked_out p)" using c unfolding busy by force
  have len: "length busy = length (pl_checked_out p)"
    using length_del_mem [OF wf get] by (simp add: busy_def length_put_new keys_del)
  have inv: "pool_inv q" using pool_run_life [OF Cons.prems(1) two] by simp
  obtain later where later: "pool_run (concat (map (\<lambda>i. [Release i Reusable now, Acquire]) clients)) q = (later, p')"
      "events = [Returned i, Lent i] @ later"
    using Cons.prems(7) pool_run_append [of "[Release i Reusable now, Acquire]" _ p, unfolded two]
    by (cases "pool_run (concat (map (\<lambda>i. [Release i Reusable now, Acquire]) clients)) q") simp
  have "later = concat (map (\<lambda>i. [Returned i, Lent i]) clients) \<and> pool_total p' = pool_total q \<and> pl_limit p' = pl_limit q"
  proof (rule Cons.IH [OF inv _ _ _ _ _ later(1)])
    show "\<forall>(i, c) \<in> set (pl_checked_out q). \<not> cn_expired c" using Cons.prems(5) ok by (auto simp: q_def busy)
    show "set clients \<subseteq> fst ` set (pl_checked_out q)" using Cons.prems(6) by (simp add: q_def keys)
  qed (use Cons.prems(2,3,4) in \<open>simp_all add: q_def\<close>)
  then show ?case using later(2) len by (simp add: q_def pool_total_eq pool_size_def)
qed simp

theorem lowered_limit_not_reached_witness:
  "\<exists>p'. pool_run (concat (map (\<lambda>i. [Release i Reusable 9, Acquire]) [1, 2, 3, 1])) example_busy =
     ([Returned 1, Lent 1, Returned 2, Lent 2, Returned 3, Lent 3, Returned 1, Lent 1], p') \<and>
     pool_total p' = 3 \<and> pl_limit p' = 1"
proof -
  let ?run = "concat (map (\<lambda>i. [Release i Reusable 9, Acquire]) [1, 2, 3, 1])"
  have inv: "pool_inv example_busy"
    using pool_run_life [OF pool_new_inv] unfolding example_busy_def by (metis prod.collapse)
  have eval: "pl_idle example_busy = []" "pl_opening example_busy = 0" "0 < pl_limit example_busy"
      "\<forall>(i, c) \<in> set (pl_checked_out example_busy). \<not> cn_expired c" "set [1, 2, 3, 1] \<subseteq> fst ` set (pl_checked_out example_busy)"
      "pool_total example_busy = 3" "pl_limit example_busy = 1"
    by (simp_all add: example_busy_def example_eval)
  obtain events p' where run: "pool_run ?run example_busy = (events, p')" by force
  from lowered_limit_not_reached [OF inv eval(1-5) run] run show ?thesis by (simp add: eval)
qed

end
