(* ===== verification/Reap.thy ===== *)
theory Reap
  imports Pool
begin

text \<open>
  \<^verbatim>\<open>crates/pgprox-pool/src/reap.rs\<close>: which idle connections are closed. The reaper names connections, and
  the lemmas say exactly which: those idle for too long that are not among the most recently used ones to
  be kept warm, and those that have outlived their lifetime, kept warm or not.
\<close>

record reap_config =
  rp_idle_timeout :: duration
  rp_keep_warm :: nat
  rp_max_lifetime :: duration

definition reap_config_default :: reap_config where
  "reap_config_default = \<lparr>rp_idle_timeout = from_secs 30, rp_keep_warm = 0, rp_max_lifetime = from_secs 3600\<rparr>"

type_synonym idle_entry = "instant \<times> instant \<times> upstream_id"

definition idle_entries :: "pool \<Rightarrow> idle_entry list" where
  "idle_entries p =
     List.map_filter (\<lambda>c. map_option (\<lambda>since. (since, cn_opened_at c, cn_id c)) (cn_idle_since c)) (pl_idle p)"

definition idle_age :: "idle_entry \<Rightarrow> instant \<times> upstream_id" where
  "idle_age e = (case e of (since, _, i) \<Rightarrow> (since, i))"

definition reap_closes :: "reap_config \<Rightarrow> instant \<Rightarrow> nat \<Rightarrow> nat \<times> idle_entry \<Rightarrow> bool" where
  "reap_closes config now candidates x =
     (case x of (index, since, opened_at, _) \<Rightarrow>
        index < candidates \<and> now - since \<ge> rp_idle_timeout config \<or>
        lifetime_expired opened_at (rp_max_lifetime config) now)"

definition reap :: "pool \<Rightarrow> reap_config \<Rightarrow> instant \<Rightarrow> upstream_id list" where
  "reap p config now =
     (let idle = sort_key idle_age (idle_entries p);
          candidates = length idle - rp_keep_warm config
      in map (\<lambda>(_, _, _, i). i) (filter (reap_closes config now candidates) (enumerate 0 idle)))"

subsection \<open>What it closes\<close>

definition idle_stamped :: "pool \<Rightarrow> bool" where
  "idle_stamped p = (\<forall>c \<in> set (pl_idle p). cn_idle_since c \<noteq> None)"

lemma pool_do_stamped: "idle_stamped p \<Longrightarrow> idle_stamped (snd (pool_do opn p))"
  by (cases opn)
    (auto simp: idle_stamped_def pool_ops Let_def dest: in_set_butlastD split: if_splits option.splits)

lemma pool_run_stamped: "idle_stamped p \<Longrightarrow> idle_stamped (snd (pool_run ops p))"
proof (induction ops arbitrary: p)
  case (Cons opn ops)
  obtain ev q where q: "pool_do opn p = (ev, q)" by force
  then have "idle_stamped q" using pool_do_stamped [OF Cons.prems, of opn] by simp
  then show ?case using Cons.IH [of q] q by (simp add: case_prod_beta')
qed simp

text \<open>How recently a connection was used, with the tie broken by its number.\<close>

definition last_use :: "connection \<Rightarrow> instant \<times> upstream_id" where
  "last_use c = (the (cn_idle_since c), cn_id c)"

lemma idle_entries_map:
  "idle_stamped p \<Longrightarrow> idle_entries p = map (\<lambda>c. (the (cn_idle_since c), cn_opened_at c, cn_id c)) (pl_idle p)"
proof -
  have "List.map_filter (\<lambda>c. map_option (\<lambda>since. (since, cn_opened_at c, cn_id c)) (cn_idle_since c)) cs =
      map (\<lambda>c. (the (cn_idle_since c), cn_opened_at c, cn_id c)) cs" if "\<forall>c \<in> set cs. cn_idle_since c \<noteq> None" for cs
    using that by (induction cs) (auto simp: List.map_filter_simps)
  then show "idle_stamped p \<Longrightarrow> ?thesis" by (simp add: idle_entries_def idle_stamped_def)
qed

lemma card_above:
  assumes "sorted (map f xs)" "distinct (map f xs)" "i < length xs"
  shows "card {x \<in> set xs. f (xs ! i) < f x} = length xs - Suc i"
proof -
  have "{x \<in> set xs. f (xs ! i) < f x} = set (drop (Suc i) xs)"
  proof (intro equalityI subsetI)
    fix x assume "x \<in> {x \<in> set xs. f (xs ! i) < f x}"
    then obtain j where j: "j < length xs" "x = xs ! j" "f (xs ! i) < f (xs ! j)" by (auto simp: in_set_conv_nth)
    have "\<not> j \<le> i" using sorted_nth_mono [OF assms(1), of j i] assms(3) j by auto
    then have "x = drop (Suc i) xs ! (j - Suc i)" "j - Suc i < length (drop (Suc i) xs)" using j by simp_all
    then show "x \<in> set (drop (Suc i) xs)" by (metis nth_mem)
  next
    fix x assume "x \<in> set (drop (Suc i) xs)"
    then obtain k where "k < length (drop (Suc i) xs)" "x = drop (Suc i) xs ! k" by (auto simp: in_set_conv_nth)
    then obtain j where j: "Suc i \<le> j" "j < length xs" "x = xs ! j" by (metis add.commute le_add1 length_drop less_diff_conv nth_drop le_add2 assms(3) less_eq_Suc_le)
    then have "f (xs ! i) \<le> f (xs ! j)" using sorted_nth_mono [OF assms(1), of i j] by simp
    moreover have "f (xs ! i) \<noteq> f (xs ! j)" using nth_eq_iff_index_eq [OF assms(2), of i j] assms(3) j by simp
    ultimately show "x \<in> {x \<in> set xs. f (xs ! i) < f x}" using j by simp
  qed
  moreover have "distinct (drop (Suc i) xs)" using assms(2) distinct_map distinct_drop by blast
  ultimately show ?thesis by (simp add: distinct_card)
qed

lemma reap_set:
  assumes "distinct (map idle_age (idle_entries p))"
  shows "set (reap p config now) =
    {i. \<exists>since opened_at. (since, opened_at, i) \<in> set (idle_entries p) \<and>
        (rp_keep_warm config \<le> card {e \<in> set (idle_entries p). (since, i) < idle_age e} \<and> rp_idle_timeout config \<le> now - since \<or>
         lifetime_expired opened_at (rp_max_lifetime config) now)}" (is "_ = ?closed")
    and "distinct (map (\<lambda>(_, _, i). i) (idle_entries p)) \<Longrightarrow> distinct (reap p config now)"
proof -
  define es where "es = sort_key idle_age (idle_entries p)"
  have es: "set es = set (idle_entries p)" "mset es = mset (idle_entries p)" by (simp_all add: es_def)
  have so: "sorted (map idle_age es)" "distinct (map idle_age es)"
    using assms by (simp_all add: es_def distinct_map)
  have warm: "k < length es - rp_keep_warm config \<longleftrightarrow>
      rp_keep_warm config \<le> card {e \<in> set (idle_entries p). idle_age (es ! k) < idle_age e}" if "k < length es" for k
    using card_above [OF so that] that by (auto simp: es)
  have r: "set (reap p config now) =
      (\<lambda>(_, _, _, i). i) ` {x \<in> set (enumerate 0 es). reap_closes config now (length es - rp_keep_warm config) x}"
    by (simp add: reap_def Let_def es_def)
  show "set (reap p config now) = ?closed"
  proof (intro equalityI subsetI)
    fix i assume "i \<in> set (reap p config now)"
    then obtain k since opened_at where k: "k < length es" "es ! k = (since, opened_at, i)"
        "reap_closes config now (length es - rp_keep_warm config) (k, since, opened_at, i)"
      unfolding r by (auto simp: in_set_enumerate_eq)
    then have "(since, opened_at, i) \<in> set (idle_entries p)" unfolding es(1) [symmetric] using nth_mem by metis
    then show "i \<in> ?closed" using k warm [OF k(1)] by (auto simp: reap_closes_def idle_age_def)
  next
    fix i assume "i \<in> ?closed"
    then obtain since opened_at where c: "(since, opened_at, i) \<in> set es"
      "rp_keep_warm config \<le> card {e \<in> set (idle_entries p). (since, i) < idle_age e} \<and> rp_idle_timeout config \<le> now - since \<or>
         lifetime_expired opened_at (rp_max_lifetime config) now" by (auto simp: es)
    then obtain k where k: "k < length es" "es ! k = (since, opened_at, i)" by (auto simp: in_set_conv_nth)
    then have "(k, since, opened_at, i) \<in> set (enumerate 0 es)" by (simp add: in_set_enumerate_eq)
    moreover have "reap_closes config now (length es - rp_keep_warm config) (k, since, opened_at, i)"
      using c(2) warm [OF k(1)] k(2) by (auto simp: reap_closes_def idle_age_def)
    ultimately show "i \<in> set (reap p config now)" unfolding r by force
  qed
  assume "distinct (map (\<lambda>(_, _, i). i) (idle_entries p))"
  then have "distinct (map (\<lambda>(_, _, i). i) es)" using es(2) by (metis mset_eq_imp_distinct_iff mset_map)
  moreover have "map (\<lambda>(_, _, _, i). i) (enumerate 0 es) = map (\<lambda>(_, _, i). i) es"
    by (rule nth_equalityI) (auto simp: nth_enumerate_eq split: prod.splits)
  ultimately show "distinct (reap p config now)"
    unfolding reap_def Let_def es_def [symmetric] by (metis distinct_map_filter)
qed

lemma reap_connections:
  assumes "pool_inv p" "idle_stamped p"
  shows "set (reap p config now) =
    {cn_id c |c. c \<in> set (pl_idle p) \<and>
        (rp_keep_warm config \<le> card {c' \<in> set (pl_idle p). last_use c < last_use c'} \<and>
         rp_idle_timeout config \<le> now - the (cn_idle_since c) \<or>
         lifetime_expired (cn_opened_at c) (rp_max_lifetime config) now)}"
    and "distinct (reap p config now)"
proof -
  let ?e = "\<lambda>c. (the (cn_idle_since c), cn_opened_at c, cn_id c)"
  note es = idle_entries_map [OF assms(2)]
  have d: "distinct (map cn_id (pl_idle p))" using assms(1) by (simp add: pool_inv_def)
  then have inj: "inj_on cn_id (set (pl_idle p))" by (simp add: distinct_map)
  have age: "idle_age (?e c) = last_use c" for c by (simp add: idle_age_def last_use_def)
  have "inj_on last_use (set (pl_idle p))" by (rule inj_onI) (use inj in \<open>auto simp: last_use_def dest: inj_onD\<close>)
  then have keys: "distinct (map idle_age (idle_entries p))"
    using d by (simp add: es distinct_map o_def age)
  have card: "card {e \<in> set (idle_entries p). last_use c < idle_age e} = card {c' \<in> set (pl_idle p). last_use c < last_use c'}" for c
  proof -
    have "{e \<in> set (idle_entries p). last_use c < idle_age e} = ?e ` {c' \<in> set (pl_idle p). last_use c < last_use c'}"
      by (auto simp: es age)
    moreover have "inj_on ?e {c' \<in> set (pl_idle p). last_use c < last_use c'}"
      by (rule inj_onI) (use inj in \<open>auto dest: inj_onD\<close>)
    ultimately show ?thesis by (simp add: card_image)
  qed
  show "set (reap p config now) =
    {cn_id c |c. c \<in> set (pl_idle p) \<and>
        (rp_keep_warm config \<le> card {c' \<in> set (pl_idle p). last_use c < last_use c'} \<and>
         rp_idle_timeout config \<le> now - the (cn_idle_since c) \<or>
         lifetime_expired (cn_opened_at c) (rp_max_lifetime config) now)}"
    unfolding reap_set(1) [OF keys] card [symmetric] unfolding es last_use_def by auto
  show "distinct (reap p config now)"
    using reap_set(2) [OF keys] d by (simp add: es o_def)
qed

text \<open>
  C28. The reaper closes exactly the right connections, each once. In every pool a sequence of operations
  leads to, it names an idle connection just when the connection has been idle for the timeout while at
  least as many idle connections as are to be kept warm were used more recently, or when it has outlived
  its lifetime, whether it is kept warm or not. A connection in use is never named.
\<close>

theorem reaper_exact:
  "let p = snd (pool_run ops (pool_new key pool_config)) in
     distinct (reap p config now) \<and>
     set (reap p config now) =
       {cn_id c |c. c \<in> set (pl_idle p) \<and>
          (rp_keep_warm config \<le> card {c' \<in> set (pl_idle p). last_use c < last_use c'} \<and>
           rp_idle_timeout config \<le> now - the (cn_idle_since c) \<or>
           lifetime_expired (cn_opened_at c) (rp_max_lifetime config) now)} \<and>
     set (reap p config now) \<inter> fst ` set (pl_checked_out p) = {}"
proof -
  define p where "p = snd (pool_run ops (pool_new key pool_config))"
  have inv: "pool_inv p" using pool_run_life [OF pool_new_inv, of ops key pool_config] unfolding p_def by (metis prod.collapse)
  have st: "idle_stamped p" unfolding p_def by (rule pool_run_stamped) (simp add: idle_stamped_def pool_new_def)
  have "set (reap p config now) \<subseteq> cn_id ` set (pl_idle p)" unfolding reap_connections(1) [OF inv st] by blast
  moreover have "fst ` set (pl_checked_out p) \<inter> cn_id ` set (pl_idle p) = {}" using inv by (simp add: pool_inv_def)
  ultimately have "set (reap p config now) \<inter> fst ` set (pl_checked_out p) = {}" by blast
  then show ?thesis
    unfolding p_def [symmetric] Let_def using reap_connections [OF inv st, of config now] by blast
qed

end
