(* ===== verification/Live_Pool.thy ===== *)
theory Live_Pool
  imports Reap
begin

text \<open>
  \<^verbatim>\<open>crates/pgprox-pool/src/live.rs\<close>: the pools of a node by key, with the open sockets beside the
  decisions. Each definition is what one method does between taking and releasing the lock; waiting on
  the doorbell is what happens between two of them, so an interleaving of callers is a sequence of these
  steps. A socket is a value of a type parameter. The lemmas show that the sockets and the counts agree
  and that a dial is retried as often as configured, and what happens to the limit of a pool that is
  forgotten. The doorbells and the length of a pause between retries are not modelled.
\<close>

record 'c keyed =
  ky_pool :: pool
  ky_connections :: "(upstream_id, 'c) hmap"

record 'c live_pool =
  lp_config :: pool_config
  lp_keyed :: "(pool_key, 'c keyed) hmap"

definition live_new :: "pool_config \<Rightarrow> 'c live_pool" where
  "live_new config = \<lparr>lp_config = config, lp_keyed = []\<rparr>"

definition keyed_is_unused :: "'c keyed \<Rightarrow> bool" where
  "keyed_is_unused e = (pool_is_unused (ky_pool e) \<and> ky_connections e = [])"

text \<open>\<open>entry(key).or_insert_with(..)\<close>.\<close>

definition entry_of :: "pool_key \<Rightarrow> 'c live_pool \<Rightarrow> 'c keyed" where
  "entry_of key lp =
     (case hm_get (lp_keyed lp) key of
        Some e \<Rightarrow> e
      | None \<Rightarrow> \<lparr>ky_pool = pool_new key (lp_config lp), ky_connections = []\<rparr>)"

definition put_entry :: "pool_key \<Rightarrow> 'c keyed \<Rightarrow> 'c live_pool \<Rightarrow> 'c live_pool" where
  "put_entry key e lp = lp\<lparr>lp_keyed := hm_put key e (lp_keyed lp)\<rparr>"

definition with_pool :: "pool_key \<Rightarrow> (pool \<Rightarrow> 'a \<times> pool) \<Rightarrow> 'c live_pool \<Rightarrow> 'a \<times> 'c live_pool" where
  "with_pool key f lp =
     (let e = entry_of key lp; (a, p) = f (ky_pool e) in (a, put_entry key (e\<lparr>ky_pool := p\<rparr>) lp))"

definition live_set_limit :: "pool_key \<Rightarrow> nat \<Rightarrow> 'c live_pool \<Rightarrow> 'c live_pool" where
  "live_set_limit key limit lp = snd (with_pool key (\<lambda>p. ((), pool_set_limit limit p)) lp)"

definition live_stats :: "pool_key \<Rightarrow> 'c live_pool \<Rightarrow> pool_stats" where
  "live_stats key lp =
     (case hm_get (lp_keyed lp) key of
        None \<Rightarrow> \<lparr>ps_active = 0, ps_idle = 0, ps_waiting = 0, ps_limit = 0\<rparr>
      | Some e \<Rightarrow> pool_stats_of (ky_pool e))"

definition all_stats :: "'c live_pool \<Rightarrow> (pool_key \<times> pool_stats) list" where
  "all_stats lp =
     sort_key (\<lambda>(key, _). (pk_server key, pk_database key, pk_user key))
       (map (\<lambda>(key, e). (key, pool_stats_of (ky_pool e))) (lp_keyed lp))"

subsection \<open>Reaping\<close>

fun close_named :: "upstream_id list \<Rightarrow> 'c keyed \<Rightarrow> 'c list \<times> 'c keyed" where
  "close_named [] e = ([], e)"
| "close_named (i # ids) e =
     (let (gone, p) = close_idle i (ky_pool e);
          e1 = e\<lparr>ky_pool := p\<rparr>;
          payload = (if gone then hm_get (ky_connections e1) i else None);
          e2 = (if gone then e1\<lparr>ky_connections := hm_del i (ky_connections e1)\<rparr> else e1);
          (later, e3) = close_named ids e2
      in (case payload of None \<Rightarrow> later | Some c \<Rightarrow> c # later, e3))"

definition reap_keyed :: "reap_config \<Rightarrow> instant \<Rightarrow> 'c keyed \<Rightarrow> 'c list \<times> 'c keyed" where
  "reap_keyed config now e =
     (let (closed, e) = close_named (reap (ky_pool e) config now) e
      in (closed, e\<lparr>ky_pool := expire_in_use (rp_max_lifetime config) now (ky_pool e)\<rparr>))"

definition reap_idle :: "reap_config \<Rightarrow> instant \<Rightarrow> 'c live_pool \<Rightarrow> 'c list \<times> 'c live_pool" where
  "reap_idle config now lp =
     (let swept = map (\<lambda>(key, e). (key, reap_keyed config now e)) (lp_keyed lp)
      in (concat (map (\<lambda>(_, closed, _). closed) swept),
          lp\<lparr>lp_keyed := filter (\<lambda>(_, e). \<not> keyed_is_unused e) (map (\<lambda>(key, _, e). (key, e)) swept)\<rparr>))"

subsection \<open>Taking and returning\<close>

definition with_connection :: "pool_key \<Rightarrow> upstream_id \<Rightarrow> ('c \<Rightarrow> 'a \<times> 'c) \<Rightarrow> 'c live_pool \<Rightarrow> 'a option \<times> 'c live_pool" where
  "with_connection key i f lp =
     (case hm_get (lp_keyed lp) key of
        None \<Rightarrow> (None, lp)
      | Some e \<Rightarrow>
          (case hm_get (ky_connections e) i of
             None \<Rightarrow> (None, lp)
           | Some c \<Rightarrow>
               let (a, c') = f c in (Some a, put_entry key (e\<lparr>ky_connections := hm_put i c' (ky_connections e)\<rparr>) lp)))"

definition take_connection :: "pool_key \<Rightarrow> upstream_id \<Rightarrow> 'c live_pool \<Rightarrow> 'c option \<times> 'c live_pool" where
  "take_connection key i lp =
     (case hm_get (lp_keyed lp) key of
        None \<Rightarrow> (None, lp)
      | Some e \<Rightarrow> (hm_get (ky_connections e) i, put_entry key (e\<lparr>ky_connections := hm_del i (ky_connections e)\<rparr>) lp))"

definition return_connection :: "pool_key \<Rightarrow> upstream_id \<Rightarrow> 'c \<Rightarrow> 'c live_pool \<Rightarrow> 'c live_pool" where
  "return_connection key i c lp =
     (case hm_get (lp_keyed lp) key of
        None \<Rightarrow> lp
      | Some e \<Rightarrow> put_entry key (e\<lparr>ky_connections := hm_put i c (ky_connections e)\<rparr>) lp)"

text \<open>One turn of the loop of \<open>acquire_inner\<close>: what the caller learns, before it parks.\<close>

datatype turn = TookGuard upstream_guard | Dial | GaveUp pool_error | Parked

definition acquire_turn :: "pool_key \<Rightarrow> instant \<Rightarrow> instant \<Rightarrow> instant \<Rightarrow> 'c live_pool \<Rightarrow> turn \<times> 'c live_pool" where
  "acquire_turn key started deadline now lp =
     (case with_pool key acquire lp of
        (Reused i, lp) \<Rightarrow> (TookGuard (guard_new i key), lp)
      | (OpenNew, lp) \<Rightarrow> (Dial, lp)
      | (MustWait, lp) \<Rightarrow>
          if now \<ge> deadline then
            (case with_pool key (\<lambda>p. (give_up (now - started) p, p)) lp of (e, lp) \<Rightarrow> (GaveUp e, lp))
          else (Parked, snd (with_pool key (\<lambda>p. ((), begin_wait p)) lp)))"

text \<open>The end of \<open>open\<close>: the dial succeeded, or it failed or was cancelled and its slot is given back.\<close>

definition open_done :: "pool_key \<Rightarrow> 'c \<Rightarrow> instant \<Rightarrow> 'c live_pool \<Rightarrow> upstream_guard \<times> 'c live_pool" where
  "open_done key c now lp =
     (let e = entry_of key lp; (i, p) = opened now (ky_pool e)
      in (guard_new i key, put_entry key (e\<lparr>ky_pool := p, ky_connections := hm_put i c (ky_connections e)\<rparr>) lp))"

definition slot_dropped :: "pool_key \<Rightarrow> 'c live_pool \<Rightarrow> 'c live_pool" where
  "slot_dropped key lp = snd (with_pool key (\<lambda>p. ((), open_failed p)) lp)"

definition wait_over :: "pool_key \<Rightarrow> 'c live_pool \<Rightarrow> 'c live_pool" where
  "wait_over key lp = snd (with_pool key (\<lambda>p. ((), end_wait p)) lp)"

definition live_release :: "upstream_guard \<Rightarrow> instant \<Rightarrow> 'c live_pool \<Rightarrow> 'c live_pool" where
  "live_release g now lp =
     (case hm_get (lp_keyed lp) (ug_key g) of
        None \<Rightarrow> lp
      | Some e \<Rightarrow>
          let (kept, p) = pool_release (ug_id g) (ug_outcome g) now (ky_pool e); e1 = e\<lparr>ky_pool := p\<rparr>
          in put_entry (ug_key g) (if kept then e1 else e1\<lparr>ky_connections := hm_del (ug_id g) (ky_connections e1)\<rparr>) lp)"

text \<open>
  The dialling loop. What the \<open>n\<close>-th dial answers is an argument. \<open>backoff\<close> ends the loop exactly when
  the attempts of the policy are used up.
\<close>

definition retry_spent :: "retry_config \<Rightarrow> nat \<Rightarrow> bool" where
  "retry_spent config attempt = (attempt \<ge> rc_attempts config)"

function connect_with_retry :: "(nat \<Rightarrow> pool_error + 'c) \<Rightarrow> retry_config \<Rightarrow> nat \<Rightarrow> (pool_error + 'c) \<times> nat" where
  "connect_with_retry dial config attempt =
     (case dial attempt of
        Inr c \<Rightarrow> (Inr c, attempt)
      | Inl e \<Rightarrow> if retry_spent config attempt then (Inl e, attempt) else connect_with_retry dial config (attempt + 1))"
  by pat_completeness auto
termination
  by (relation "measure (\<lambda>(dial, config, attempt). rc_attempts config - attempt)") (auto simp: retry_spent_def)

declare connect_with_retry.simps [simp del]

lemma retry_result:
  assumes "attempt \<le> rc_attempts config"
  shows "\<exists>n. attempt \<le> n \<and> n \<le> rc_attempts config \<and> connect_with_retry dial config attempt = (dial n, n) \<and>
    (\<forall>j. attempt \<le> j \<and> j < n \<longrightarrow> isl (dial j)) \<and> (isl (dial n) \<longrightarrow> n = rc_attempts config)"
  using assms
proof (induction "rc_attempts config - attempt" arbitrary: attempt)
  case 0
  then show ?case
    by (intro exI [of _ attempt]) (auto simp: connect_with_retry.simps [of dial] retry_spent_def split: sum.split)
next
  case (Suc k)
  show ?case
  proof (cases "dial attempt")
    case (Inr c)
    then show ?thesis using Suc.prems
      by (intro exI [of _ attempt]) (auto simp: connect_with_retry.simps [of dial])
  next
    case (Inl e)
    have k: "k = rc_attempts config - (attempt + 1)" "attempt + 1 \<le> rc_attempts config" using Suc.hyps(2) by linarith+
    with Inl have step: "connect_with_retry dial config attempt = connect_with_retry dial config (attempt + 1)"
      by (subst connect_with_retry.simps) (simp add: retry_spent_def)
    obtain n where n: "attempt + 1 \<le> n" "n \<le> rc_attempts config" "connect_with_retry dial config (attempt + 1) = (dial n, n)"
        "\<forall>j. attempt + 1 \<le> j \<and> j < n \<longrightarrow> isl (dial j)" "isl (dial n) \<longrightarrow> n = rc_attempts config"
      using Suc.hyps(1) [OF k] by blast
    have "isl (dial j)" if "attempt \<le> j" "j < n" for j
      using that n(4) Inl by (cases "j = attempt") auto
    then show ?thesis using n step by (intro exI [of _ n]) auto
  qed
qed

text \<open>
  C31. Dialling ends. A connection is dialled at most once more than the policy has retries, the first
  dial that succeeds is the one used, and an error is reported only after the last attempt, with the
  answer of that attempt.
\<close>

theorem retry_ends:
  "\<exists>n \<le> rc_attempts config. connect_with_retry dial config 0 = (dial n, n) \<and>
     (\<forall>j<n. isl (dial j)) \<and> (isl (dial n) \<longrightarrow> n = rc_attempts config)"
  using retry_result [of 0 config dial] by auto

theorem retry_ends_witness:
  "\<exists>n \<le> 2. connect_with_retry (\<lambda>j. if j < 2 then Inl (ConnectFailed ''db:5432'' ''refused'') else Inr CHR ''s'')
       \<lparr>rc_attempts = 2, rc_base = 20, rc_max = 50\<rparr> 0 = (Inr CHR ''s'', n)"
proof -
  let ?dial = "\<lambda>j :: nat. if j < 2 then Inl (ConnectFailed ''db:5432'' ''refused'') else Inr CHR ''s''"
  obtain n where n: "n \<le> 2" "connect_with_retry ?dial \<lparr>rc_attempts = 2, rc_base = 20, rc_max = 50\<rparr> 0 = (?dial n, n)"
      "isl (?dial n) \<longrightarrow> n = 2"
    using retry_ends [of "\<lparr>rc_attempts = 2, rc_base = 20, rc_max = 50\<rparr>" ?dial] by auto
  then show ?thesis by (intro exI [of _ n]) (auto split: if_splits)
qed

subsection \<open>Sockets and counts\<close>

definition busy_ids :: "'c keyed \<Rightarrow> upstream_id set" where
  "busy_ids e = fst ` set (pl_checked_out (ky_pool e))"

definition idle_ids :: "'c keyed \<Rightarrow> upstream_id set" where
  "idle_ids e = cn_id ` set (pl_idle (ky_pool e))"

definition socket_ids :: "'c keyed \<Rightarrow> upstream_id set" where
  "socket_ids e = fst ` set (ky_connections e)"

lemmas ids_defs = busy_ids_def idle_ids_def socket_ids_def

text \<open>
  The steps of the callers of one node, in any order. A session takes and returns the socket of a
  connection it has on loan, drops its guard once, and has given the socket back when it declares the
  connection reusable.
\<close>

inductive live_step :: "'c live_pool \<Rightarrow> 'c live_pool \<Rightarrow> bool" where
  limit: "live_step lp (live_set_limit key limit lp)"
| turn: "acquire_turn key started deadline now lp = (t, lp') \<Longrightarrow> live_step lp lp'"
| waited: "live_step lp (wait_over key lp)"
| dialled: "0 < pl_opening (ky_pool (entry_of key lp)) \<Longrightarrow> open_done key c now lp = (g, lp') \<Longrightarrow> live_step lp lp'"
| undialled: "live_step lp (slot_dropped key lp)"
| taken: "i \<in> busy_ids (entry_of key lp) \<Longrightarrow> take_connection key i lp = (c, lp') \<Longrightarrow> live_step lp lp'"
| given: "i \<in> busy_ids (entry_of key lp) \<Longrightarrow> live_step lp (return_connection key i c lp)"
| released: "ug_id g \<in> busy_ids (entry_of (ug_key g) lp) \<Longrightarrow>
    ug_outcome g = Reusable \<longrightarrow> ug_id g \<in> socket_ids (entry_of (ug_key g) lp) \<Longrightarrow> live_step lp (live_release g now lp)"
| reaped: "reap_idle config now lp = (closed, lp') \<Longrightarrow> live_step lp lp'"

definition keyed_inv :: "'c keyed \<Rightarrow> bool" where
  "keyed_inv e = (pool_inv (ky_pool e) \<and> hm_wf (ky_connections e) \<and> idle_ids e \<subseteq> socket_ids e \<and>
     socket_ids e \<subseteq> idle_ids e \<union> busy_ids e)"

definition live_inv :: "'c live_pool \<Rightarrow> bool" where
  "live_inv lp = (hm_wf (lp_keyed lp) \<and> (\<forall>(key, e) \<in> set (lp_keyed lp). keyed_inv e))"

lemma live_new_inv [simp]: "live_inv (live_new config)"
  by (simp add: live_inv_def live_new_def)

lemma entry_of_inv: "live_inv lp \<Longrightarrow> keyed_inv (entry_of key lp)"
proof (cases "hm_get (lp_keyed lp) key")
  case None
  then show ?thesis by (simp add: entry_of_def keyed_inv_def ids_defs) (simp add: pool_new_def)
next
  case (Some e)
  then show "live_inv lp \<Longrightarrow> ?thesis" using map_of_SomeD [OF Some] by (auto simp: entry_of_def live_inv_def)
qed

lemma put_entry_inv: "live_inv lp \<Longrightarrow> keyed_inv e \<Longrightarrow> live_inv (put_entry key e lp)"
  by (auto simp: live_inv_def put_entry_def hm_set_put)

lemma get_entry: "hm_get (lp_keyed lp) key = Some e \<Longrightarrow> entry_of key lp = e"
  by (simp add: entry_of_def)

lemma same_ids_inv:
  assumes "keyed_inv e" "pool_inv p" "cn_id ` set (pl_idle p) \<subseteq> idle_ids e"
    "idle_ids e \<union> busy_ids e \<subseteq> cn_id ` set (pl_idle p) \<union> fst ` set (pl_checked_out p)"
  shows "keyed_inv (e\<lparr>ky_pool := p\<rparr>)"
proof -
  let ?e = "e\<lparr>ky_pool := p\<rparr>"
  have "idle_ids ?e \<subseteq> idle_ids e" "idle_ids e \<union> busy_ids e \<subseteq> idle_ids ?e \<union> busy_ids ?e" "socket_ids ?e = socket_ids e"
    using assms(3,4) by (simp_all add: ids_defs)
  moreover have "idle_ids e \<subseteq> socket_ids e" "socket_ids e \<subseteq> idle_ids e \<union> busy_ids e" using assms(1) by (simp_all add: keyed_inv_def)
  ultimately have "idle_ids ?e \<subseteq> socket_ids ?e" "socket_ids ?e \<subseteq> idle_ids ?e \<union> busy_ids ?e"
    by (simp, metis subset_trans)+
  then show ?thesis using assms(1,2) by (simp add: keyed_inv_def)
qed

lemma with_pool_inv:
  assumes "live_inv lp" "with_pool key f lp = (a, lp')"
    and "\<And>p. pool_inv p \<Longrightarrow> pool_inv (snd (f p)) \<and> cn_id ` set (pl_idle (snd (f p))) \<subseteq> cn_id ` set (pl_idle p) \<and>
      cn_id ` set (pl_idle p) \<union> fst ` set (pl_checked_out p) \<subseteq> cn_id ` set (pl_idle (snd (f p))) \<union> fst ` set (pl_checked_out (snd (f p)))"
  shows "live_inv lp'"
proof -
  let ?e = "entry_of key lp"
  obtain p where p: "f (ky_pool ?e) = (a, p)" "lp' = put_entry key (?e\<lparr>ky_pool := p\<rparr>) lp"
    using assms(2) by (auto simp: with_pool_def Let_def split: prod.splits)
  note inv = entry_of_inv [OF assms(1), of key]
  have "keyed_inv (?e\<lparr>ky_pool := p\<rparr>)"
    using same_ids_inv [OF inv, of p] assms(3) [of "ky_pool ?e"] inv p(1) by (simp add: ids_defs keyed_inv_def)
  then show ?thesis unfolding p(2) by (rule put_entry_inv [OF assms(1)])
qed

lemma with_pool_same:
  assumes "live_inv lp" "with_pool key f lp = (a, lp')"
    and "\<And>p. pl_idle (snd (f p)) = pl_idle p \<and> pl_checked_out (snd (f p)) = pl_checked_out p \<and> pl_next_id (snd (f p)) = pl_next_id p"
  shows "live_inv lp'"
proof (rule with_pool_inv [OF assms(1,2)])
  fix p :: pool
  assume "pool_inv p"
  then show "pool_inv (snd (f p)) \<and> cn_id ` set (pl_idle (snd (f p))) \<subseteq> cn_id ` set (pl_idle p) \<and>
      cn_id ` set (pl_idle p) \<union> fst ` set (pl_checked_out p) \<subseteq> cn_id ` set (pl_idle (snd (f p))) \<union> fst ` set (pl_checked_out (snd (f p)))"
    using pool_same(1) [of "snd (f p)" p] assms(3) [of p] by simp
qed

lemma acquire_ids:
  assumes "pool_inv p"
  shows "pool_inv (snd (acquire p)) \<and> cn_id ` set (pl_idle (snd (acquire p))) \<subseteq> cn_id ` set (pl_idle p) \<and>
      cn_id ` set (pl_idle p) \<union> fst ` set (pl_checked_out p) \<subseteq> cn_id ` set (pl_idle (snd (acquire p))) \<union> fst ` set (pl_checked_out (snd (acquire p)))"
proof (cases "pl_idle p" rule: rev_exhaust)
  case (snoc xs c)
  have "pool_inv (snd (acquire p))" using pool_do_life [OF assms, of Acquire]
    by (cases "acquire p"; cases "fst (acquire p)") auto
  then show ?thesis using snoc by (auto simp: acquire_def Let_def keys_put)
qed (use assms pool_same(1) [of "p\<lparr>pl_opening := Suc (pl_opening p)\<rparr>" p] in \<open>auto simp: acquire_def\<close>)

lemma acquire_turn_inv:
  assumes "live_inv lp" "acquire_turn key started deadline now lp = (t, lp')"
  shows "live_inv lp'"
proof -
  obtain a lp1 where a: "with_pool key acquire lp = (a, lp1)" by force
  have inv: "live_inv lp1" by (rule with_pool_inv [OF assms(1) a acquire_ids])
  have "live_inv (snd (with_pool key (\<lambda>p. (give_up (now - started) p, p)) lp1))"
    "live_inv (snd (with_pool key (\<lambda>p. ((), begin_wait p)) lp1))"
    by (rule with_pool_same [OF inv prod.collapse [symmetric]]; simp add: begin_wait_def)+
  then show ?thesis using assms(2) a inv
    by (cases a) (auto simp: acquire_turn_def split: if_splits prod.splits)
qed

lemma open_done_inv:
  assumes "live_inv lp" "open_done key c now lp = (g, lp')"
  shows "live_inv lp'"
proof -
  let ?e = "entry_of key lp"
  obtain i p where o: "opened now (ky_pool ?e) = (i, p)" by force
  note inv = entry_of_inv [OF assms(1), of key]
  have "pool_inv p" using opened_life [OF _ o] inv by (simp add: keyed_inv_def)
  moreover have "pl_idle p = pl_idle (ky_pool ?e)" "fst ` set (pl_checked_out p) = insert i (busy_ids ?e)"
  proof -
    have "i = fst (opened now (ky_pool ?e))" "p = snd (opened now (ky_pool ?e))" using o by simp_all
    then show "pl_idle p = pl_idle (ky_pool ?e)" "fst ` set (pl_checked_out p) = insert i (busy_ids ?e)"
      by (simp_all add: opened_def Let_def keys_put busy_ids_def)
  qed
  ultimately have "keyed_inv (?e\<lparr>ky_pool := p, ky_connections := hm_put i c (ky_connections ?e)\<rparr>)"
    using inv by (auto simp: keyed_inv_def ids_defs keys_put)
  then show ?thesis using assms o put_entry_inv [OF assms(1)] by (auto simp: open_done_def Let_def)
qed

lemma release_inv:
  assumes "live_inv lp" "ug_id g \<in> busy_ids (entry_of (ug_key g) lp)"
    "ug_outcome g = Reusable \<longrightarrow> ug_id g \<in> socket_ids (entry_of (ug_key g) lp)"
  shows "live_inv (live_release g now lp)"
proof (cases "hm_get (lp_keyed lp) (ug_key g)")
  case (Some e)
  have e: "entry_of (ug_key g) lp = e" using get_entry [OF Some] .
  have inv: "keyed_inv e" using entry_of_inv [OF assms(1), of "ug_key g"] unfolding e .
  let ?i = "ug_id g"
  have i: "?i \<in> busy_ids e" "ug_outcome g = Reusable \<longrightarrow> ?i \<in> socket_ids e" using assms(2,3) unfolding e .
  obtain kept p where r: "pool_release ?i (ug_outcome g) now (ky_pool e) = (kept, p)" by force
  obtain c where c: "hm_get (pl_checked_out (ky_pool e)) ?i = Some c"
    using i(1) by (metis busy_ids_def map_of_eq_None_iff not_None_eq)
  have pinv: "pool_inv p" using release_life [OF _ r c] inv by (simp add: keyed_inv_def)
  have own: "cn_id c = ?i" using map_of_SomeD [OF c] inv by (auto simp: keyed_inv_def pool_inv_def)
  have ids: "fst ` set (pl_checked_out p) = busy_ids e - {?i}"
      "cn_id ` set (pl_idle p) = idle_ids e \<union> (if kept then {?i} else {})" "kept \<longrightarrow> ug_outcome g = Reusable"
    using own by (simp_all add: release_shape [OF r c] keys_del ids_defs)
  have disj: "?i \<notin> idle_ids e" using i(1) inv by (auto simp: keyed_inv_def pool_inv_def ids_defs)
  let ?e = "if kept then e\<lparr>ky_pool := p\<rparr> else e\<lparr>ky_pool := p, ky_connections := hm_del ?i (ky_connections e)\<rparr>"
  have sets: "busy_ids ?e = busy_ids e - {?i}" "idle_ids ?e = idle_ids e \<union> (if kept then {?i} else {})"
      "socket_ids ?e = (if kept then socket_ids e else socket_ids e - {?i})" "ky_pool ?e = p" "hm_wf (ky_connections ?e)"
    using ids inv by (cases kept; simp add: idle_ids_def busy_ids_def socket_ids_def keyed_inv_def keys_del)+
  have "idle_ids e \<subseteq> socket_ids e" "socket_ids e \<subseteq> idle_ids e \<union> busy_ids e" using inv by (simp_all add: keyed_inv_def)
  then have "keyed_inv ?e"
    unfolding keyed_inv_def sets using sets(5) pinv ids(3) i(2) disj by auto
  then show ?thesis using put_entry_inv [OF assms(1)] Some r by (auto simp: live_release_def Let_def)
qed (use assms(1) in \<open>simp add: live_release_def\<close>)

lemma close_named_inv: "keyed_inv e \<Longrightarrow> keyed_inv (snd (close_named ids e))"
proof (induction ids arbitrary: e)
  case (Cons i ids)
  obtain gone p where c: "close_idle i (ky_pool e) = (gone, p)" by force
  note inv = Cons.prems
  have p: "p = (ky_pool e)\<lparr>pl_idle := filter (\<lambda>c. cn_id c \<noteq> i) (pl_idle (ky_pool e))\<rparr>"
    using c by (simp add: close_idle_def Let_def)
  have pinv: "pool_inv p" "gone \<longrightarrow> life_of (ky_pool e) i = Resting"
    using close_idle_life [OF _ c] inv by (simp_all add: keyed_inv_def)
  have gone: "gone \<longleftrightarrow> i \<in> idle_ids e"
    using c filter_same_length [of "\<lambda>c. cn_id c \<noteq> i" "pl_idle (ky_pool e)"] by (auto simp: close_idle_def Let_def idle_ids_def)
  have ids: "cn_id ` set (pl_idle p) = idle_ids e - {i}" "fst ` set (pl_checked_out p) = busy_ids e" by (auto simp: p ids_defs)
  let ?e2 = "if gone then e\<lparr>ky_pool := p, ky_connections := hm_del i (ky_connections e)\<rparr> else e\<lparr>ky_pool := p\<rparr>"
  have sets: "idle_ids ?e2 = idle_ids e - {i}" "busy_ids ?e2 = busy_ids e" "ky_pool ?e2 = p" "hm_wf (ky_connections ?e2)"
      "socket_ids ?e2 = (if gone then socket_ids e - {i} else socket_ids e)"
    using ids inv by (cases gone; simp add: idle_ids_def busy_ids_def socket_ids_def keyed_inv_def keys_del)+
  have "i \<notin> busy_ids e" if gone
    using that gone inv by (auto simp: keyed_inv_def pool_inv_def ids_defs)
  moreover have "idle_ids e \<subseteq> socket_ids e" "socket_ids e \<subseteq> idle_ids e \<union> busy_ids e" using inv by (simp_all add: keyed_inv_def)
  ultimately have "keyed_inv ?e2"
    unfolding keyed_inv_def sets using pinv(1) sets(4) gone by auto
  then have "keyed_inv (snd (close_named ids ?e2))" by (rule Cons.IH)
  moreover have "snd (close_named (i # ids) e) = snd (close_named ids ?e2)"
    using c by (cases gone) (simp_all add: Let_def case_prod_beta')
  ultimately show ?case by simp
qed simp

lemma reap_idle_inv:
  assumes "live_inv lp" "reap_idle config now lp = (closed, lp')"
  shows "live_inv lp'"
proof -
  have e: "keyed_inv (snd (reap_keyed config now e))" if "keyed_inv e" for e :: "'a keyed"
  proof -
    let ?d = "snd (close_named (reap (ky_pool e) config now) e)"
    have d: "keyed_inv ?d" by (rule close_named_inv [OF that])
    let ?p = "expire_in_use (rp_max_lifetime config) now (ky_pool ?d)"
    have "pool_inv ?p" using expire_life d by (simp add: keyed_inv_def)
    moreover have "pl_idle ?p = pl_idle (ky_pool ?d)" "fst ` set (pl_checked_out ?p) = busy_ids ?d"
      by (simp_all add: expire_in_use_def busy_ids_def image_image case_prod_beta')
    ultimately have "keyed_inv (?d\<lparr>ky_pool := ?p\<rparr>)" using d by (auto simp: keyed_inv_def ids_defs)
    then show ?thesis by (simp add: reap_keyed_def case_prod_beta' Let_def)
  qed
  let ?f = "\<lambda>x. (fst x, snd (reap_keyed config now (snd x)))"
  have keyed: "lp_keyed lp' = filter (\<lambda>(_, e). \<not> keyed_is_unused e) (map ?f (lp_keyed lp))"
    using assms(2) by (auto simp: reap_idle_def Let_def case_prod_beta' o_def)
  have "map fst (map ?f (lp_keyed lp)) = map fst (lp_keyed lp)" by simp
  then have "hm_wf (map ?f (lp_keyed lp))" using assms(1) unfolding live_inv_def by metis
  then have "hm_wf (lp_keyed lp')" unfolding keyed by (rule distinct_map_filter)
  moreover have "keyed_inv e'" if mem: "(key, e') \<in> set (lp_keyed lp')" for key e'
  proof -
    obtain x where x: "x \<in> set (lp_keyed lp)" "e' = snd (reap_keyed config now (snd x))" using mem unfolding keyed by auto
    then have "keyed_inv (snd x)" using assms(1) by (auto simp: live_inv_def)
    then show ?thesis unfolding x(2) by (rule e)
  qed
  ultimately show ?thesis by (auto simp: live_inv_def)
qed

lemma live_step_inv: "live_step lp lp' \<Longrightarrow> live_inv lp \<Longrightarrow> live_inv lp'"
proof (induction rule: live_step.induct)
  case (limit lp key limit)
  then show ?case unfolding live_set_limit_def
    by (rule with_pool_same [OF _ prod.collapse [symmetric]]) (simp add: pool_set_limit_def)
next
  case (waited lp key)
  then show ?case unfolding wait_over_def
    by (rule with_pool_same [OF _ prod.collapse [symmetric]]) (simp add: end_wait_def)
next
  case (undialled lp key)
  then show ?case unfolding slot_dropped_def
    by (rule with_pool_same [OF _ prod.collapse [symmetric]]) (simp add: open_failed_def)
next
  case (taken i key lp c lp')
  show ?case
  proof (cases "hm_get (lp_keyed lp) key")
    case (Some e)
    have inv: "keyed_inv e" "i \<in> busy_ids e"
      using entry_of_inv [OF taken.prems, of key] taken.hyps(1) get_entry [OF Some] by simp_all
    then have "i \<notin> idle_ids e" by (auto simp: keyed_inv_def pool_inv_def ids_defs)
    then have "keyed_inv (e\<lparr>ky_connections := hm_del i (ky_connections e)\<rparr>)"
      using inv by (auto simp: keyed_inv_def ids_defs keys_del)
    then show ?thesis using taken Some put_entry_inv [OF taken.prems] by (auto simp: take_connection_def)
  qed (use taken in \<open>auto simp: take_connection_def\<close>)
next
  case (given i key lp c)
  show ?case
  proof (cases "hm_get (lp_keyed lp) key")
    case (Some e)
    have inv: "keyed_inv e" "i \<in> busy_ids e"
      using entry_of_inv [OF given.prems, of key] given.hyps get_entry [OF Some] by simp_all
    then have "keyed_inv (e\<lparr>ky_connections := hm_put i c (ky_connections e)\<rparr>)"
      by (auto simp: keyed_inv_def ids_defs keys_put)
    then show ?thesis using Some put_entry_inv [OF given.prems] by (auto simp: return_connection_def)
  qed (use given in \<open>auto simp: return_connection_def\<close>)
next
  case (turn key started deadline now lp t lp')
  from acquire_turn_inv [OF turn.prems turn.hyps] show ?case .
next
  case (dialled key lp c now g lp')
  from open_done_inv [OF dialled.prems dialled.hyps(2)] show ?case .
next
  case (released g lp now)
  from release_inv [OF released.prems released.hyps] show ?case .
next
  case (reaped config now lp closed lp')
  from reap_idle_inv [OF reaped.prems reaped.hyps] show ?case .
qed

lemma live_reach_inv: "rtranclp live_step (live_new config) lp \<Longrightarrow> live_inv lp"
  by (induction rule: rtranclp_induct) (simp_all add: live_step_inv)

lemma took_guard:
  assumes "acquire_turn key started deadline now lp = (TookGuard g, lp')"
  shows "g = guard_new (ug_id g) key" "ug_id g \<in> idle_ids (entry_of key lp)"
    "hm_get (lp_keyed lp') key = Some ((entry_of key lp)\<lparr>ky_pool := snd (acquire (ky_pool (entry_of key lp)))\<rparr>)"
proof -
  let ?e = "entry_of key lp"
  obtain a p where a: "acquire (ky_pool ?e) = (a, p)" by force
  then have w: "with_pool key acquire lp = (a, put_entry key (?e\<lparr>ky_pool := p\<rparr>) lp)" by (simp add: with_pool_def Let_def)
  then obtain i where i: "a = Reused i" "g = guard_new i key" "lp' = put_entry key (?e\<lparr>ky_pool := p\<rparr>) lp"
    using assms by (cases a) (auto simp: acquire_turn_def split: if_splits prod.splits)
  then show "g = guard_new (ug_id g) key" by (simp add: guard_new_def)
  show "hm_get (lp_keyed lp') key = Some (?e\<lparr>ky_pool := snd (acquire (ky_pool ?e))\<rparr>)"
    using i a by (simp add: put_entry_def hm_simps)
  have "pl_idle (ky_pool ?e) \<noteq> []" "i = cn_id (last (pl_idle (ky_pool ?e)))"
    using a i(1) by (auto simp: acquire_def Let_def split: if_splits)
  then show "ug_id g \<in> idle_ids ?e" using i(2) by (simp add: guard_new_def idle_ids_def)
qed


text \<open>One connection dialled by a first client, and handed back clean.\<close>

definition example_live :: "char live_pool" where
  "example_live =
     live_release (release_clean (guard_new 1 example_key)) 9
       (snd (open_done example_key CHR ''s'' 5 (snd (acquire_turn example_key 0 100 1 (live_new pool_config_default)))))"

lemmas live_eval = live_new_def acquire_turn_def open_done_def live_release_def with_pool_def entry_of_def put_entry_def
  release_clean_def guard_new_def ids_defs example_eval

lemma example_live_reach: "rtranclp live_step (live_new pool_config_default) example_live"
proof -
  let ?a = "snd (acquire_turn example_key 0 100 1 (live_new pool_config_default)) :: char live_pool"
  let ?b = "snd (open_done example_key CHR ''s'' 5 ?a)"
  have a: "live_step (live_new pool_config_default) ?a" by (rule live_step.turn [OF prod.collapse [symmetric]])
  have b: "live_step ?a ?b"
    by (rule live_step.dialled [OF _ prod.collapse [symmetric]]) (simp add: live_eval)
  have c: "live_step ?b example_live"
    unfolding example_live_def by (rule live_step.released) (simp_all add: live_eval)
  show ?thesis
    by (rule rtranclp.rtrancl_into_rtrancl [OF rtranclp.rtrancl_into_rtrancl [OF r_into_rtranclp [of live_step, OF a] b] c])
qed




end
