(* ===== verification/Wire_Read.thy ===== *)
theory Wire_Read
  imports Ascii Core_Cluster
begin

text \<open>
  \<^verbatim>\<open>crates/pgprox-proto/src/read.rs\<close>: bounds-checked reads over a message body, with what the
  standard library contributes to them: big-endian integers and the test for valid UTF-8. A body is a
  list of bytes, a reader the body and a position, and every failure is a value.
\<close>

subsection \<open>Integers on the wire\<close>

definition be :: "nat \<Rightarrow> nat \<Rightarrow> string" where
  "be width n = map (\<lambda>i. char_of (n div 256 ^ (width - 1 - i) mod 256)) [0..<width]"

definition of_be :: "string \<Rightarrow> nat" where
  "of_be bytes = foldl (\<lambda>acc c. acc * 256 + of_char c) 0 bytes"

text \<open>Two's complement at a width of \<open>k\<close> bits, both ways.\<close>

definition to_signed :: "nat \<Rightarrow> nat \<Rightarrow> int" where
  "to_signed k n = (if n < 2 ^ (k - 1) then int n else int n - 2 ^ k)"

definition unsigned_of :: "nat \<Rightarrow> int \<Rightarrow> nat" where
  "unsigned_of k i = nat (i mod 2 ^ k)"

abbreviation be32 :: "nat \<Rightarrow> string" where "be32 \<equiv> be 4"

definition i32_bytes :: "int \<Rightarrow> string" where
  "i32_bytes i = be 4 (unsigned_of 32 i)"

definition i16_bytes :: "int \<Rightarrow> string" where
  "i16_bytes i = be 2 (unsigned_of 16 i)"

lemma of_be_append: "of_be (a @ b) = of_be a * 256 ^ length b + of_be b"
proof -
  have "foldl (\<lambda>acc c. acc * 256 + of_char c) x b = x * 256 ^ length b + of_be b" for x :: nat
    unfolding of_be_def
  proof (induction b arbitrary: x)
    case (Cons c b)
    let ?F = "\<lambda>x. foldl (\<lambda>acc c. acc * 256 + of_char c) (x :: nat) b"
    have 1: "?F (x * 256 + of_char c) = (x * 256 + of_char c) * 256 ^ length b + ?F 0" by (rule Cons.IH)
    have 2: "?F (0 * 256 + of_char c) = (0 * 256 + of_char c) * 256 ^ length b + ?F 0" by (rule Cons.IH)
    show ?case
      unfolding foldl_Cons 1 2 by (simp only: length_Cons power_Suc distrib_right mult.assoc add.assoc mult_0 add_0)
  qed simp
  moreover have "of_be (a @ b) = foldl (\<lambda>acc c. acc * 256 + of_char c) (of_be a) b"
    by (simp add: of_be_def)
  ultimately show ?thesis by metis
qed

lemma length_be [simp]: "length (be w n) = w"
  by (simp add: be_def)

lemma be_Suc: "be (Suc w) n = be w (n div 256) @ [char_of (n mod 256)]"
proof -
  have "n div 256 ^ (w - i) mod 256 = n div 256 div 256 ^ (w - 1 - i) mod 256" if "i < w" for i
  proof -
    have "256 ^ (w - i) = (256 :: nat) * 256 ^ (w - 1 - i)"
      using that by (metis Suc_diff_Suc Suc_diff_1 diff_commute diff_diff_left less_nat_zero_code
          linorder_neqE_nat plus_1_eq_Suc power_Suc zero_less_diff)
    then show ?thesis by (simp add: div_mult2_eq)
  qed
  then show ?thesis by (simp add: be_def)
qed

lemma of_be_be: "n < 256 ^ w \<Longrightarrow> of_be (be w n) = n"
proof (induction w arbitrary: n)
  case 0
  then show ?case by (simp add: be_def of_be_def)
next
  case (Suc w)
  have "n div 256 < 256 ^ w" using Suc.prems by (simp add: less_mult_imp_div_less)
  then have "of_be (be w (n div 256)) = n div 256" by (rule Suc.IH)
  moreover have "of_be [char_of (n mod 256)] = n mod 256"
    by (simp add: of_be_def take_bit_eq_mod)
  ultimately show ?case by (simp add: be_Suc of_be_append)
qed

lemma to_signed_unsigned:
  assumes "0 < k" "- (2 ^ (k - 1)) \<le> i" "i < 2 ^ (k - 1)"
  shows "to_signed k (unsigned_of k i) = i"
proof -
  have p: "(2 :: int) ^ k = 2 * 2 ^ (k - 1)" using assms(1) by (metis Suc_diff_1 power_Suc)
  show ?thesis
  proof (cases "0 \<le> i")
    case True
    then have "i mod 2 ^ k = i" using assms(3) p by (intro mod_pos_pos_trivial) simp_all
    then show ?thesis using True assms(3) by (simp add: to_signed_def unsigned_of_def nat_less_iff)
  next
    case False
    then have "(i + 2 ^ k) mod 2 ^ k = i + 2 ^ k" using assms(2) p by (intro mod_pos_pos_trivial) simp_all
    then have m: "i mod 2 ^ k = i + 2 ^ k" by simp
    then have "\<not> nat (i mod 2 ^ k) < 2 ^ (k - 1)" using assms(2) p by (simp add: nat_less_iff)
    then show ?thesis using m False assms(2) p by (simp add: to_signed_def unsigned_of_def)
  qed
qed

lemma unsigned_of_less: "unsigned_of k i < 2 ^ k"
  by (simp add: unsigned_of_def nat_less_iff)

lemma read_i32_bytes:
  "- 2147483648 \<le> i \<Longrightarrow> i < 2147483648 \<Longrightarrow> to_signed 32 (of_be (i32_bytes i)) = i"
  using to_signed_unsigned [of 32 i] unsigned_of_less [of 32 i] of_be_be [of "unsigned_of 32 i" 4]
  by (simp add: i32_bytes_def)

lemma read_i16_bytes: "- 32768 \<le> i \<Longrightarrow> i < 32768 \<Longrightarrow> to_signed 16 (of_be (i16_bytes i)) = i"
  using to_signed_unsigned [of 16 i] unsigned_of_less [of 16 i] of_be_be [of "unsigned_of 16 i" 2]
  by (simp add: i16_bytes_def)

lemma length_int_bytes [simp]: "length (i32_bytes i) = 4" "length (i16_bytes i) = 2"
  by (simp_all add: i32_bytes_def i16_bytes_def)

subsection \<open>Valid UTF-8\<close>

text \<open>The table of well-formed byte sequences, one row per range of leading bytes.\<close>

definition cont :: "nat \<Rightarrow> bool" where
  "cont b = (128 \<le> b \<and> b \<le> 191)"

definition utf8_two :: "nat \<Rightarrow> nat \<Rightarrow> bool" where
  "utf8_two a b = (194 \<le> a \<and> a \<le> 223 \<and> cont b)"

definition utf8_three :: "nat \<Rightarrow> nat \<Rightarrow> nat \<Rightarrow> bool" where
  "utf8_three a b c =
     (cont c \<and>
      (a = 224 \<and> 160 \<le> b \<and> b \<le> 191 \<or>
       (225 \<le> a \<and> a \<le> 236 \<or> 238 \<le> a \<and> a \<le> 239) \<and> cont b \<or>
       a = 237 \<and> 128 \<le> b \<and> b \<le> 159))"

definition utf8_four :: "nat \<Rightarrow> nat \<Rightarrow> nat \<Rightarrow> nat \<Rightarrow> bool" where
  "utf8_four a b c d =
     (cont c \<and> cont d \<and>
      (a = 240 \<and> 144 \<le> b \<and> b \<le> 191 \<or>
       241 \<le> a \<and> a \<le> 243 \<and> cont b \<or>
       a = 244 \<and> 128 \<le> b \<and> b \<le> 143))"

fun utf8_bytes :: "nat list \<Rightarrow> bool" where
  "utf8_bytes [] = True"
| "utf8_bytes (a # s) =
     (if a < 128 then utf8_bytes s
      else case s of
        [] \<Rightarrow> False
      | b # s' \<Rightarrow>
          if utf8_two a b then utf8_bytes s'
          else case s' of
            [] \<Rightarrow> False
          | c # s'' \<Rightarrow>
              if utf8_three a b c then utf8_bytes s''
              else case s'' of
                [] \<Rightarrow> False
              | d # s''' \<Rightarrow> utf8_four a b c d \<and> utf8_bytes s''')"

definition from_utf8 :: "string \<Rightarrow> string option" where
  "from_utf8 s = (if utf8_bytes (map of_char s) then Some s else None)"

lemma utf8_ascii: "list_all is_ascii s \<Longrightarrow> from_utf8 s = Some s"
proof -
  assume "list_all is_ascii s"
  then have "utf8_bytes (map of_char s)" by (induction s) (auto simp: is_ascii_def)
  then show ?thesis by (simp add: from_utf8_def)
qed

subsection \<open>The reader\<close>

datatype field_error =
    Truncated string nat
  | Unterminated
  | OutOfRange string int
  | NotUtf8 string

record reader =
  r_buf :: string
  r_pos :: nat

definition reader_new :: "string \<Rightarrow> reader" where
  "reader_new buf = \<lparr>r_buf = buf, r_pos = 0\<rparr>"

definition remaining :: "reader \<Rightarrow> string" where
  "remaining r = drop (r_pos r) (r_buf r)"

definition reader_is_empty :: "reader \<Rightarrow> bool" where
  "reader_is_empty r = (r_pos r \<ge> length (r_buf r))"

text \<open>\<open>end_of\<close> checks the sum against \<open>usize::MAX\<close>, and the slice against the body.\<close>

definition usize_max :: nat where
  "usize_max = 18446744073709551615"

definition end_of :: "nat \<Rightarrow> string \<Rightarrow> reader \<Rightarrow> field_error + nat" where
  "end_of width what r =
     (if r_pos r + width > usize_max then Inl (Truncated what (r_pos r)) else Inr (r_pos r + width))"

definition read_bytes :: "nat \<Rightarrow> string \<Rightarrow> reader \<Rightarrow> field_error + (string \<times> reader)" where
  "read_bytes n what r =
     (case end_of n what r of
        Inl e \<Rightarrow> Inl e
      | Inr e \<Rightarrow>
          if e > length (r_buf r) then Inl (Truncated what (r_pos r))
          else Inr (take n (drop (r_pos r) (r_buf r)), r\<lparr>r_pos := e\<rparr>))"

definition read_u8 :: "string \<Rightarrow> reader \<Rightarrow> field_error + (char \<times> reader)" where
  "read_u8 what r =
     (if r_pos r < length (r_buf r) then Inr (r_buf r ! r_pos r, r\<lparr>r_pos := r_pos r + 1\<rparr>)
      else Inl (Truncated what (r_pos r)))"

definition read_i32 :: "string \<Rightarrow> reader \<Rightarrow> field_error + (int \<times> reader)" where
  "read_i32 what r =
     (case read_bytes 4 what r of Inl e \<Rightarrow> Inl e | Inr (b, r) \<Rightarrow> Inr (to_signed 32 (of_be b), r))"

definition read_i16 :: "string \<Rightarrow> reader \<Rightarrow> field_error + (int \<times> reader)" where
  "read_i16 what r =
     (case read_bytes 2 what r of Inl e \<Rightarrow> Inl e | Inr (b, r) \<Rightarrow> Inr (to_signed 16 (of_be b), r))"

definition read_cstr :: "string \<Rightarrow> reader \<Rightarrow> field_error + (string \<times> reader)" where
  "read_cstr what r =
     (let rest = drop (r_pos r) (r_buf r)
      in case find_char CHR 0x00 rest of
           None \<Rightarrow> Inl Unterminated
         | Some e \<Rightarrow>
             (case from_utf8 (take e rest) of
                None \<Rightarrow> Inl (NotUtf8 what)
              | Some text \<Rightarrow> Inr (text, r\<lparr>r_pos := r_pos r + (e + 1)\<rparr>)))"

subsection \<open>Reading what was written\<close>

text \<open>A reader whose remaining bytes are known. The read functions move it over a prefix.\<close>

definition at :: "reader \<Rightarrow> string \<Rightarrow> bool" where
  "at r s = (remaining r = s \<and> r_pos r \<le> length (r_buf r) \<and> length (r_buf r) \<le> usize_max)"

lemma at_new: "length s \<le> usize_max \<Longrightarrow> at (reader_new s) s"
  by (simp add: at_def reader_new_def remaining_def)

lemma read_bytes_at:
  assumes "at r (s @ t)"
  shows "\<exists>r'. read_bytes (length s) what r = Inr (s, r') \<and> at r' t"
proof -
  have d: "drop (r_pos r) (r_buf r) = s @ t" and le: "r_pos r \<le> length (r_buf r)" "length (r_buf r) \<le> usize_max"
    using assms by (simp_all add: at_def remaining_def)
  have "length (r_buf r) - r_pos r = length s + length t" using arg_cong [OF d, of length] by simp
  then have l: "r_pos r + length s \<le> length (r_buf r)" using le by simp
  moreover have "drop (r_pos r + length s) (r_buf r) = t"
    using arg_cong [OF d, of "drop (length s)"] by (simp add: add.commute)
  ultimately show ?thesis using d le by (auto simp: read_bytes_def end_of_def at_def remaining_def)
qed

lemma read_i32_at:
  assumes "at r (i32_bytes i @ t)" "- 2147483648 \<le> i" "i < 2147483648"
  shows "\<exists>r'. read_i32 what r = Inr (i, r') \<and> at r' t"
  using read_bytes_at [OF assms(1), of what] read_i32_bytes [OF assms(2,3)] by (auto simp: read_i32_def)

lemma read_i16_at:
  assumes "at r (i16_bytes i @ t)" "- 32768 \<le> i" "i < 32768"
  shows "\<exists>r'. read_i16 what r = Inr (i, r') \<and> at r' t"
  using read_bytes_at [OF assms(1), of what] read_i16_bytes [OF assms(2,3)] by (auto simp: read_i16_def)

lemma read_u8_at: "at r (c # t) \<Longrightarrow> \<exists>r'. read_u8 what r = Inr (c, r') \<and> at r' t"
proof -
  assume a: "at r (c # t)"
  then have d: "drop (r_pos r) (r_buf r) = c # t" and le: "r_pos r \<le> length (r_buf r)" "length (r_buf r) \<le> usize_max"
    by (simp_all add: at_def remaining_def)
  have l: "r_pos r < length (r_buf r)" using arg_cong [OF d, of length] by simp
  then have "r_buf r ! r_pos r = c" using d by (metis hd_drop_conv_nth list.sel(1))
  moreover have "drop (Suc (r_pos r)) (r_buf r) = t" using d by (metis drop_Suc list.sel(3) tl_drop)
  ultimately show ?thesis using l le by (auto simp: read_u8_def at_def remaining_def)
qed

text \<open>Text that fits a null-terminated field.\<close>

definition wire_text :: "string \<Rightarrow> bool" where
  "wire_text s = (CHR 0x00 \<notin> set s \<and> from_utf8 s = Some s)"

lemma read_cstr_at:
  assumes "at r (s @ CHR 0x00 # t)" "wire_text s"
  shows "\<exists>r'. read_cstr what r = Inr (s, r') \<and> at r' t"
proof -
  have d: "drop (r_pos r) (r_buf r) = s @ CHR 0x00 # t" and le: "r_pos r \<le> length (r_buf r)" "length (r_buf r) \<le> usize_max"
    using assms(1) by (simp_all add: at_def remaining_def)
  have f: "find_char CHR 0x00 (s @ CHR 0x00 # t) = Some (length s)"
    using assms(2) by (simp add: find_char_append find_char_None [THEN iffD2] wire_text_def)
  have "length (r_buf r) - r_pos r = length s + 1 + length t" using arg_cong [OF d, of length] by simp
  then have l: "r_pos r + (length s + 1) \<le> length (r_buf r)" using le by simp
  moreover have "drop (r_pos r + (length s + 1)) (r_buf r) = t"
    using arg_cong [OF d, of "drop (length s + 1)"] by (simp add: add.commute)
  ultimately show ?thesis using d f le assms(2) by (auto simp: read_cstr_def Let_def at_def remaining_def wire_text_def)
qed

end
