(* ===== verification/Frame.thy ===== *)
theory Frame
  imports Wire_Read
begin

text \<open>
  \<^verbatim>\<open>crates/pgprox-proto/src/frame.rs\<close>: message boundaries. A message is a tag byte, a big-endian
  length that counts itself but not the tag, and a body; the messages of the startup phase have no tag.
  With it the writers of \<^verbatim>\<open>encode.rs\<close> and \<^verbatim>\<open>encode_frontend.rs\<close> that every message goes through, so
  that decoding can be stated against them.
\<close>

definition len_prefix :: nat where "len_prefix = 4"

definition default_max_frame :: nat where "default_max_frame = 1024 * 1024 * 1024"

definition default_max_inspect :: nat where "default_max_inspect = 1024 * 1024"

subsection \<open>Tags\<close>

abbreviation (input) tag_query :: char where "tag_query \<equiv> CHR ''Q''"

abbreviation (input) tag_parse :: char where "tag_parse \<equiv> CHR ''P''"

abbreviation (input) tag_bind :: char where "tag_bind \<equiv> CHR ''B''"

abbreviation (input) tag_execute :: char where "tag_execute \<equiv> CHR ''E''"

abbreviation (input) tag_describe :: char where "tag_describe \<equiv> CHR ''D''"

abbreviation (input) tag_close :: char where "tag_close \<equiv> CHR ''C''"

abbreviation (input) tag_sync :: char where "tag_sync \<equiv> CHR ''S''"

abbreviation (input) tag_terminate :: char where "tag_terminate \<equiv> CHR ''X''"

abbreviation (input) tag_password :: char where "tag_password \<equiv> CHR ''p''"

abbreviation (input) tag_flush :: char where "tag_flush \<equiv> CHR ''H''"

abbreviation (input) tag_copy_fail :: char where "tag_copy_fail \<equiv> CHR ''f''"

abbreviation (input) tag_function_call :: char where "tag_function_call \<equiv> CHR ''F''"

abbreviation (input) tag_authentication :: char where "tag_authentication \<equiv> CHR ''R''"

abbreviation (input) tag_backend_key_data :: char where "tag_backend_key_data \<equiv> CHR ''K''"

abbreviation (input) tag_ready_for_query :: char where "tag_ready_for_query \<equiv> CHR ''Z''"

abbreviation (input) tag_row_description :: char where "tag_row_description \<equiv> CHR ''T''"

abbreviation (input) tag_data_row :: char where "tag_data_row \<equiv> CHR ''D''"

abbreviation (input) tag_command_complete :: char where "tag_command_complete \<equiv> CHR ''C''"

abbreviation (input) tag_empty_query_response :: char where "tag_empty_query_response \<equiv> CHR ''I''"

abbreviation (input) tag_error_response :: char where "tag_error_response \<equiv> CHR ''E''"

abbreviation (input) tag_notice_response :: char where "tag_notice_response \<equiv> CHR ''N''"

abbreviation (input) tag_parameter_status :: char where "tag_parameter_status \<equiv> CHR ''S''"

abbreviation (input) tag_notification_response :: char where "tag_notification_response \<equiv> CHR ''A''"

abbreviation (input) tag_negotiate_protocol_version :: char where "tag_negotiate_protocol_version \<equiv> CHR ''v''"

abbreviation (input) tag_parse_complete :: char where "tag_parse_complete \<equiv> CHR ''1''"

abbreviation (input) tag_bind_complete :: char where "tag_bind_complete \<equiv> CHR ''2''"

abbreviation (input) tag_close_complete :: char where "tag_close_complete \<equiv> CHR ''3''"

abbreviation (input) tag_parameter_description :: char where "tag_parameter_description \<equiv> CHR ''t''"

abbreviation (input) tag_function_call_response :: char where "tag_function_call_response \<equiv> CHR ''V''"

abbreviation (input) tag_no_data :: char where "tag_no_data \<equiv> CHR ''n''"

abbreviation (input) tag_portal_suspended :: char where "tag_portal_suspended \<equiv> CHR ''s''"

abbreviation (input) tag_copy_in_response :: char where "tag_copy_in_response \<equiv> CHR ''G''"

abbreviation (input) tag_copy_out_response :: char where "tag_copy_out_response \<equiv> CHR ''H''"

abbreviation (input) tag_copy_both_response :: char where "tag_copy_both_response \<equiv> CHR ''W''"

abbreviation (input) tag_copy_data :: char where "tag_copy_data \<equiv> CHR ''d''"

abbreviation (input) tag_copy_done :: char where "tag_copy_done \<equiv> CHR ''c''"

subsection \<open>Frames\<close>

record frame =
  f_tag :: char
  f_body :: string

definition frame_wire_len :: "frame \<Rightarrow> nat" where
  "frame_wire_len f = 1 + len_prefix + length (f_body f)"

datatype decode_error = LengthTooSmall nat | LengthTooLarge nat nat

record frame_header =
  h_tag :: char
  h_body_len :: nat

definition header_wire_len :: "frame_header \<Rightarrow> nat" where
  "header_wire_len h = 1 + len_prefix + h_body_len h"

definition read_u32 :: "string \<Rightarrow> nat" where
  "read_u32 buf = of_be (take 4 buf)"

definition check_length :: "nat \<Rightarrow> nat \<Rightarrow> decode_error + nat" where
  "check_length declared max_frame =
     (if declared < len_prefix then Inl (LengthTooSmall declared)
      else if declared > max_frame then Inl (LengthTooLarge declared max_frame)
      else Inr (declared - len_prefix))"

definition decode_header :: "string \<Rightarrow> nat \<Rightarrow> decode_error + frame_header option" where
  "decode_header buf max_frame =
     (if length buf < 1 + len_prefix then Inr None
      else case check_length (read_u32 (drop 1 buf)) max_frame of
        Inl e \<Rightarrow> Inl e
      | Inr n \<Rightarrow> Inr (Some \<lparr>h_tag = hd buf, h_body_len = n\<rparr>))"

datatype direction = Frontend | Backend

datatype inspect = InspectNone | Prefix nat | Whole

definition inspect_policy :: "direction \<Rightarrow> char \<Rightarrow> inspect" where
  "inspect_policy direction tag =
     (case direction of
        Backend \<Rightarrow>
          if tag \<in> {tag_ready_for_query, tag_authentication, tag_parameter_status, tag_backend_key_data,
                     tag_command_complete, tag_empty_query_response, tag_parameter_description,
                     tag_negotiate_protocol_version, tag_copy_in_response, tag_copy_out_response,
                     tag_copy_both_response, tag_copy_done} then Whole
          else if tag \<in> {tag_error_response, tag_notice_response, tag_notification_response} then Prefix (8 * 1024)
          else InspectNone
      | Frontend \<Rightarrow>
          if tag \<in> {tag_sync, tag_flush, tag_terminate, tag_copy_done} then Whole
          else if tag \<in> {tag_query, tag_parse} then Prefix (64 * 1024)
          else if tag \<in> {tag_bind, tag_execute, tag_describe, tag_close} then Prefix (4 * 1024)
          else InspectNone)"

datatype decoded = Framed frame nat | Incomplete "nat option"

definition decode :: "string \<Rightarrow> nat \<Rightarrow> decode_error + decoded" where
  "decode buf max_frame =
     (if length buf < 1 + len_prefix then Inr (Incomplete None)
      else case check_length (read_u32 (drop 1 buf)) max_frame of
        Inl e \<Rightarrow> Inl e
      | Inr body_len \<Rightarrow>
          let total = 1 + len_prefix + body_len
          in if length buf < total then Inr (Incomplete (Some total))
             else Inr (Framed \<lparr>f_tag = hd buf, f_body = drop (1 + len_prefix) (take total buf)\<rparr> total))"

definition decode_untagged :: "string \<Rightarrow> nat \<Rightarrow> decode_error + decoded" where
  "decode_untagged buf max_frame =
     (if length buf < len_prefix then Inr (Incomplete None)
      else case check_length (read_u32 buf) max_frame of
        Inl e \<Rightarrow> Inl e
      | Inr body_len \<Rightarrow>
          let total = len_prefix + body_len
          in if length buf < total then Inr (Incomplete (Some total))
             else Inr (Framed \<lparr>f_tag = CHR 0x00, f_body = drop len_prefix (take total buf)\<rparr> total))"

subsection \<open>Writing\<close>

text \<open>The length is written after the body, over the bytes reserved for it.\<close>

definition tagged :: "string \<Rightarrow> char \<Rightarrow> string \<Rightarrow> string" where
  "tagged out tag body = out @ [tag] @ be 4 (try_u32 (len_prefix + length body)) @ body"

definition untagged :: "string \<Rightarrow> string \<Rightarrow> string" where
  "untagged out body = out @ be 4 (try_u32 (len_prefix + length body)) @ body"

definition cstr :: "string \<Rightarrow> string" where
  "cstr text = text @ [CHR 0x00]"

lemma read_be4: "n \<le> u32_max \<Longrightarrow> of_be (be 4 n) = n"
  by (rule of_be_be) (simp add: u32_max_def)

lemma decode_tagged:
  assumes "len_prefix + length body \<le> max_frame" "len_prefix + length body \<le> u32_max"
  shows "decode (tagged [] tag body @ rest) max_frame =
    Inr (Framed \<lparr>f_tag = tag, f_body = body\<rparr> (length (tagged [] tag body)))"
  using assms read_be4 [of "len_prefix + length body"]
  by (simp add: decode_def tagged_def check_length_def read_u32_def try_u32_exact len_prefix_def Let_def take_Cons' drop_Cons')

lemma decode_untagged_untagged:
  assumes "len_prefix + length body \<le> max_frame" "len_prefix + length body \<le> u32_max"
  shows "decode_untagged (untagged [] body @ rest) max_frame =
    Inr (Framed \<lparr>f_tag = CHR 0x00, f_body = body\<rparr> (length (untagged [] body)))"
  using assms read_be4 [of "len_prefix + length body"]
  by (simp add: decode_untagged_def untagged_def check_length_def read_u32_def try_u32_exact len_prefix_def Let_def)

lemma decode_header_tagged:
  assumes "len_prefix + length body \<le> max_frame" "len_prefix + length body \<le> u32_max"
  shows "decode_header (take 5 (tagged [] tag body)) max_frame = Inr (Some \<lparr>h_tag = tag, h_body_len = length body\<rparr>)"
  using assms read_be4 [of "len_prefix + length body"]
  by (simp add: decode_header_def tagged_def check_length_def read_u32_def try_u32_exact len_prefix_def)

end
