(* ===== verification/Messages.thy ===== *)
theory Messages
  imports Frame Ids
begin

text \<open>
  \<^verbatim>\<open>crates/pgprox-proto/src/frontend.rs\<close>, \<^verbatim>\<open>backend.rs\<close> and \<^verbatim>\<open>rewrite.rs\<close>: the fields of a message that
  the proxy reads, and the one field it rewrites. A message body is read field by field; every error a
  field can have ends the decoding.
\<close>

subsection \<open>Reading a field, or failing with it\<close>

definition field_then :: "(field_error \<Rightarrow> 'e) \<Rightarrow> field_error + ('a \<times> reader) \<Rightarrow> ('a \<Rightarrow> reader \<Rightarrow> 'e + 'b) \<Rightarrow> 'e + 'b" where
  "field_then wrap m f = (case m of Inl e \<Rightarrow> Inl (wrap e) | Inr (a, r) \<Rightarrow> f a r)"

lemma field_then_simps [simp]:
  "field_then wrap (Inl e) f = Inl (wrap e)" "field_then wrap (Inr (a, r)) f = f a r"
  by (simp_all add: field_then_def)

lemma field_then_cong [fundef_cong]:
  "m = m' \<Longrightarrow> (\<And>a r. m' = Inr (a, r) \<Longrightarrow> f a r = g a r) \<Longrightarrow> field_then wrap m f = field_then wrap m' g"
  by (auto simp: field_then_def split: sum.split)

lemma read_u8_less: "read_u8 what r = Inr (c, r') \<Longrightarrow> length (remaining r') < length (remaining r)"
  by (auto simp: read_u8_def remaining_def split: if_splits)

lemma read_cstr_less: "read_cstr what r = Inr (s, r') \<Longrightarrow> length (remaining r') < length (remaining r)"
  using find_char_less [of "CHR 0x00" "drop (r_pos r) (r_buf r)"]
  by (auto simp: read_cstr_def remaining_def Let_def split: option.splits)

subsection \<open>Messages from the client\<close>

datatype target = Statement | Portal

datatype frontend_error = FField field_error | UnknownTarget char | NotABind char

definition target_from_byte :: "char \<Rightarrow> frontend_error + target" where
  "target_from_byte byte =
     (if byte = CHR ''S'' then Inr Statement else if byte = CHR ''P'' then Inr Portal else Inl (UnknownTarget byte))"

datatype frontend_message =
    Query (q_sql: string)
  | Parse (p_statement: string) (p_sql: string)
  | Bind (b_portal: string) (b_statement: string)
  | Execute string int
  | Describe target string
  | Close target string
  | Sync
  | Flush
  | Terminate
  | Password
  | FunctionCall
  | CopyData
  | CopyDone
  | CopyFail
  | Opaque char

fun starts_extended_sequence :: "frontend_message \<Rightarrow> bool" where
  "starts_extended_sequence (Parse _ _) = True"
| "starts_extended_sequence (Bind _ _) = True"
| "starts_extended_sequence (Execute _ _) = True"
| "starts_extended_sequence (Describe _ _) = True"
| "starts_extended_sequence (Close _ _) = True"
| "starts_extended_sequence _ = False"

definition decode_frontend :: "frame \<Rightarrow> frontend_error + frontend_message" where
  "decode_frontend f =
     (let r = reader_new (f_body f); tag = f_tag f in
      if tag = tag_query then field_then FField (read_cstr ''sql'' r) (\<lambda>sql r. Inr (Query sql))
      else if tag = tag_parse then
        field_then FField (read_cstr ''statement_name'' r) (\<lambda>statement r.
        field_then FField (read_cstr ''sql'' r) (\<lambda>sql r. Inr (Parse statement sql)))
      else if tag = tag_bind then
        field_then FField (read_cstr ''portal_name'' r) (\<lambda>portal r.
        field_then FField (read_cstr ''statement_name'' r) (\<lambda>statement r. Inr (Bind portal statement)))
      else if tag = tag_execute then
        field_then FField (read_cstr ''portal_name'' r) (\<lambda>portal r.
        field_then FField (read_i32 ''max_rows'' r) (\<lambda>max_rows r. Inr (Execute portal max_rows)))
      else if tag = tag_describe then
        field_then FField (read_u8 ''describe_target'' r) (\<lambda>byte r.
          case target_from_byte byte of
            Inl e \<Rightarrow> Inl e
          | Inr target \<Rightarrow> field_then FField (read_cstr ''name'' r) (\<lambda>name r. Inr (Describe target name)))
      else if tag = tag_close then
        field_then FField (read_u8 ''close_target'' r) (\<lambda>byte r.
          case target_from_byte byte of
            Inl e \<Rightarrow> Inl e
          | Inr target \<Rightarrow> field_then FField (read_cstr ''name'' r) (\<lambda>name r. Inr (Close target name)))
      else if tag = tag_sync then Inr Sync
      else if tag = tag_flush then Inr Flush
      else if tag = tag_terminate then Inr Terminate
      else if tag = tag_password then Inr Password
      else if tag = tag_function_call then Inr FunctionCall
      else if tag = tag_copy_data then Inr CopyData
      else if tag = tag_copy_done then Inr CopyDone
      else if tag = tag_copy_fail then Inr CopyFail
      else Inr (Opaque tag))"

subsection \<open>The parameters of a \<open>Bind\<close>\<close>

record bind_parameters =
  bp_values :: "string option list"
  bp_raw :: string
  bp_result_formats :: string

fun skip_formats :: "nat \<Rightarrow> reader \<Rightarrow> frontend_error + reader" where
  "skip_formats 0 r = Inr r"
| "skip_formats (Suc n) r = field_then FField (read_i16 ''parameter_format'' r) (\<lambda>_ r. skip_formats n r)"

fun read_values :: "nat \<Rightarrow> string option list \<Rightarrow> reader \<Rightarrow> frontend_error + (string option list \<times> reader)" where
  "read_values 0 values r = Inr (values, r)"
| "read_values (Suc n) values r =
     field_then FField (read_i32 ''parameter_length'' r) (\<lambda>len r.
       if len < 0 then read_values n (values @ [None]) r
       else field_then FField (read_bytes (nat len) ''parameter_value'' r) (\<lambda>value r.
              read_values n (values @ [Some value]) r))"

fun all_text_formats :: "nat \<Rightarrow> bool \<Rightarrow> reader \<Rightarrow> (bool \<times> reader) option" where
  "all_text_formats 0 all_text r = Some (all_text, r)"
| "all_text_formats (Suc n) all_text r =
     (case read_i16 ''result_format'' r of
        Inl _ \<Rightarrow> None
      | Inr (format, r) \<Rightarrow> all_text_formats n (if format \<noteq> 0 then False else all_text) r)"

definition read_result_formats :: "reader \<Rightarrow> string option" where
  "read_result_formats r =
     (let start = remaining r
      in case read_i16 ''result_format_count'' r of
           Inl _ \<Rightarrow> None
         | Inr (declared, r) \<Rightarrow>
             (case all_text_formats (nat (max declared 0)) True r of
                None \<Rightarrow> None
              | Some (all_text, r) \<Rightarrow>
                  if all_text then Some []
                  else let n = length start - length (remaining r) in if n \<le> length start then Some (take n start) else None))"

definition bind_parameters_of :: "frame \<Rightarrow> frontend_error + bind_parameters" where
  "bind_parameters_of f =
     (if f_tag f \<noteq> tag_bind then Inl (NotABind (f_tag f))
      else
        field_then FField (read_cstr ''portal_name'' (reader_new (f_body f))) (\<lambda>_ r.
        field_then FField (read_cstr ''statement_name'' r) (\<lambda>_ r.
        field_then FField (read_i16 ''parameter_format_count'' r) (\<lambda>formats r.
        (case skip_formats (nat (max formats 0)) r of
           Inl e \<Rightarrow> Inl e
         | Inr r \<Rightarrow>
             field_then FField (read_i16 ''parameter_count'' r) (\<lambda>declared r.
             (case read_values (nat (max declared 0)) [] r of
                Inl e \<Rightarrow> Inl e
              | Inr (values, r') \<Rightarrow>
                  let from_the_count = remaining r; n = length from_the_count - length (remaining r')
                  in Inr \<lparr>bp_values = values, bp_raw = take n from_the_count,
                          bp_result_formats = (case read_result_formats r' of None \<Rightarrow> [] | Some s \<Rightarrow> s)\<rparr>)))))))"

subsection \<open>Messages from the server\<close>

datatype tx_status = Idle | InTransaction | Failed

datatype backend_error = BField field_error | UnknownTxStatus char

definition tx_from_byte :: "char \<Rightarrow> backend_error + tx_status" where
  "tx_from_byte byte =
     (if byte = CHR ''I'' then Inr Idle else if byte = CHR ''T'' then Inr InTransaction
      else if byte = CHR ''E'' then Inr Failed else Inl (UnknownTxStatus byte))"

definition tx_is_releasable :: "tx_status \<Rightarrow> bool" where
  "tx_is_releasable status = (status = Idle)"

datatype auth_request = AuthOk | CleartextPassword | Md5Password | Sasl | SaslContinue | SaslFinal | AuthOther int

record error_fields =
  ef_severity :: string
  ef_severity_nonlocalized :: string
  ef_code :: string
  ef_message :: string
  ef_detail :: string
  ef_hint :: string
  ef_position :: string
  ef_internal_position :: string
  ef_internal_query :: string
  ef_context :: string
  ef_schema :: string
  ef_table :: string
  ef_column :: string
  ef_datatype :: string
  ef_constraint :: string
  ef_file :: string
  ef_line :: string
  ef_routine :: string

definition error_fields_default :: error_fields where
  "error_fields_default =
     \<lparr>ef_severity = [], ef_severity_nonlocalized = [], ef_code = [], ef_message = [], ef_detail = [], ef_hint = [],
      ef_position = [], ef_internal_position = [], ef_internal_query = [], ef_context = [], ef_schema = [],
      ef_table = [], ef_column = [], ef_datatype = [], ef_constraint = [], ef_file = [], ef_line = [], ef_routine = []\<rparr>"

datatype backend_message =
    ReadyForQuery tx_status
  | Authentication auth_request
  | ParameterStatus string string
  | BackendKeyData int int
  | ParameterDescription nat string
  | EmptyQueryResponse
  | CommandComplete string
  | ErrorResponse error_fields
  | NoticeResponse error_fields
  | NotificationResponse int string string
  | CopyInResponse
  | CopyOutResponse
  | CopyBothResponse
  | ServerCopyDone
  | NegotiateProtocolVersion int
  | ServerOpaque char

definition put_error_field :: "char \<Rightarrow> string \<Rightarrow> error_fields \<Rightarrow> error_fields" where
  "put_error_field kind value fs =
     (if kind = CHR ''S'' then fs\<lparr>ef_severity := value\<rparr>
      else if kind = CHR ''V'' then fs\<lparr>ef_severity_nonlocalized := value\<rparr>
      else if kind = CHR ''C'' then fs\<lparr>ef_code := value\<rparr>
      else if kind = CHR ''M'' then fs\<lparr>ef_message := value\<rparr>
      else if kind = CHR ''D'' then fs\<lparr>ef_detail := value\<rparr>
      else if kind = CHR ''H'' then fs\<lparr>ef_hint := value\<rparr>
      else if kind = CHR ''P'' then fs\<lparr>ef_position := value\<rparr>
      else if kind = CHR ''p'' then fs\<lparr>ef_internal_position := value\<rparr>
      else if kind = CHR ''q'' then fs\<lparr>ef_internal_query := value\<rparr>
      else if kind = CHR ''W'' then fs\<lparr>ef_context := value\<rparr>
      else if kind = CHR ''s'' then fs\<lparr>ef_schema := value\<rparr>
      else if kind = CHR ''t'' then fs\<lparr>ef_table := value\<rparr>
      else if kind = CHR ''c'' then fs\<lparr>ef_column := value\<rparr>
      else if kind = CHR ''d'' then fs\<lparr>ef_datatype := value\<rparr>
      else if kind = CHR ''n'' then fs\<lparr>ef_constraint := value\<rparr>
      else if kind = CHR ''F'' then fs\<lparr>ef_file := value\<rparr>
      else if kind = CHR ''L'' then fs\<lparr>ef_line := value\<rparr>
      else if kind = CHR ''R'' then fs\<lparr>ef_routine := value\<rparr>
      else fs)"

function error_loop :: "error_fields \<Rightarrow> reader \<Rightarrow> backend_error + error_fields" where
  "error_loop fs r =
     field_then BField (read_u8 ''field_type'' r) (\<lambda>kind r.
       if kind = CHR 0x00 then Inr fs
       else field_then BField (read_cstr ''field_value'' r) (\<lambda>value r.
              error_loop (put_error_field kind value fs) r))"
  by pat_completeness auto
termination
  by (relation "measure (\<lambda>(fs, r). length (remaining r))") (auto dest!: read_u8_less read_cstr_less)

declare error_loop.simps [simp del]

definition decode_error_fields :: "reader \<Rightarrow> backend_error + error_fields" where
  "decode_error_fields r = error_loop error_fields_default r"

definition auth_request_of :: "int \<Rightarrow> auth_request" where
  "auth_request_of subtype =
     (if subtype = 0 then AuthOk else if subtype = 3 then CleartextPassword else if subtype = 5 then Md5Password
      else if subtype = 10 then Sasl else if subtype = 11 then SaslContinue else if subtype = 12 then SaslFinal
      else AuthOther subtype)"

definition decode_backend :: "frame \<Rightarrow> backend_error + backend_message" where
  "decode_backend f =
     (let r = reader_new (f_body f); tag = f_tag f in
      if tag = tag_ready_for_query then
        field_then BField (read_u8 ''tx_status'' r) (\<lambda>byte r.
          case tx_from_byte byte of Inl e \<Rightarrow> Inl e | Inr status \<Rightarrow> Inr (ReadyForQuery status))
      else if tag = tag_authentication then
        field_then BField (read_i32 ''auth_subtype'' r) (\<lambda>subtype r. Inr (Authentication (auth_request_of subtype)))
      else if tag = tag_parameter_status then
        field_then BField (read_cstr ''parameter_name'' r) (\<lambda>name r.
        field_then BField (read_cstr ''parameter_value'' r) (\<lambda>value r. Inr (ParameterStatus name value)))
      else if tag = tag_backend_key_data then
        field_then BField (read_i32 ''process_id'' r) (\<lambda>process_id r.
        field_then BField (read_i32 ''secret_key'' r) (\<lambda>secret r. Inr (BackendKeyData process_id secret)))
      else if tag = tag_command_complete then
        field_then BField (read_cstr ''command_tag'' r) (\<lambda>label r. Inr (CommandComplete label))
      else if tag = tag_empty_query_response then Inr EmptyQueryResponse
      else if tag = tag_parameter_description then
        field_then BField (read_i16 ''parameter_count'' r) (\<lambda>declared r.
          if declared < 0 then Inl (BField (OutOfRange ''parameter_count'' declared))
          else field_then BField (read_bytes (nat declared * 4) ''parameter_oids'' r) (\<lambda>oids r.
                 Inr (ParameterDescription (nat declared) oids)))
      else if tag = tag_error_response then
        (case decode_error_fields r of Inl e \<Rightarrow> Inl e | Inr fs \<Rightarrow> Inr (ErrorResponse fs))
      else if tag = tag_notice_response then
        (case decode_error_fields r of Inl e \<Rightarrow> Inl e | Inr fs \<Rightarrow> Inr (NoticeResponse fs))
      else if tag = tag_notification_response then
        field_then BField (read_i32 ''process_id'' r) (\<lambda>process_id r.
        field_then BField (read_cstr ''channel'' r) (\<lambda>channel r.
        field_then BField (read_cstr ''payload'' r) (\<lambda>payload r. Inr (NotificationResponse process_id channel payload))))
      else if tag = tag_copy_in_response then Inr CopyInResponse
      else if tag = tag_copy_out_response then Inr CopyOutResponse
      else if tag = tag_copy_both_response then Inr CopyBothResponse
      else if tag = tag_copy_done then Inr ServerCopyDone
      else if tag = tag_negotiate_protocol_version then
        field_then BField (read_i32 ''minor_version'' r) (\<lambda>minor r. Inr (NegotiateProtocolVersion minor))
      else Inr (ServerOpaque tag))"

subsection \<open>The offer of mechanisms\<close>

definition supported_sasl_mechanisms :: "string list" where
  "supported_sasl_mechanisms = [''SCRAM-SHA-256'']"

fun position :: "('a \<Rightarrow> bool) \<Rightarrow> 'a list \<Rightarrow> nat option" where
  "position P [] = None"
| "position P (x # xs) = (if P x then Some 0 else map_option Suc (position P xs))"

definition better_mechanism :: "string list \<Rightarrow> string \<Rightarrow> (nat \<times> string) option \<Rightarrow> (nat \<times> string) option" where
  "better_mechanism supported name best =
     (case position (\<lambda>w. w = name) supported of
        None \<Rightarrow> best
      | Some rank \<Rightarrow>
          (case best of None \<Rightarrow> Some (rank, name) | Some (seen, _) \<Rightarrow> if rank < seen then Some (rank, name) else best))"

function mechanism_loop :: "string list \<Rightarrow> (nat \<times> string) option \<Rightarrow> reader \<Rightarrow> backend_error + (nat \<times> string) option" where
  "mechanism_loop supported best r =
     (if reader_is_empty r then Inr best
      else field_then BField (read_cstr ''mechanism'' r) (\<lambda>name r.
             if name = [] then Inr best else mechanism_loop supported (better_mechanism supported name best) r))"
  by pat_completeness auto
termination
  by (relation "measure (\<lambda>(supported, best, r). length (remaining r))") (auto dest!: read_cstr_less)

declare mechanism_loop.simps [simp del]

definition select_mechanism_from :: "string \<Rightarrow> string list \<Rightarrow> backend_error + string option" where
  "select_mechanism_from body supported =
     field_then BField (read_i32 ''auth_subtype'' (reader_new body)) (\<lambda>_ r.
       case mechanism_loop supported None r of Inl e \<Rightarrow> Inl e | Inr best \<Rightarrow> Inr (map_option snd best))"

definition select_sasl_mechanism :: "string \<Rightarrow> backend_error + string option" where
  "select_sasl_mechanism body = select_mechanism_from body supported_sasl_mechanisms"

subsection \<open>Cancel keys\<close>

definition conn_id_from_key :: "int \<Rightarrow> int \<Rightarrow> conn_id" where
  "conn_id_from_key process_id secret =
     push_bit 32 (of_nat (unsigned_of 32 process_id)) OR of_nat (unsigned_of 32 secret)"

definition key_from_conn_id :: "conn_id \<Rightarrow> int \<times> int" where
  "key_from_conn_id raw =
     (to_signed 32 (unat (drop_bit 32 raw)), to_signed 32 (unat (raw AND mask 32)))"

subsection \<open>Renaming a statement in a body\<close>

definition replace_cstring :: "string \<Rightarrow> nat \<Rightarrow> string \<Rightarrow> string option" where
  "replace_cstring body start name =
     (if CHR 0x00 \<in> set name then None
      else if start > length body then None
      else case find_char CHR 0x00 (drop start body) of
        None \<Rightarrow> None
      | Some e \<Rightarrow>
          let stop = start + e + 1
          in if stop > length body then None else Some (take start body @ name @ [CHR 0x00] @ drop stop body))"

definition parse_statement :: "string \<Rightarrow> string \<Rightarrow> string option" where
  "parse_statement body name = replace_cstring body 0 name"

definition bind_statement :: "string \<Rightarrow> string \<Rightarrow> string option" where
  "bind_statement body name =
     (case find_char CHR 0x00 body of None \<Rightarrow> None | Some e \<Rightarrow> replace_cstring body (e + 1) name)"

definition described_statement :: "string \<Rightarrow> string \<Rightarrow> string option" where
  "described_statement body name =
     (case body of [] \<Rightarrow> None | kind # _ \<Rightarrow> if kind \<noteq> CHR ''S'' then None else replace_cstring body 1 name)"

definition describes_statement :: "string \<Rightarrow> bool" where
  "describes_statement body = (case body of [] \<Rightarrow> False | kind # _ \<Rightarrow> kind = CHR ''S'')"

end
