(* ===== verification/Client_Error.thy ===== *)
theory Client_Error
  imports Prelude
begin

text \<open>
  \<^verbatim>\<open>crates/pgprox-core/src/error.rs\<close>: the errors a client can see, the state code and the text of each.
  The \<open>Display\<close> form, which is for logs, is not modelled.
\<close>

datatype sql_state =
    ADMIN_SHUTDOWN
  | TOO_MANY_CONNECTIONS
  | INVALID_AUTHORIZATION
  | CONNECTION_FAILURE
  | QUERY_CANCELED
  | PROTOCOL_VIOLATION
  | INTERNAL_ERROR
  | IDLE_SESSION_TIMEOUT
  | FEATURE_NOT_SUPPORTED
  | INVALID_PARAMETER_VALUE

fun sql_state_as_str :: "sql_state \<Rightarrow> string" where
  "sql_state_as_str ADMIN_SHUTDOWN = ''57P01''"
| "sql_state_as_str TOO_MANY_CONNECTIONS = ''53300''"
| "sql_state_as_str INVALID_AUTHORIZATION = ''28000''"
| "sql_state_as_str CONNECTION_FAILURE = ''08006''"
| "sql_state_as_str QUERY_CANCELED = ''57014''"
| "sql_state_as_str PROTOCOL_VIOLATION = ''08P01''"
| "sql_state_as_str INTERNAL_ERROR = ''XX000''"
| "sql_state_as_str IDLE_SESSION_TIMEOUT = ''57P05''"
| "sql_state_as_str FEATURE_NOT_SUPPORTED = ''0A000''"
| "sql_state_as_str INVALID_PARAMETER_VALUE = ''22023''"

datatype auth_rejection = TokenRejected | TokenExpired | AlgorithmNotAllowed | MalformedToken | NotPermitted

datatype client_error =
    Draining
  | Shed tenant_id
  | IdleTimeout
  | UpstreamAtCap server_id nat
  | UpstreamUnreachable server_id
  | AcquireTimeout server_id duration
  | AuthRefused auth_rejection
  | TlsRequired
  | SidecarUnavailable
  | ProtocolViolation string
  | UpstreamClosed
  | Unsupported string
  | Internal string
  | InvalidRouteHint

fun sqlstate :: "client_error \<Rightarrow> sql_state" where
  "sqlstate Draining = ADMIN_SHUTDOWN"
| "sqlstate (Shed _) = ADMIN_SHUTDOWN"
| "sqlstate IdleTimeout = IDLE_SESSION_TIMEOUT"
| "sqlstate (UpstreamAtCap _ _) = TOO_MANY_CONNECTIONS"
| "sqlstate (AcquireTimeout _ _) = QUERY_CANCELED"
| "sqlstate (AuthRefused _) = INVALID_AUTHORIZATION"
| "sqlstate TlsRequired = INVALID_AUTHORIZATION"
| "sqlstate SidecarUnavailable = CONNECTION_FAILURE"
| "sqlstate UpstreamClosed = CONNECTION_FAILURE"
| "sqlstate (UpstreamUnreachable _) = CONNECTION_FAILURE"
| "sqlstate (ProtocolViolation _) = PROTOCOL_VIOLATION"
| "sqlstate (Unsupported _) = FEATURE_NOT_SUPPORTED"
| "sqlstate (Internal _) = INTERNAL_ERROR"
| "sqlstate InvalidRouteHint = INVALID_PARAMETER_VALUE"

fun client_message :: "client_error \<Rightarrow> string" where
  "client_message Draining = ''terminating connection due to administrator command''"
| "client_message (Shed _) = ''terminating connection due to administrator command''"
| "client_message IdleTimeout = ''terminating connection due to idle-session timeout''"
| "client_message (UpstreamAtCap _ _) = ''too many connections, please retry''"
| "client_message (UpstreamUnreachable _) = ''could not connect to the database, please retry''"
| "client_message (AcquireTimeout _ _) = ''timed out acquiring a database connection''"
| "client_message (AuthRefused _) = ''authentication failed''"
| "client_message TlsRequired = ''SSL connection is required''"
| "client_message SidecarUnavailable = ''authentication service unavailable''"
| "client_message UpstreamClosed = ''the database connection was closed, please retry''"
| "client_message (ProtocolViolation _) = ''protocol violation''"
| "client_message (Unsupported what) = what"
| "client_message (Internal _) = ''internal error''"
| "client_message InvalidRouteHint = ''invalid value for parameter \"pgprox.route\"''"

fun is_retryable :: "client_error \<Rightarrow> bool" where
  "is_retryable Draining = True"
| "is_retryable (Shed _) = True"
| "is_retryable IdleTimeout = True"
| "is_retryable (UpstreamAtCap _ _) = True"
| "is_retryable (AcquireTimeout _ _) = True"
| "is_retryable SidecarUnavailable = True"
| "is_retryable UpstreamClosed = True"
| "is_retryable (UpstreamUnreachable _) = True"
| "is_retryable _ = False"

text \<open>
  Only a statement of the proxy about itself travels: two errors of the same kind that differ in the
  server, the tenant, the cap, the time waited, the reason of a refusal or an internal detail look the
  same to a client.
\<close>

fun visible :: "client_error \<Rightarrow> client_error" where
  "visible (Shed _) = Draining"
| "visible (UpstreamAtCap _ _) = UpstreamAtCap [] 0"
| "visible (UpstreamUnreachable _) = UpstreamUnreachable []"
| "visible (AcquireTimeout _ _) = AcquireTimeout [] 0"
| "visible (AuthRefused _) = AuthRefused NotPermitted"
| "visible (ProtocolViolation _) = ProtocolViolation []"
| "visible (Internal _) = Internal []"
| "visible e = e"

lemma sqlstate_visible: "sqlstate (visible e) = sqlstate e"
  by (cases e) simp_all

lemma client_message_visible: "client_message (visible e) = client_message e"
  by (cases e) simp_all

lemma sql_state_length: "length (sql_state_as_str s) = 5"
  by (cases s) simp_all

end
