(* ===== verification/Encode.thy ===== *)
theory Encode
  imports Messages Client_Error
begin

text \<open>
  \<^verbatim>\<open>crates/pgprox-proto/src/encode.rs\<close> and \<^verbatim>\<open>encode_frontend.rs\<close>: the messages the proxy writes itself, as
  a server to its clients and as a client to the database. The theorems read them back: what is written
  is framed and decoded as the message that was meant.
\<close>

subsection \<open>As a server\<close>

definition protocol_3_0 :: int where "protocol_3_0 = 196608"

text \<open>The checked conversions of a length, saturating at the largest value of the width.\<close>

definition try_i16 :: "nat \<Rightarrow> nat" where
  "try_i16 n = min n 32767"

definition try_i32 :: "nat \<Rightarrow> nat" where
  "try_i32 n = min n 2147483647"

definition authentication_ok :: "string \<Rightarrow> string" where
  "authentication_ok out = tagged out tag_authentication (i32_bytes 0)"

definition authentication_cleartext_password :: "string \<Rightarrow> string" where
  "authentication_cleartext_password out = tagged out tag_authentication (i32_bytes 3)"

definition parameter_status :: "string \<Rightarrow> string \<Rightarrow> string \<Rightarrow> string" where
  "parameter_status out name value = tagged out tag_parameter_status (cstr name @ cstr value)"

definition backend_key_data :: "string \<Rightarrow> conn_id \<Rightarrow> string" where
  "backend_key_data out conn =
     (let (process_id, secret) = key_from_conn_id conn
      in tagged out tag_backend_key_data (i32_bytes process_id @ i32_bytes secret))"

definition ready_for_query :: "string \<Rightarrow> tx_status \<Rightarrow> string" where
  "ready_for_query out status =
     (let byte = (case status of Idle \<Rightarrow> CHR ''I'' | InTransaction \<Rightarrow> CHR ''T'' | Failed \<Rightarrow> CHR ''E'')
      in tagged out tag_ready_for_query [byte])"

definition row_description :: "string \<Rightarrow> string list \<Rightarrow> string" where
  "row_description out columns =
     (let n = try_i16 (length columns)
      in tagged out tag_row_description
           (i16_bytes (int n) @
            concat (map (\<lambda>column. cstr column @ i32_bytes 0 @ i16_bytes 0 @ i32_bytes 25 @ i16_bytes (- 1)
                                    @ i32_bytes (- 1) @ i16_bytes 0)
                      (take n columns))))"

definition data_row :: "string \<Rightarrow> string list \<Rightarrow> string" where
  "data_row out values =
     (let n = try_i16 (length values)
      in tagged out tag_data_row
           (i16_bytes (int n) @ concat (map (\<lambda>value. i32_bytes (int (try_i32 (length value))) @ value) (take n values))))"

definition command_complete :: "string \<Rightarrow> string \<Rightarrow> string" where
  "command_complete out tag = tagged out tag_command_complete (cstr tag)"

definition error_response :: "string \<Rightarrow> client_error \<Rightarrow> string" where
  "error_response out error =
     tagged out tag_error_response
       (CHR ''S'' # cstr ''ERROR'' @
        CHR ''V'' # cstr ''ERROR'' @
        CHR ''C'' # cstr (sql_state_as_str (sqlstate error)) @
        CHR ''M'' # cstr (client_message error) @
        [CHR 0x00])"

definition negotiate_protocol_version :: "string \<Rightarrow> int \<Rightarrow> string list \<Rightarrow> string" where
  "negotiate_protocol_version out minor unrecognized =
     (let n = try_i32 (length unrecognized)
      in tagged out tag_negotiate_protocol_version
           (i32_bytes minor @ i32_bytes (int n) @ concat (map cstr (take n unrecognized))))"

definition authentication_sasl :: "string \<Rightarrow> string list \<Rightarrow> string" where
  "authentication_sasl out mechanisms =
     tagged out tag_authentication (i32_bytes 10 @ concat (map cstr mechanisms) @ [CHR 0x00])"

definition authentication_sasl_continue :: "string \<Rightarrow> string \<Rightarrow> string" where
  "authentication_sasl_continue out payload = tagged out tag_authentication (i32_bytes 11 @ payload)"

definition authentication_sasl_final :: "string \<Rightarrow> string \<Rightarrow> string" where
  "authentication_sasl_final out payload = tagged out tag_authentication (i32_bytes 12 @ payload)"

subsection \<open>As a client\<close>

definition startup_message :: "string \<Rightarrow> int \<Rightarrow> (string \<times> string) list \<Rightarrow> string" where
  "startup_message out version params =
     untagged out (i32_bytes version @ concat (map (\<lambda>(name, value). cstr name @ cstr value) params) @ [CHR 0x00])"

definition password_message :: "string \<Rightarrow> string \<Rightarrow> string" where
  "password_message out password = tagged out tag_password (cstr password)"

definition sasl_initial_response :: "string \<Rightarrow> string \<Rightarrow> string \<Rightarrow> string" where
  "sasl_initial_response out mechanism initial =
     tagged out tag_password (cstr mechanism @ i32_bytes (int (try_i32 (length initial))) @ initial)"

definition sasl_response :: "string \<Rightarrow> string \<Rightarrow> string" where
  "sasl_response out payload = tagged out tag_password payload"

definition query_message :: "string \<Rightarrow> string \<Rightarrow> string" where
  "query_message out sql = tagged out tag_query (cstr sql)"

definition parse_message :: "string \<Rightarrow> string \<Rightarrow> string \<Rightarrow> string" where
  "parse_message out statement sql = tagged out tag_parse (cstr statement @ cstr sql @ i16_bytes 0)"

definition bind_message :: "string \<Rightarrow> string \<Rightarrow> string \<Rightarrow> string" where
  "bind_message out portal statement =
     tagged out tag_bind (cstr portal @ cstr statement @ i16_bytes 0 @ i16_bytes 0 @ i16_bytes 0)"

definition value_bytes :: "string option \<Rightarrow> string" where
  "value_bytes value =
     (case value of None \<Rightarrow> i32_bytes (- 1) | Some bytes \<Rightarrow> i32_bytes (int (try_i32 (length bytes))) @ bytes)"

definition bind_with_parameters :: "string \<Rightarrow> string \<Rightarrow> string \<Rightarrow> string option list \<Rightarrow> string" where
  "bind_with_parameters out portal statement values =
     (let n = try_i16 (length values)
      in tagged out tag_bind
           (cstr portal @ cstr statement @ i16_bytes 0 @ i16_bytes (int n) @
            concat (map value_bytes (take n values)) @ i16_bytes 0))"

definition close_statement :: "string \<Rightarrow> string \<Rightarrow> string" where
  "close_statement out statement = tagged out tag_close (CHR ''S'' # cstr statement)"

definition execute_message :: "string \<Rightarrow> string \<Rightarrow> string" where
  "execute_message out portal = tagged out tag_execute (cstr portal @ i32_bytes 0)"

definition sync_message :: "string \<Rightarrow> string" where
  "sync_message out = tagged out tag_sync []"

definition terminate_message :: "string \<Rightarrow> string" where
  "terminate_message out = tagged out tag_terminate []"

subsection \<open>Reading a body back\<close>

lemma read_cstr_cstr:
  "at r (cstr s @ t) \<Longrightarrow> wire_text s \<Longrightarrow> \<exists>r'. read_cstr what r = Inr (s, r') \<and> at r' t"
  using read_cstr_at [of r s t what] by (simp add: cstr_def)

lemma bounds32: "- 2147483648 \<le> (- 1 :: int)" "(- 1 :: int) < 2147483648" "- 2147483648 \<le> (0 :: int)" "(0 :: int) < 2147483648"
  by simp_all

lemma bounds16: "- 32768 \<le> (0 :: int)" "(0 :: int) < 32768"
  by simp_all

text \<open>A message as its reader sees it: the frame at the front, decoded, and what follows it.\<close>

definition read_message :: "(frame \<Rightarrow> 'a) \<Rightarrow> string \<Rightarrow> nat \<Rightarrow> ('a \<times> string) option" where
  "read_message decoder bytes max_frame =
     (case decode bytes max_frame of
        Inr (Framed f used) \<Rightarrow> Some (decoder f, drop used bytes)
      | _ \<Rightarrow> None)"

lemma read_tagged:
  assumes "4 + length body \<le> max_frame" "max_frame \<le> u32_max"
  shows "read_message decoder (tagged [] tag body @ rest) max_frame = Some (decoder \<lparr>f_tag = tag, f_body = body\<rparr>, rest)"
  using decode_tagged [of body max_frame tag rest] assms by (simp add: read_message_def len_prefix_def)

lemma body_at: "4 + length body \<le> max_frame \<Longrightarrow> max_frame \<le> u32_max \<Longrightarrow> at (reader_new body) body"
  by (rule at_new) (simp add: usize_max_def u32_max_def)

lemma body_at_Nil: "4 + length body \<le> max_frame \<Longrightarrow> max_frame \<le> u32_max \<Longrightarrow> at (reader_new body) (body @ [])"
  using body_at by simp

lemma length_cstr [simp]: "length (cstr s) = Suc (length s)"
  by (simp add: cstr_def)

subsection \<open>Parameter values\<close>

definition sendable :: "string option \<Rightarrow> bool" where
  "sendable value = (case value of None \<Rightarrow> True | Some bytes \<Rightarrow> length bytes \<le> 2147483647)"

lemma value_bytes_simps [simp]:
  "value_bytes None = i32_bytes (- 1)"
  "value_bytes (Some bytes) = i32_bytes (int (try_i32 (length bytes))) @ bytes"
  by (simp_all add: value_bytes_def)

lemma read_values_at:
  assumes "at r (concat (map value_bytes vs) @ t)" "list_all sendable vs"
  shows "\<exists>r'. read_values (length vs) acc r = Inr (acc @ vs, r') \<and> at r' t"
  using assms
proof (induction vs arbitrary: r acc)
  case Nil
  then show ?case by simp
next
  case (Cons v vs)
  show ?case
  proof (cases v)
    case None
    then have "at r (i32_bytes (- 1) @ concat (map value_bytes vs) @ t)"
      using Cons.prems(1) by simp
    then obtain r1 where r1: "read_i32 ''parameter_length'' r = Inr ((- 1), r1)"
        "at r1 (concat (map value_bytes vs) @ t)"
      using read_i32_at [OF _ bounds32(1,2)] by blast
    show ?thesis using Cons.IH [OF r1(2), of "acc @ [None]"] Cons.prems(2) None by (simp add: r1(1))
  next
    case (Some b)
    have l: "try_i32 (length b) = length b" "length b < 2147483648" "- 2147483648 \<le> int (length b)" "int (length b) < 2147483648"
      using Cons.prems(2) Some by (simp_all add: sendable_def try_i32_def)
    then have "at r (i32_bytes (int (length b)) @ b @ concat (map value_bytes vs) @ t)"
      using Cons.prems(1) Some by simp
    then obtain r1 where r1: "read_i32 ''parameter_length'' r = Inr ((int (length b)), r1)"
        "at r1 (b @ concat (map value_bytes vs) @ t)"
      using read_i32_at [OF _ l(3,4)] by blast
    obtain r2 where r2: "read_bytes (length b) ''parameter_value'' r1 = Inr (b, r2)"
        "at r2 (concat (map value_bytes vs) @ t)"
      using read_bytes_at [OF r1(2)] by blast
    show ?thesis using Cons.IH [OF r2(2), of "acc @ [Some b]"] Cons.prems(2) Some by (simp add: r1(1) r2(1))
  qed
qed

lemma no_result_formats:
  assumes "at r (i16_bytes 0 @ t)"
  shows "read_result_formats r = Some []"
  using read_i16_at [OF assms, of "''result_format_count''"] by (auto simp: read_result_formats_def Let_def)

lemma remaining_at: "at r s \<Longrightarrow> remaining r = s"
  by (simp add: at_def)

lemma bind_parameters_at:
  assumes "at (reader_new body) body"
    and "body = cstr portal @ cstr statement @ i16_bytes 0 @ i16_bytes (int (length vs)) @ concat (map value_bytes vs) @ i16_bytes 0"
    and "wire_text portal" "wire_text statement" "length vs \<le> 32767" "list_all sendable vs"
  shows "bind_parameters_of \<lparr>f_tag = tag_bind, f_body = body\<rparr> =
    Inr \<lparr>bp_values = vs, bp_raw = concat (map value_bytes vs), bp_result_formats = []\<rparr>"
proof -
  let ?v = "concat (map value_bytes vs)"
  have lv: "- 32768 \<le> int (length vs)" "int (length vs) < 32768" using assms(5) by simp_all
  have "at (reader_new body) (cstr portal @ cstr statement @ i16_bytes 0 @ i16_bytes (int (length vs)) @ ?v @ i16_bytes 0)"
    using assms(1,2) by simp
  then obtain r1 where r1: "read_cstr ''portal_name'' (reader_new body) = Inr (portal, r1)"
      "at r1 (cstr statement @ i16_bytes 0 @ i16_bytes (int (length vs)) @ ?v @ i16_bytes 0)"
    using read_cstr_cstr [OF _ assms(3)] by blast
  obtain r2 where r2: "read_cstr ''statement_name'' r1 = Inr (statement, r2)"
      "at r2 (i16_bytes 0 @ i16_bytes (int (length vs)) @ ?v @ i16_bytes 0)"
    using read_cstr_cstr [OF r1(2) assms(4)] by blast
  obtain r3 where r3: "read_i16 ''parameter_format_count'' r2 = Inr (0, r3)"
      "at r3 (i16_bytes (int (length vs)) @ ?v @ i16_bytes 0)"
    using read_i16_at [OF r2(2) bounds16] by blast
  obtain r4 where r4: "read_i16 ''parameter_count'' r3 = Inr ((int (length vs)), r4)"
      "at r4 (?v @ i16_bytes 0)"
    using read_i16_at [OF r3(2) lv] by blast
  obtain r5 where r5: "read_values (length vs) [] r4 = Inr (vs, r5)" "at r5 (i16_bytes 0)"
    using read_values_at [OF r4(2) assms(6), of "[]"] by auto
  have "read_result_formats r5 = Some []" using no_result_formats [of r5 "[]"] r5(2) by simp
  then show ?thesis
    by (simp add: bind_parameters_of_def r1(1) r2(1) r3(1) r4(1) r5(1) Let_def remaining_at [OF r4(2)] remaining_at [OF r5(2)])
qed

subsection \<open>What the database reads\<close>

lemma decode_query:
  assumes "length sql < usize_max" "wire_text sql"
  shows "decode_frontend \<lparr>f_tag = tag_query, f_body = cstr sql\<rparr> = Inr (Query sql)"
  using read_cstr_cstr [of "reader_new (cstr sql)" sql "[]" "''sql''"] at_new [of "cstr sql"] assms
  by (auto simp: decode_frontend_def)

lemma two_names:
  assumes "length (cstr a @ cstr b @ t) \<le> usize_max" "wire_text a" "wire_text b"
  obtains r1 r2 where "read_cstr what1 (reader_new (cstr a @ cstr b @ t)) = Inr (a, r1)" "read_cstr what2 r1 = Inr (b, r2)" "at r2 t"
  using read_cstr_cstr [OF at_new [OF assms(1)] assms(2)] read_cstr_cstr [OF _ assms(3)] by blast

lemma decode_parse:
  assumes "length (cstr a @ cstr b @ t) \<le> usize_max" "wire_text a" "wire_text b"
  shows "decode_frontend \<lparr>f_tag = tag_parse, f_body = cstr a @ cstr b @ t\<rparr> = Inr (Parse a b)"
  by (rule two_names [OF assms, of "''statement_name''" "''sql''"]) (simp add: decode_frontend_def)

lemma decode_bind:
  assumes "length (cstr a @ cstr b @ t) \<le> usize_max" "wire_text a" "wire_text b"
  shows "decode_frontend \<lparr>f_tag = tag_bind, f_body = cstr a @ cstr b @ t\<rparr> = Inr (Bind a b)"
  by (rule two_names [OF assms, of "''portal_name''" "''statement_name''"]) (simp add: decode_frontend_def)

lemma decode_close:
  assumes "Suc (length name) < usize_max" "wire_text name"
  shows "decode_frontend \<lparr>f_tag = tag_close, f_body = CHR ''S'' # cstr name\<rparr> = Inr (Close Statement name)"
proof -
  obtain r1 where r1: "read_u8 ''close_target'' (reader_new (CHR ''S'' # cstr name)) = Inr (CHR ''S'', r1)" "at r1 (cstr name @ [])"
    using read_u8_at [OF at_new, of "CHR ''S''" "cstr name"] assms(1) by auto
  obtain r2 where "read_cstr ''name'' r1 = Inr (name, r2)" using read_cstr_cstr [OF r1(2) assms(2)] by blast
  then show ?thesis using r1(1) by (simp add: decode_frontend_def target_from_byte_def)
qed

lemma decode_execute:
  assumes "length (cstr portal @ i32_bytes 0) \<le> usize_max" "wire_text portal"
  shows "decode_frontend \<lparr>f_tag = tag_execute, f_body = cstr portal @ i32_bytes 0\<rparr> = Inr (Execute portal 0)"
proof -
  obtain r1 where r1: "read_cstr ''portal_name'' (reader_new (cstr portal @ i32_bytes 0)) = Inr (portal, r1)" "at r1 (i32_bytes 0 @ [])"
    using read_cstr_cstr [OF at_new [OF assms(1)] assms(2)] by auto
  obtain r2 where "read_i32 ''max_rows'' r1 = Inr (0, r2)" using read_i32_at [OF r1(2) bounds32(3,4)] by blast
  then show ?thesis using r1(1) by (simp add: decode_frontend_def)
qed



subsection \<open>What a client reads\<close>

lemma error_loop_field:
  assumes "at r (kind # cstr value @ t)" "kind \<noteq> CHR 0x00" "wire_text value"
  shows "\<exists>r'. (\<forall>fs. error_loop fs r = error_loop (put_error_field kind value fs) r') \<and> at r' t"
proof -
  obtain r1 where r1: "read_u8 ''field_type'' r = Inr (kind, r1)" "at r1 (cstr value @ t)"
    using read_u8_at [OF assms(1)] by blast
  obtain r2 where r2: "read_cstr ''field_value'' r1 = Inr (value, r2)" "at r2 t"
    using read_cstr_cstr [OF r1(2) assms(3)] by blast
  have "error_loop fs r = error_loop (put_error_field kind value fs) r2" for fs
    using assms(2) r1(1) r2(1) by (simp add: error_loop.simps [of fs r])
  then show ?thesis using r2(2) by blast
qed

lemma error_loop_stop:
  assumes "at r (CHR 0x00 # t)"
  shows "error_loop fs r = Inr fs"
  using read_u8_at [OF assms, of "''field_type''"] by (auto simp: error_loop.simps [of fs r])

lemma decode_error:
  assumes "length body \<le> usize_max" "wire_text code" "wire_text text"
    and "body = CHR ''S'' # cstr ''ERROR'' @ CHR ''V'' # cstr ''ERROR'' @ CHR ''C'' # cstr code @ CHR ''M'' # cstr text @ [CHR 0x00]"
  shows "decode_backend \<lparr>f_tag = tag_error_response, f_body = body\<rparr> =
    Inr (ErrorResponse (error_fields_default\<lparr>ef_severity := ''ERROR'', ef_severity_nonlocalized := ''ERROR'',
                                             ef_code := code, ef_message := text\<rparr>))"
proof -
  have e: "wire_text ''ERROR''" by (simp add: wire_text_def utf8_ascii is_ascii_def)
  have r0: "at (reader_new body) (CHR ''S'' # cstr ''ERROR'' @ CHR ''V'' # cstr ''ERROR'' @ CHR ''C'' # cstr code @ CHR ''M'' # cstr text @ [CHR 0x00])"
    using at_new [OF assms(1)] assms(4) by simp
  obtain r1 where r1: "error_loop error_fields_default (reader_new body) = error_loop (put_error_field CHR ''S'' ''ERROR'' error_fields_default) r1"
      "at r1 (CHR ''V'' # cstr ''ERROR'' @ CHR ''C'' # cstr code @ CHR ''M'' # cstr text @ [CHR 0x00])"
    using error_loop_field [OF r0 _ e] by auto
  obtain r2 where r2: "\<forall>fs. error_loop fs r1 = error_loop (put_error_field CHR ''V'' ''ERROR'' fs) r2"
      "at r2 (CHR ''C'' # cstr code @ CHR ''M'' # cstr text @ [CHR 0x00])"
    using error_loop_field [OF r1(2) _ e] by auto
  obtain r3 where r3: "\<forall>fs. error_loop fs r2 = error_loop (put_error_field CHR ''C'' code fs) r3"
      "at r3 (CHR ''M'' # cstr text @ [CHR 0x00])"
    using error_loop_field [OF r2(2) _ assms(2)] by auto
  obtain r4 where r4: "\<forall>fs. error_loop fs r3 = error_loop (put_error_field CHR ''M'' text fs) r4" "at r4 [CHR 0x00]"
    using error_loop_field [OF r3(2) _ assms(3)] by auto
  show ?thesis
    by (simp add: decode_backend_def decode_error_fields_def r1(1) r2(1) r3(1) r4(1) error_loop_stop [OF r4(2)] put_error_field_def)
qed

lemma decode_error_response:
  assumes "length (client_message e) + 64 \<le> max_frame" "max_frame \<le> u32_max" "wire_text (client_message e)"
  shows "read_message decode_backend (error_response [] e @ rest) max_frame =
    Some (Inr (ErrorResponse (error_fields_default\<lparr>ef_severity := ''ERROR'', ef_severity_nonlocalized := ''ERROR'',
        ef_code := sql_state_as_str (sqlstate e), ef_message := client_message e\<rparr>)), rest)"
proof -
  have u: "max_frame < usize_max" using assms(2) by (simp add: u32_max_def usize_max_def)
  have w: "wire_text (sql_state_as_str s)" for s by (cases s) (simp_all add: wire_text_def utf8_ascii is_ascii_def)
  show ?thesis unfolding error_response_def
    by (subst read_tagged)
      (use assms u sql_state_length [of "sqlstate e"] in \<open>simp_all add: decode_error [OF _ w assms(3) refl]\<close>)
qed

lemma decode_ready:
  "decode_backend \<lparr>f_tag = tag_ready_for_query, f_body = [case status of Idle \<Rightarrow> CHR ''I'' | InTransaction \<Rightarrow> CHR ''T'' | Failed \<Rightarrow> CHR ''E'']\<rparr> =
    Inr (ReadyForQuery status)"
  by (cases status) (simp_all add: decode_backend_def read_u8_def reader_new_def tx_from_byte_def)

lemma decode_parameter:
  assumes "length (cstr a @ cstr b @ []) \<le> usize_max" "wire_text a" "wire_text b"
  shows "decode_backend \<lparr>f_tag = tag_parameter_status, f_body = cstr a @ cstr b\<rparr> = Inr (ParameterStatus a b)"
  by (rule two_names [OF assms, of "''parameter_name''" "''parameter_value''"]) (simp add: decode_backend_def)

lemma decode_command:
  assumes "length a < usize_max" "wire_text a"
  shows "decode_backend \<lparr>f_tag = tag_command_complete, f_body = cstr a\<rparr> = Inr (CommandComplete a)"
  using read_cstr_cstr [of "reader_new (cstr a)" a "[]" "''command_tag''"] at_new [of "cstr a"] assms
  by (auto simp: decode_backend_def)

lemma decode_authentication:
  assumes "length (i32_bytes n @ t) \<le> usize_max" "0 \<le> n" "n \<le> 12"
  shows "decode_backend \<lparr>f_tag = tag_authentication, f_body = i32_bytes n @ t\<rparr> = Inr (Authentication (auth_request_of n))"
  using read_i32_at [OF at_new [OF assms(1)], of "''auth_subtype''"] assms(2,3) by (auto simp: decode_backend_def)

text \<open>
  What the proxy answers a client, the client reads: a parameter, a transaction status, the end of a
  command, the step of an authentication and an error are framed and decoded as those messages. An error
  carries its five-character state code and its public text, and nothing else that it knows: errors that
  agree in their public part are the same bytes.
\<close>

theorem backend_roundtrip:
  assumes "wire_text name" "wire_text value" "wire_text (client_message e)"
    and "length name + length value + length (client_message e) + 64 \<le> max_frame" "max_frame \<le> u32_max"
  shows "read_message decode_backend (parameter_status [] name value @ rest) max_frame = Some (Inr (ParameterStatus name value), rest) \<and>
    read_message decode_backend (ready_for_query [] status @ rest) max_frame = Some (Inr (ReadyForQuery status), rest) \<and>
    read_message decode_backend (command_complete [] name @ rest) max_frame = Some (Inr (CommandComplete name), rest) \<and>
    read_message decode_backend (authentication_ok [] @ rest) max_frame = Some (Inr (Authentication AuthOk), rest) \<and>
    read_message decode_backend (authentication_cleartext_password [] @ rest) max_frame = Some (Inr (Authentication CleartextPassword), rest) \<and>
    read_message decode_backend (authentication_sasl_continue [] name @ rest) max_frame = Some (Inr (Authentication SaslContinue), rest) \<and>
    read_message decode_backend (authentication_sasl_final [] name @ rest) max_frame = Some (Inr (Authentication SaslFinal), rest) \<and>
    read_message decode_backend (error_response [] e @ rest) max_frame =
      Some (Inr (ErrorResponse (error_fields_default\<lparr>ef_severity := ''ERROR'', ef_severity_nonlocalized := ''ERROR'',
          ef_code := sql_state_as_str (sqlstate e), ef_message := client_message e\<rparr>)), rest) \<and>
    length (sql_state_as_str (sqlstate e)) = 5 \<and> error_response [] (visible e) = error_response [] e"
proof (intro conjI)
  have u: "max_frame < usize_max" using assms(5) by (simp add: u32_max_def usize_max_def)
  note auth = decode_authentication [of _ "[]", simplified] decode_authentication auth_request_of_def
  show "read_message decode_backend (parameter_status [] name value @ rest) max_frame = Some (Inr (ParameterStatus name value), rest)"
    using assms u by (simp add: parameter_status_def read_tagged decode_parameter)
  show "read_message decode_backend (ready_for_query [] status @ rest) max_frame = Some (Inr (ReadyForQuery status), rest)"
    using assms by (simp add: ready_for_query_def read_tagged decode_ready)
  show "read_message decode_backend (command_complete [] name @ rest) max_frame = Some (Inr (CommandComplete name), rest)"
    using assms u by (simp add: command_complete_def read_tagged decode_command)
  show "read_message decode_backend (authentication_ok [] @ rest) max_frame = Some (Inr (Authentication AuthOk), rest)"
    using assms u by (simp add: authentication_ok_def read_tagged auth)
  show "read_message decode_backend (authentication_cleartext_password [] @ rest) max_frame = Some (Inr (Authentication CleartextPassword), rest)"
    using assms u by (simp add: authentication_cleartext_password_def read_tagged auth)
  show "read_message decode_backend (authentication_sasl_continue [] name @ rest) max_frame = Some (Inr (Authentication SaslContinue), rest)"
    using assms u by (simp add: authentication_sasl_continue_def read_tagged auth)
  show "read_message decode_backend (authentication_sasl_final [] name @ rest) max_frame = Some (Inr (Authentication SaslFinal), rest)"
    using assms u by (simp add: authentication_sasl_final_def read_tagged auth)
  show "error_response [] (visible e) = error_response [] e"
    by (simp add: error_response_def sqlstate_visible client_message_visible)
qed (use assms in \<open>simp_all add: decode_error_response sql_state_length\<close>)

theorem backend_roundtrip_witness:
  "read_message decode_backend (error_response [] (UpstreamAtCap ''db:5432'' 20) @ []) 1024 =
      Some (Inr (ErrorResponse (error_fields_default\<lparr>ef_severity := ''ERROR'', ef_severity_nonlocalized := ''ERROR'',
          ef_code := ''53300'', ef_message := ''too many connections, please retry''\<rparr>)), [])"
proof -
  have "wire_text ''TimeZone''" "wire_text ''UTC''" "wire_text ''too many connections, please retry''"
    by (simp_all add: wire_text_def utf8_ascii is_ascii_def)
  then show ?thesis
    using backend_roundtrip [of "''TimeZone''" "''UTC''" "UpstreamAtCap ''db:5432'' 20" 1024 "[]"]
    by (simp add: u32_max_def)
qed

end
