(* ===== verification/Startup.thy ===== *)
theory Startup
  imports Encode
begin

text \<open>
  \<^verbatim>\<open>crates/pgprox-proto/src/startup.rs\<close>: the first message of a connection, which has no tag and is told
  apart by its first four bytes, and the two requests of \<^verbatim>\<open>encode_frontend.rs\<close> that use its codes. The
  theorems are that a startup packet reads back as it was written, and that a client that returns the
  cancel key it was given names its own connection and the node that holds it.
\<close>

unbundle bit_operations_syntax

definition ssl_request_code :: int where "ssl_request_code = 80877103"

definition gssenc_request_code :: int where "gssenc_request_code = 80877104"

definition cancel_request_code :: int where "cancel_request_code = 80877102"

lemmas request_codes = ssl_request_code_def gssenc_request_code_def cancel_request_code_def

definition not_a_setting :: "string list" where
  "not_a_setting = [''user'', ''database'', ''options'', ''replication'']"

definition extension_prefix :: string where
  "extension_prefix = ''_pq_.''"

type_synonym startup_param = "string \<times> string"

datatype startup =
    SslRequest
  | GssEncRequest
  | CancelRequest conn_id
  | StartupMessage int "startup_param list"

subsection \<open>Parameters of a startup packet\<close>

fun startup_params_of :: "startup \<Rightarrow> startup_param list" where
  "startup_params_of (StartupMessage _ params) = params"
| "startup_params_of _ = []"

definition startup_param_of :: "string \<Rightarrow> startup \<Rightarrow> string option" where
  "startup_param_of name s = map_option snd (List.find (\<lambda>p. fst p = name) (startup_params_of s))"

definition startup_user :: "startup \<Rightarrow> string option" where
  "startup_user s = startup_param_of ''user'' s"

definition startup_database :: "startup \<Rightarrow> string option" where
  "startup_database s = (case startup_param_of ''database'' s of Some d \<Rightarrow> Some d | None \<Rightarrow> startup_user s)"

text \<open>A complete token of \<open>options\<close>, and the setting in it if it has one.\<close>

definition option_setting :: "string \<Rightarrow> (string \<times> string) option" where
  "option_setting token =
     (if token = [] then None
      else
        let setting = trim (if starts_with token ''-c'' then drop 2 token else token)
        in if setting = [] \<or> setting = ''-c'' then None
           else map_option (\<lambda>(name, value). (trim name, value)) (split_once CHR ''='' setting))"

fun option_loop :: "string \<Rightarrow> bool \<Rightarrow> string \<Rightarrow> (string \<times> string) list" where
  "option_loop token escaped [] = (case option_setting token of None \<Rightarrow> [] | Some s \<Rightarrow> [s])"
| "option_loop token escaped (c # rest) =
     (if escaped then option_loop (token @ [c]) False rest
      else if c = CHR 0x5C then option_loop token True rest
      else if c = CHR '' '' then
        (case option_setting token of None \<Rightarrow> option_loop [] False rest | Some s \<Rightarrow> s # option_loop [] False rest)
      else option_loop (token @ [c]) False rest)"

definition startup_options :: "startup \<Rightarrow> (string \<times> string) list" where
  "startup_options s = (case startup_param_of ''options'' s of None \<Rightarrow> [] | Some raw \<Rightarrow> option_loop [] False raw)"

definition startup_option :: "string \<Rightarrow> startup \<Rightarrow> string option" where
  "startup_option name s = map_option snd (List.find (\<lambda>p. fst p = name) (startup_options s))"

definition startup_replication :: "startup \<Rightarrow> bool" where
  "startup_replication s =
     (case startup_param_of ''replication'' s of
        None \<Rightarrow> False
      | Some value \<Rightarrow> value \<notin> {''false'', ''off'', ''0'', []})"

definition startup_settings :: "startup \<Rightarrow> (string \<times> string) list" where
  "startup_settings s =
     filter (\<lambda>p. \<not> starts_with (fst p) extension_prefix)
       (filter (\<lambda>p. fst p \<notin> set not_a_setting) (startup_params_of s))"

definition startup_extensions :: "startup \<Rightarrow> string list" where
  "startup_extensions s = filter (\<lambda>name. starts_with name extension_prefix) (map fst (startup_params_of s))"

subsection \<open>The protocol version\<close>

datatype version_response = Accept | Negotiate int | UnsupportedVersion

definition negotiate :: "int \<Rightarrow> bool \<Rightarrow> version_response" where
  "negotiate requested unrecognised_extension =
     (let major = requested div 65536; minor = requested mod 65536
      in if major \<noteq> 3 then UnsupportedVersion
         else if minor = 0 \<and> \<not> unrecognised_extension then Accept
         else Negotiate 0)"

subsection \<open>Decoding\<close>

datatype startup_error = SField field_error | SUnterminated

function startup_loop :: "startup_param list \<Rightarrow> reader \<Rightarrow> startup_error + startup_param list" where
  "startup_loop params r =
     (if reader_is_empty r then Inl SUnterminated
      else field_then SField (read_cstr ''parameter_name'' r) (\<lambda>name r.
             if name = [] then Inr params
             else field_then SField (read_cstr ''parameter_value'' r) (\<lambda>value r.
                    startup_loop (params @ [(name, value)]) r)))"
  by pat_completeness auto
termination
  by (relation "measure (\<lambda>(params, r). length (remaining r))") (auto dest!: read_cstr_less)

declare startup_loop.simps [simp del]

definition decode_startup :: "string \<Rightarrow> startup_error + startup" where
  "decode_startup body =
     field_then SField (read_i32 ''protocol_version'' (reader_new body)) (\<lambda>code r.
       if code = ssl_request_code then Inr SslRequest
       else if code = gssenc_request_code then Inr GssEncRequest
       else if code = cancel_request_code then
         field_then SField (read_i32 ''process_id'' r) (\<lambda>process_id r.
         field_then SField (read_i32 ''secret_key'' r) (\<lambda>secret r.
           Inr (CancelRequest (conn_id_from_key process_id secret))))
       else
         (case startup_loop [] r of
            Inl e \<Rightarrow> Inl e
          | Inr params \<Rightarrow> Inr (StartupMessage code params)))"

subsection \<open>Requests\<close>

definition ssl_request :: "string \<Rightarrow> string" where
  "ssl_request out = untagged out (i32_bytes ssl_request_code)"

definition cancel_request :: "string \<Rightarrow> int \<Rightarrow> int \<Rightarrow> string" where
  "cancel_request out process_id secret =
     untagged out (i32_bytes cancel_request_code @ i32_bytes process_id @ i32_bytes secret)"

subsection \<open>Cancel keys\<close>

lemma unsigned_signed32: "n < 2 ^ 32 \<Longrightarrow> unsigned_of 32 (to_signed 32 n) = n"
  by (simp add: unsigned_of_def to_signed_def)

lemma key_halves: "unat (drop_bit 32 (c :: u64)) < 2 ^ 32" "unat (c AND mask 32) < 2 ^ 32"
proof -
  have "unat (drop_bit 32 c) = unat c div 2 ^ 32" by (metis drop_bit_eq_div unat_drop_bit_eq)
  moreover have "unat c < 2 ^ 64" using unsigned_less [of c, where ?'a = nat] by simp
  ultimately show "unat (drop_bit 32 c) < 2 ^ 32" by (simp add: less_mult_imp_div_less)
  show "unat (c AND mask 32) < 2 ^ 32"
    unfolding take_bit_eq_mask [symmetric] unsigned_take_bit_eq by (rule take_bit_nat_less_exp)
qed

lemma key_roundtrip: "case_prod conn_id_from_key (key_from_conn_id c) = c"
proof -
  have "push_bit 32 (drop_bit 32 c) OR (c AND mask 32) = c"
    by (rule bit_word_eqI) (auto simp: bit_simps)
  then show ?thesis
    by (simp add: key_from_conn_id_def conn_id_from_key_def unsigned_signed32 [OF key_halves(1)] unsigned_signed32 [OF key_halves(2)])
qed

lemma to_signed32_bounds: "n < 2 ^ 32 \<Longrightarrow> - 2147483648 \<le> to_signed 32 n \<and> to_signed 32 n < 2147483648"
  by (simp add: to_signed_def)

lemma key_bounds:
  assumes "key_from_conn_id c = (process_id, secret)"
  shows "- 2147483648 \<le> process_id" "process_id < 2147483648" "- 2147483648 \<le> secret" "secret < 2147483648"
  using assms key_halves [of c] to_signed32_bounds by (auto simp: key_from_conn_id_def)

lemma decode_key_data:
  assumes "- 2147483648 \<le> p" "p < 2147483648" "- 2147483648 \<le> s" "s < 2147483648"
  shows "decode_backend \<lparr>f_tag = tag_backend_key_data, f_body = i32_bytes p @ i32_bytes s\<rparr> = Inr (BackendKeyData p s)"
proof -
  obtain r1 where r1: "read_i32 ''process_id'' (reader_new (i32_bytes p @ i32_bytes s)) = Inr (p, r1)" "at r1 (i32_bytes s @ [])"
    using read_i32_at [OF at_new assms(1,2), of "i32_bytes s"] by (auto simp: usize_max_def)
  obtain r2 where "read_i32 ''secret_key'' r1 = Inr (s, r2)" using read_i32_at [OF r1(2) assms(3,4)] by blast
  then show ?thesis using r1(1) by (simp add: decode_backend_def)
qed

lemma decode_cancel:
  assumes "- 2147483648 \<le> p" "p < 2147483648" "- 2147483648 \<le> s" "s < 2147483648"
  shows "decode_startup (i32_bytes cancel_request_code @ i32_bytes p @ i32_bytes s) = Inr (CancelRequest (conn_id_from_key p s))"
proof -
  let ?c = cancel_request_code
  have c: "- 2147483648 \<le> ?c" "?c < 2147483648" by (simp_all add: request_codes)
  obtain r0 where r0: "read_i32 ''protocol_version'' (reader_new (i32_bytes ?c @ i32_bytes p @ i32_bytes s)) = Inr (?c, r0)"
      "at r0 (i32_bytes p @ i32_bytes s)"
    using read_i32_at [OF at_new c, of "i32_bytes p @ i32_bytes s"] by (auto simp: usize_max_def)
  obtain r1 where r1: "read_i32 ''process_id'' r0 = Inr (p, r1)" "at r1 (i32_bytes s @ [])"
    using read_i32_at [OF r0(2) assms(1,2)] by auto
  obtain r2 where "read_i32 ''secret_key'' r1 = Inr (s, r2)" using read_i32_at [OF r1(2) assms(3,4)] by blast
  then show ?thesis using r0(1) r1(1) by (simp add: decode_startup_def request_codes)
qed

text \<open>A first message as its reader sees it.\<close>

definition read_startup :: "string \<Rightarrow> nat \<Rightarrow> (startup_error + startup) option" where
  "read_startup bytes max_frame =
     (case decode_untagged bytes max_frame of
        Inr (Framed f used) \<Rightarrow> Some (decode_startup (f_body f))
      | _ \<Rightarrow> None)"

lemma read_untagged:
  assumes "4 + length body \<le> max_frame" "max_frame \<le> u32_max"
  shows "read_startup (untagged [] body @ rest) max_frame = Some (decode_startup body)"
  using decode_untagged_untagged [of body max_frame rest] assms by (simp add: read_startup_def len_prefix_def)

text \<open>
  A cancel request finds its way. For every node and every secret the proxy gives a client a key,
  the client reads two integers out of it, and a cancel request with those two integers, arriving at any
  node of the fleet, decodes to the connection it was given for, from which the owning node and the
  secret are recovered.
\<close>

theorem cancel_roundtrip:
  "\<exists>process_id secret_key.
     read_message decode_backend (backend_key_data [] (conn_new (node mod 65536) secret) @ rest) default_max_frame =
       Some (Inr (BackendKeyData process_id secret_key), rest) \<and>
     read_startup (cancel_request [] process_id secret_key @ more_bytes) default_max_frame =
       Some (Inr (CancelRequest (conn_new (node mod 65536) secret))) \<and>
     conn_node (conn_new (node mod 65536) secret) = node mod 65536 \<and>
     conn_secret (conn_new (node mod 65536) secret) = secret AND mask 48"
proof -
  define c where "c = conn_new (node mod 65536) secret"
  obtain p s where k: "key_from_conn_id c = (p, s)" by force
  have f: "4 + (8 :: nat) \<le> default_max_frame" "4 + (12 :: nat) \<le> default_max_frame" "default_max_frame \<le> u32_max"
    by (simp_all add: default_max_frame_def u32_max_def)
  have "read_message decode_backend (backend_key_data [] c @ rest) default_max_frame = Some (Inr (BackendKeyData p s), rest)"
    using f decode_key_data [OF key_bounds [OF k]] by (simp add: backend_key_data_def k read_tagged)
  moreover have "read_startup (cancel_request [] p s @ more_bytes) default_max_frame = Some (Inr (CancelRequest c))"
    using f decode_cancel [OF key_bounds [OF k]] key_roundtrip [of c] k by (simp add: cancel_request_def read_untagged)
  ultimately show ?thesis using conn_new_parts [of node secret] conn_new_parts [of "node mod 65536" secret] unfolding c_def by blast
qed

subsection \<open>Startup packets\<close>

lemma startup_loop_at:
  assumes "at r (concat (map (\<lambda>(name, value). cstr name @ cstr value) params) @ CHR 0x00 # t)"
    and "list_all (\<lambda>(name, value). name \<noteq> [] \<and> wire_text name \<and> wire_text value) params"
  shows "startup_loop acc r = Inr (acc @ params)"
  using assms
proof (induction params arbitrary: acc r)
  case Nil
  have "wire_text []" by (simp add: wire_text_def from_utf8_def)
  then obtain r1 where "read_cstr ''parameter_name'' r = Inr ([], r1)"
    using Nil read_cstr_at [of r "[]" t] by auto
  moreover have "\<not> reader_is_empty r" using Nil by (auto simp: at_def remaining_def reader_is_empty_def)
  ultimately show ?case by (simp add: startup_loop.simps [of acc r])
next
  case (Cons p params)
  obtain name v where p: "p = (name, v)" by force
  let ?t = "concat (map (\<lambda>(name, value). cstr name @ cstr value) params) @ CHR 0x00 # t"
  have a: "at r (cstr name @ cstr v @ ?t)" using Cons.prems(1) p by simp
  have w: "name \<noteq> []" "wire_text name" "wire_text v" using Cons.prems(2) p by simp_all
  obtain r1 where r1: "read_cstr ''parameter_name'' r = Inr (name, r1)" "at r1 (cstr v @ ?t)"
    using read_cstr_cstr [OF a w(2)] by blast
  obtain r2 where r2: "read_cstr ''parameter_value'' r1 = Inr (v, r2)" "at r2 ?t"
    using read_cstr_cstr [OF r1(2) w(3)] by blast
  have "\<not> reader_is_empty r" using a by (auto simp: at_def remaining_def reader_is_empty_def cstr_def)
  then show ?case
    using Cons.IH [OF r2(2), of "acc @ [(name, v)]"] Cons.prems(2) p r1(1) r2(1) w(1)
    by (simp add: startup_loop.simps [of acc r])
qed

text \<open>
  A startup packet arrives as it was sent: for any protocol version that is not one of the three
  request codes and any parameters with non-empty names, the receiver reads the version and the
  parameters in order. A user name is then the user, and the database when none is named; a request for
  TLS is read as that request.
\<close>

theorem startup_roundtrip:
  assumes "- 2147483648 \<le> version" "version < 2147483648"
    and "version \<notin> {ssl_request_code, gssenc_request_code, cancel_request_code}"
    and "list_all (\<lambda>(name, value). name \<noteq> [] \<and> wire_text name \<and> wire_text value) params"
    and "length (concat (map (\<lambda>(name, value). cstr name @ cstr value) params)) + 9 \<le> max_frame" "max_frame \<le> u32_max"
  shows "read_startup (startup_message [] version params @ rest) max_frame = Some (Inr (StartupMessage version params)) \<and>
    (\<forall>user. map_of params ''user'' = Some user \<and> map_of params ''database'' = None \<longrightarrow>
       startup_user (StartupMessage version params) = Some user \<and>
       startup_database (StartupMessage version params) = Some user) \<and>
    read_startup (ssl_request [] @ rest) max_frame = Some (Inr SslRequest)"
proof (intro conjI allI impI)
  let ?b = "concat (map (\<lambda>(name, value). cstr name @ cstr value) params) @ [CHR 0x00]"
  have l: "length (i32_bytes version @ ?b) \<le> usize_max" using assms(5,6) by (simp add: u32_max_def usize_max_def)
  obtain r1 where r1: "read_i32 ''protocol_version'' (reader_new (i32_bytes version @ ?b)) = Inr (version, r1)" "at r1 ?b"
    using read_i32_at [OF at_new [OF l] assms(1,2)] by blast
  have "decode_startup (i32_bytes version @ ?b) = Inr (StartupMessage version params)"
    using r1(1) assms(3) startup_loop_at [OF r1(2) assms(4), of "[]"] by (simp add: decode_startup_def)
  then show "read_startup (startup_message [] version params @ rest) max_frame = Some (Inr (StartupMessage version params))"
    using assms(5,6) by (simp add: startup_message_def read_untagged)
  have c: "- 2147483648 \<le> ssl_request_code" "ssl_request_code < 2147483648" by (simp_all add: request_codes)
  have "at (reader_new (i32_bytes ssl_request_code)) (i32_bytes ssl_request_code @ [])"
    using at_new [of "i32_bytes ssl_request_code"] by (simp add: usize_max_def)
  then obtain r2 where "read_i32 ''protocol_version'' (reader_new (i32_bytes ssl_request_code)) = Inr (ssl_request_code, r2)"
    using read_i32_at c by blast
  then have "decode_startup (i32_bytes ssl_request_code) = Inr SslRequest" by (simp add: decode_startup_def)
  then show "read_startup (ssl_request [] @ rest) max_frame = Some (Inr SslRequest)"
    using assms(5,6) by (simp add: ssl_request_def read_untagged)
next
  have f: "map_option snd (List.find (\<lambda>p. fst p = name) ps) = map_of ps name" for name and ps :: "startup_param list"
    by (induction ps) auto
  fix user
  assume "map_of params ''user'' = Some user \<and> map_of params ''database'' = None"
  then show "startup_user (StartupMessage version params) = Some user" "startup_database (StartupMessage version params) = Some user"
    by (simp_all add: startup_user_def startup_database_def startup_param_of_def f)
qed

theorem startup_roundtrip_witness:
  "read_startup (startup_message [] protocol_3_0 [(''user'', ''ann''), (''client_encoding'', ''UTF8'')] @ ''Z'') 1024 =
     Some (Inr (StartupMessage 196608 [(''user'', ''ann''), (''client_encoding'', ''UTF8'')])) \<and>
   startup_database (StartupMessage 196608 [(''user'', ''ann''), (''client_encoding'', ''UTF8'')]) = Some ''ann''"
proof -
  have "wire_text ''user''" "wire_text ''ann''" "wire_text ''client_encoding''" "wire_text ''UTF8''"
    by (simp_all add: wire_text_def utf8_ascii is_ascii_def)
  then show ?thesis
    using startup_roundtrip [of 196608 "[(''user'', ''ann''), (''client_encoding'', ''UTF8'')]" 1024 "''Z''"]
    by (simp add: request_codes u32_max_def protocol_3_0_def)
qed

end
