(* ===== verification/Classify.thy ===== *)
theory Classify
  imports Sql_Data
begin

text \<open>
  \<^verbatim>\<open>crates/pgprox-core/src/route.rs\<close> (the classes of a statement) and \<^verbatim>\<open>crates/pgprox-route/src/classify.rs\<close>:
  what a query does, from its words. The keyword lists are searched behind a filter of three bit masks.
  The theorems show that the filter never changes an answer, that a query is a write exactly when one of
  its words says so, and which queries count as reads.
\<close>

unbundle bit_operations_syntax

datatype stmt_class = ReadOnly | Write | Unknown

definition replica_eligible :: "stmt_class \<Rightarrow> bool" where
  "replica_eligible c = (c = ReadOnly)"

subsection \<open>Keyword lists\<close>

record word_set =
  ws_words :: "string list"
  ws_lengths :: "64 word"
  ws_initials :: "32 word"
  ws_finals :: "32 word"

definition is_ascii_lowercase :: "char \<Rightarrow> bool" where
  "is_ascii_lowercase c = (97 \<le> (of_char c :: nat) \<and> of_char c \<le> (122 :: nat))"

text \<open>The assertions of the constructor, checked when the lists are compiled.\<close>

definition word_ok :: "string \<Rightarrow> bool" where
  "word_ok w = (w \<noteq> [] \<and> length w < 64 \<and> is_ascii_lowercase (hd w) \<and> is_ascii_lowercase (last w))"

definition add_word :: "string \<Rightarrow> word_set \<Rightarrow> word_set" where
  "add_word w s =
     s\<lparr>ws_lengths := ws_lengths s OR push_bit (length w) 1,
       ws_initials := ws_initials s OR push_bit (of_char (hd w) - 97) 1,
       ws_finals := ws_finals s OR push_bit (of_char (last w) - 97) 1\<rparr>"

definition word_set_new :: "string list \<Rightarrow> word_set" where
  "word_set_new ws = fold add_word ws \<lparr>ws_words = ws, ws_lengths = 0, ws_initials = 0, ws_finals = 0\<rparr>"

text \<open>A byte of a word is folded to lower case by setting one bit.\<close>

definition might_hold :: "word_set \<Rightarrow> string \<Rightarrow> bool" where
  "might_hold s word =
     (if length word \<ge> 64 \<or> ws_lengths s AND push_bit (length word) 1 = 0 then False
      else
        let first = of_char (hd word) OR (32 :: nat); final = of_char (last word) OR (32 :: nat)
        in if \<not> (97 \<le> first \<and> first \<le> 122) \<or> \<not> (97 \<le> final \<and> final \<le> 122) then False
           else ws_initials s AND push_bit (first - 97) 1 \<noteq> 0 \<and> ws_finals s AND push_bit (final - 97) 1 \<noteq> 0)"

definition read_first_words :: word_set where
  "read_first_words = word_set_new [''select'', ''with'', ''table'', ''values'', ''explain'']"

definition write_words :: word_set where
  "write_words = word_set_new
     [''insert'', ''update'', ''delete'', ''merge'', ''truncate'', ''create'', ''refresh'', ''execute'', ''declare'',
      ''share'', ''into'', ''analyze'', ''analyse'']"

definition writing_functions :: word_set where
  "writing_functions = word_set_new
     [''nextval'', ''setval'', ''pg_advisory_lock'', ''pg_advisory_lock_shared'', ''pg_advisory_unlock'',
      ''pg_advisory_unlock_all'', ''pg_advisory_unlock_shared'', ''pg_advisory_xact_lock'',
      ''pg_advisory_xact_lock_shared'', ''pg_try_advisory_lock'', ''pg_try_advisory_lock_shared'',
      ''pg_try_advisory_xact_lock'', ''pg_try_advisory_xact_lock_shared'', ''txid_current'', ''pg_current_xact_id'',
      ''pg_logical_emit_message'', ''pg_create_restore_point'', ''pg_switch_wal'',
      ''pg_create_physical_replication_slot'', ''pg_create_logical_replication_slot'', ''pg_drop_replication_slot'',
      ''pg_replication_slot_advance'', ''lo_create'', ''lo_creat'', ''lo_import'', ''lo_unlink'', ''lo_from_bytea'',
      ''lo_put'']"

definition matches_any :: "string \<Rightarrow> word_set \<Rightarrow> bool" where
  "matches_any word s = (might_hold s word \<and> list_ex (eq_ignore_ascii_case word) (ws_words s))"

subsection \<open>Classifying\<close>

fun combine :: "stmt_class \<Rightarrow> stmt_class \<Rightarrow> stmt_class" where
  "combine Write _ = Write"
| "combine _ Write = Write"
| "combine ReadOnly ReadOnly = ReadOnly"
| "combine _ _ = Unknown"

definition word_class :: "string \<Rightarrow> bool \<Rightarrow> stmt_class \<Rightarrow> stmt_class" where
  "word_class word first c =
     (let c = (if first then (if matches_any word read_first_words then ReadOnly else Unknown) else c)
      in if matches_any word write_words then Write
         else if c = ReadOnly \<and> matches_any word writing_functions then Unknown
         else c)"

function classify_one :: "bool \<Rightarrow> stmt_class \<Rightarrow> string \<Rightarrow> stmt_class \<times> bool \<times> string" where
  "classify_one first c s =
     (case lexer_next s of
        None \<Rightarrow> (if first then Unknown else c, False, [])
      | Some (Semicolon, rest) \<Rightarrow> (if first then ReadOnly else c, rest \<noteq> [], rest)
      | Some (Quoted, rest) \<Rightarrow> classify_one False c rest
      | Some (Punct _, rest) \<Rightarrow> classify_one first c rest
      | Some (Word word, rest) \<Rightarrow> classify_one False (word_class word first c) rest)"
  by pat_completeness auto
termination by (relation "measure (\<lambda>(first, c, s). length s)") (auto dest: lexer_next_less)

declare classify_one.simps [simp del]

lemma classify_one_less: "classify_one first c s = (d, True, r) \<Longrightarrow> length r < length s"
proof (induction first c s rule: classify_one.induct)
  case (1 first c s)
  show ?case
  proof (cases "lexer_next s")
    case None
    then show ?thesis using "1.prems" by (simp add: classify_one.simps [of first c s])
  next
    case (Some p)
    obtain t rest where p: "p = (t, rest)" by force
    have l: "length rest < length s" using lexer_next_less Some p by blast
    show ?thesis
      using "1.prems" "1.IH" [OF Some p [symmetric]] l Some p less_trans [of "length r" "length rest" "length s"]
      by (cases t) (auto simp: classify_one.simps [of first c s])
  qed
qed

function classify_loop :: "stmt_class option \<Rightarrow> string \<Rightarrow> stmt_class" where
  "classify_loop worst s =
     (case classify_one True Unknown s of
        (c, again, rest) \<Rightarrow>
          let worst = (case worst of None \<Rightarrow> c | Some previous \<Rightarrow> combine previous c)
          in if again then classify_loop (Some worst) rest else worst)"
  by pat_completeness auto
termination by (relation "measure (\<lambda>(worst, s). length s)") (auto dest: classify_one_less sym)

declare classify_loop.simps [simp del]

definition classify :: "string \<Rightarrow> stmt_class" where
  "classify sql = classify_loop None sql"

subsection \<open>Read-only transactions\<close>

text \<open>The first word, over leading punctuation, and what follows it.\<close>

function opener :: "string \<Rightarrow> (string \<times> string) option" where
  "opener s =
     (case lexer_next s of
        Some (Word word, rest) \<Rightarrow> Some (word, rest)
      | Some (Punct _, rest) \<Rightarrow> opener rest
      | _ \<Rightarrow> None)"
  by pat_completeness auto
termination by (relation "measure length") (auto dest: lexer_next_less)

declare opener.simps [simp del]

fun read_only_scan :: "bool \<Rightarrow> string option \<Rightarrow> bool \<Rightarrow> bool \<Rightarrow> token list \<Rightarrow> bool" where
  "read_only_scan sets previous at_second_word read_only [] = read_only"
| "read_only_scan sets previous at_second_word read_only (Semicolon # ts) = read_only"
| "read_only_scan sets previous at_second_word read_only (Quoted # ts) = False"
| "read_only_scan sets previous at_second_word read_only (Punct _ # ts) =
     read_only_scan sets previous at_second_word read_only ts"
| "read_only_scan sets previous at_second_word read_only (Word word # ts) =
     (if at_second_word \<and> sets \<and> \<not> eq_ignore_ascii_case word ''transaction'' then False
      else
        read_only_scan sets (Some word) False
          (read_only \<or>
           (case previous of None \<Rightarrow> False | Some p \<Rightarrow> eq_ignore_ascii_case p ''read'') \<and> eq_ignore_ascii_case word ''only'')
          ts)"

definition begins_read_only_transaction :: "string \<Rightarrow> bool" where
  "begins_read_only_transaction sql =
     (case opener sql of
        None \<Rightarrow> False
      | Some (word, rest) \<Rightarrow>
          let sets = eq_ignore_ascii_case word ''set''
          in if \<not> sets \<and> \<not> eq_ignore_ascii_case word ''begin'' \<and> \<not> eq_ignore_ascii_case word ''start'' then False
             else read_only_scan sets None True False (tokens rest))"

subsection \<open>The filter\<close>

lemma or_32: "n \<in> {97..122} \<Longrightarrow> n OR (32 :: nat) = n" "n \<in> {65..90} \<Longrightarrow> n OR (32 :: nat) = n + 32"
proof -
  have a: "list_all (\<lambda>n. n OR (32 :: nat) = n) [97..<123]" by (simp add: upt_conv_Cons)
  have b: "list_all (\<lambda>n. n OR (32 :: nat) = n + 32) [65..<91]" by (simp add: upt_conv_Cons)
  show "n OR (32 :: nat) = n" if "n \<in> {97..122}" using bspec [OF a [unfolded list_all_iff set_upt], of n] that by simp
  show "n OR (32 :: nat) = n + 32" if "n \<in> {65..90}" using bspec [OF b [unfolded list_all_iff set_upt], of n] that by simp
qed

lemma of_char_less: "(of_char c :: nat) < 256"
  by (metis of_char_mod_256 mod_less_divisor zero_less_numeral)

lemma fold_letter:
  assumes "is_ascii_lowercase d" "lower c = lower d"
  shows "of_char c OR (32 :: nat) = of_char d"
proof (cases "65 \<le> (of_char c :: nat) \<and> of_char c \<le> (90 :: nat)")
  case True
  have d: "lower d = d" using assms(1) by (simp add: lower_def is_ascii_lowercase_def)
  have "char_of (of_char c + 32 :: nat) = d" using True assms(2) d by (simp add: lower_def)
  then have "of_char d = (of_char c + 32 :: nat)" using True by (auto simp: of_char_of)
  then show ?thesis using or_32(2) [of "of_char c"] True by simp
next
  case False
  have "c = d" using False assms by (auto simp: lower_def is_ascii_lowercase_def split: if_splits)
  then show ?thesis using or_32(1) [of "of_char c"] assms(1) by (simp add: is_ascii_lowercase_def)
qed

lemma add_word_keeps:
  "ws_words (fold add_word ws s) = ws_words s"
  "bit (ws_lengths s) n \<Longrightarrow> bit (ws_lengths (fold add_word ws s)) n"
  "bit (ws_initials s) n \<Longrightarrow> bit (ws_initials (fold add_word ws s)) n"
  "bit (ws_finals s) n \<Longrightarrow> bit (ws_finals (fold add_word ws s)) n"
  by (induction ws arbitrary: s) (simp_all add: add_word_def bit_or_iff)

lemma add_word_bits:
  assumes "list_all word_ok ws" "w \<in> set ws"
  shows "bit (ws_lengths (fold add_word ws s)) (length w) \<and>
    bit (ws_initials (fold add_word ws s)) (of_char (hd w) - 97) \<and> bit (ws_finals (fold add_word ws s)) (of_char (last w) - 97)"
  using assms
proof (induction ws arbitrary: s)
  case (Cons v ws)
  show ?case
  proof (cases "w = v")
    case True
    then have "length w < 64" "of_char (hd w) - 97 < (32 :: nat)" "of_char (last w) - 97 < (32 :: nat)"
      using Cons.prems(1) by (auto simp: word_ok_def is_ascii_lowercase_def)
    then have "bit (ws_lengths (add_word w s)) (length w)" "bit (ws_initials (add_word w s)) (of_char (hd w) - 97)"
        "bit (ws_finals (add_word w s)) (of_char (last w) - 97)"
      by (simp_all add: add_word_def bit_or_iff bit_push_bit_iff bit_exp_iff)
    then show ?thesis using add_word_keeps(2-4) True by simp
  next
    case False
    then show ?thesis using Cons.IH [of "add_word v s"] Cons.prems by simp
  qed
qed simp

lemma might_hold_member:
  assumes "list_all word_ok ws" "w \<in> set ws" "eq_ignore_ascii_case word w"
  shows "might_hold (word_set_new ws) word"
proof -
  have ok: "word_ok w" using assms(1,2) by (simp add: list_all_iff)
  have eq: "map lower word = map lower w" using assms(3) by (simp add: eq_ignore_ascii_case_def to_ascii_lowercase_def)
  then have len: "length word = length w" using map_eq_imp_length_eq by blast
  have ne: "word \<noteq> []" "w \<noteq> []" using ok len by (auto simp: word_ok_def)
  have "lower (hd word) = lower (hd w)" "lower (last word) = lower (last w)"
    using eq ne by (metis hd_map, metis last_map)
  then have f: "of_char (hd word) OR (32 :: nat) = of_char (hd w)" "of_char (last word) OR (32 :: nat) = of_char (last w)"
    using fold_letter ok by (simp_all add: word_ok_def)
  have range: "97 \<le> (of_char (hd w) :: nat) \<and> of_char (hd w) \<le> (122 :: nat)" "97 \<le> (of_char (last w) :: nat) \<and> of_char (last w) \<le> (122 :: nat)"
    "length w < 64"
    using ok by (simp_all add: word_ok_def is_ascii_lowercase_def)
  show ?thesis
    using add_word_bits [OF assms(1,2)] range
    by (simp add: might_hold_def word_set_new_def len f Let_def bit_iff_and_push_bit_not_eq_0)
qed

lemma matches_any_exact:
  assumes "list_all word_ok ws"
  shows "matches_any word (word_set_new ws) \<longleftrightarrow> list_ex (eq_ignore_ascii_case word) ws"
  using might_hold_member [OF assms] by (auto simp: matches_any_def list_ex_iff word_set_new_def add_word_keeps(1))

lemma ws_words_new [simp]: "ws_words (word_set_new ws) = ws"
  by (simp add: word_set_new_def add_word_keeps(1))

definition keyword :: "string \<Rightarrow> bool" where
  "keyword w = (word_ok w \<and> to_ascii_lowercase w = w)"

lemma matches_any_member:
  assumes "s = word_set_new ws" "list_all keyword ws"
  shows "matches_any word s \<longleftrightarrow> to_ascii_lowercase word \<in> set (ws_words s)"
proof -
  have "list_all word_ok ws" "\<forall>w \<in> set ws. to_ascii_lowercase w = w" using assms(2) by (auto simp: keyword_def list_all_iff)
  then show ?thesis
    using matches_any_exact [of ws word] assms(1) by (auto simp: list_ex_iff eq_ignore_ascii_case_def)
qed

lemmas keyword_eval = keyword_def word_ok_def is_ascii_lowercase_def to_ascii_lowercase_def lower_def

lemma matches_lists [simp]:
  "matches_any word read_first_words \<longleftrightarrow> to_ascii_lowercase word \<in> set (ws_words read_first_words)"
  "matches_any word write_words \<longleftrightarrow> to_ascii_lowercase word \<in> set (ws_words write_words)"
  "matches_any word writing_functions \<longleftrightarrow> to_ascii_lowercase word \<in> set (ws_words writing_functions)"
  by (rule matches_any_member [OF read_first_words_def], simp add: keyword_eval,
      rule matches_any_member [OF write_words_def], simp add: keyword_eval,
      rule matches_any_member [OF writing_functions_def], simp add: keyword_eval)

subsection \<open>What a class means\<close>

text \<open>The statements of a query, as its tokens between the separators.\<close>

fun segments :: "token list \<Rightarrow> token list list" where
  "segments [] = [[]]"
| "segments (t # ts) =
     (if t = Semicolon then [] # segments ts
      else case segments ts of [] \<Rightarrow> [[t]] | seg # segs \<Rightarrow> (t # seg) # segs)"

definition is_punct :: "token \<Rightarrow> bool" where
  "is_punct t = (case t of Punct _ \<Rightarrow> True | _ \<Rightarrow> False)"

definition says_write :: "token \<Rightarrow> bool" where
  "says_write t = (case t of Word w \<Rightarrow> to_ascii_lowercase w \<in> set (ws_words write_words) | _ \<Rightarrow> False)"

definition calls_writer :: "token \<Rightarrow> bool" where
  "calls_writer t = (case t of Word w \<Rightarrow> to_ascii_lowercase w \<in> set (ws_words writing_functions) | _ \<Rightarrow> False)"

definition leads_as_read :: "token list \<Rightarrow> bool" where
  "leads_as_read ts =
     (case dropWhile is_punct ts of
        Word w # _ \<Rightarrow> to_ascii_lowercase w \<in> set (ws_words read_first_words)
      | _ \<Rightarrow> False)"

definition reads_only :: "token list \<Rightarrow> bool" where
  "reads_only ts = (leads_as_read ts \<and> \<not> list_ex says_write ts \<and> \<not> list_ex calls_writer ts)"

text \<open>The scan over one statement, on its tokens.\<close>

fun scan_class :: "bool \<times> stmt_class \<Rightarrow> token \<Rightarrow> bool \<times> stmt_class" where
  "scan_class (first, c) (Word w) = (False, word_class w first c)"
| "scan_class (first, c) Quoted = (False, c)"
| "scan_class (first, c) _ = (first, c)"

definition scanned :: "bool \<Rightarrow> stmt_class \<Rightarrow> token list \<Rightarrow> stmt_class \<Rightarrow> stmt_class" where
  "scanned first c ts blank = (case foldl scan_class (first, c) ts of (f, c) \<Rightarrow> if f then blank else c)"

definition one_result :: "bool \<Rightarrow> stmt_class \<Rightarrow> string \<Rightarrow> stmt_class \<times> bool \<times> string \<Rightarrow> token list \<Rightarrow> bool" where
  "one_result first c s res ts =
     (case res of (d, again, r) \<Rightarrow>
        Semicolon \<notin> set ts \<and>
        (\<not> again \<and> r = [] \<and> tokens s = ts \<and> d = scanned first c ts Unknown \<or>
         again = (r \<noteq> []) \<and> tokens s = ts @ Semicolon # tokens r \<and> d = scanned first c ts ReadOnly))"

lemma one_result_step:
  assumes "lexer_next s = Some (t, rest)" "t \<noteq> Semicolon" "one_result f' c' rest res ts" "scan_class (first, c) t = (f', c')"
  shows "one_result first c s res (t # ts)"
  using assms by (auto simp: one_result_def scanned_def tokens.simps [of s])

lemma classify_one_tokens: "\<exists>ts. one_result first c s (classify_one first c s) ts"
proof (induction first c s rule: classify_one.induct)
  case (1 first c s)
  show ?case
  proof (cases "lexer_next s")
    case None
    then show ?thesis
      by (intro exI [of _ "[]"]) (auto simp: one_result_def scanned_def classify_one.simps [of first c s] tokens.simps [of s])
  next
    case (Some p)
    obtain t rest where p: "p = (t, rest)" by force
    note IH = "1.IH" [OF Some p [symmetric]] and lex = Some [unfolded p]
    have one: "classify_one first c s =
        (case t of Semicolon \<Rightarrow> (if first then ReadOnly else c, rest \<noteq> [], rest) | Quoted \<Rightarrow> classify_one False c rest
         | Punct _ \<Rightarrow> classify_one first c rest | Word w \<Rightarrow> classify_one False (word_class w first c) rest)"
      using lex by (simp add: classify_one.simps [of first c s] split: token.split)
    show ?thesis
    proof (cases t)
      case Semicolon
      then show ?thesis using one lex
        by (intro exI [of _ "[]"]) (auto simp: one_result_def scanned_def tokens.simps [of s])
    next
      case (Word w)
      then show ?thesis using IH(1) [OF Word] one_result_step [OF lex] one by fastforce
    next
      case Quoted
      then show ?thesis using IH(2) [OF Quoted] one_result_step [OF lex] one by fastforce
    next
      case (Punct x)
      then show ?thesis using IH(3) [OF Punct] one_result_step [OF lex] one by fastforce
    qed
  qed
qed

lemma scan_write:
  assumes "first \<longrightarrow> c \<noteq> Write" "d \<noteq> Write"
  shows "scanned first c ts d = Write \<longleftrightarrow> c = Write \<or> list_ex says_write ts"
  using assms(1) unfolding scanned_def
proof (induction ts arbitrary: first c)
  case (Cons t ts)
  show ?case using Cons.IH [of False] Cons.IH [of first c] Cons.prems
    by (cases t) (auto simp: says_write_def word_class_def Let_def)
qed (use assms(2) in auto)

lemma scan_read_started:
  "scanned False c ts d = ReadOnly \<longleftrightarrow> c = ReadOnly \<and> \<not> list_ex says_write ts \<and> \<not> list_ex calls_writer ts"
  unfolding scanned_def
proof (induction ts arbitrary: c)
  case (Cons t ts)
  show ?case using Cons.IH [of "word_class _ False c"] Cons.IH [of c]
    by (cases t) (auto simp: says_write_def calls_writer_def word_class_def Let_def)
qed simp

lemma scan_read:
  assumes "Semicolon \<notin> set ts"
  shows "scanned True Unknown ts d = ReadOnly \<longleftrightarrow> (if list_all is_punct ts then d = ReadOnly else reads_only ts)"
  using assms
proof (induction ts)
  case (Cons t ts)
  have e: "scanned True Unknown (t # ts) d = (case scan_class (True, Unknown) t of (f, c) \<Rightarrow> scanned f c ts d)"
    by (simp add: scanned_def split: prod.split)
  show ?case using Cons e scan_read_started [of _ ts d]
    by (cases t) (auto simp: is_punct_def reads_only_def leads_as_read_def says_write_def calls_writer_def word_class_def Let_def)
qed (simp add: scanned_def)

lemma segments_plain: "Semicolon \<notin> set ts \<Longrightarrow> segments ts = [ts]"
  by (induction ts) auto

lemma segments_split: "Semicolon \<notin> set ts \<Longrightarrow> segments (ts @ Semicolon # us) = ts # segments us"
  by (induction ts) auto

lemma segments_nonempty [simp]: "segments ts \<noteq> []"
  by (cases ts) (auto split: list.split)

abbreviation harmless :: "token list \<Rightarrow> bool" where
  "harmless seg \<equiv> list_all is_punct seg \<or> reads_only seg"

lemma combine_Write: "combine a b = Write \<longleftrightarrow> a = Write \<or> b = Write"
  by (cases a; cases b) auto

lemma combine_ReadOnly: "combine a b = ReadOnly \<longleftrightarrow> a = ReadOnly \<and> b = ReadOnly"
  by (cases a; cases b) auto

text \<open>One turn of the loop over statements.\<close>

definition join_class :: "stmt_class option \<Rightarrow> stmt_class \<Rightarrow> stmt_class" where
  "join_class worst c = (case worst of None \<Rightarrow> c | Some previous \<Rightarrow> combine previous c)"

lemma classify_loop_cases [consumes 0, case_names end_of_input separator]:
  obtains ts where "Semicolon \<notin> set ts" "tokens s = ts"
      "\<And>worst. classify_loop worst s = join_class worst (scanned True Unknown ts Unknown)"
  | ts r where "Semicolon \<notin> set ts" "tokens s = ts @ Semicolon # tokens r" "length r < length s"
      "\<And>worst. classify_loop worst s =
         (if r \<noteq> [] then classify_loop (Some (join_class worst (scanned True Unknown ts ReadOnly))) r
          else join_class worst (scanned True Unknown ts ReadOnly))"
proof -
  obtain d again r where one: "classify_one True Unknown s = (d, again, r)" by (cases "classify_one True Unknown s") auto
  obtain ts where ts: "one_result True Unknown s (d, again, r) ts" using classify_one_tokens [of True Unknown s] one by auto
  have l: "classify_loop worst s = (if again then classify_loop (Some (join_class worst d)) r else join_class worst d)" for worst
    by (simp add: classify_loop.simps [of worst s] one join_class_def Let_def)
  consider "\<not> again" "tokens s = ts" "d = scanned True Unknown ts Unknown"
    | "again = (r \<noteq> [])" "tokens s = ts @ Semicolon # tokens r" "d = scanned True Unknown ts ReadOnly"
    using ts by (auto simp: one_result_def)
  then show ?thesis
  proof cases
    case 1
    then show ?thesis using that(1) [of ts] ts l by (simp add: one_result_def)
  next
    case 2
    have "r = [] \<Longrightarrow> s \<noteq> []" using 2(2) by auto
    then have "length r < length s" using classify_one_less [of True Unknown s d r] one 2(1) by (cases "r = []") auto
    then show ?thesis using that(2) [of ts r] ts l 2 by (simp add: one_result_def)
  qed
qed

lemma classify_loop_Write: "classify_loop worst s = Write \<longleftrightarrow> worst = Some Write \<or> list_ex says_write (tokens s)"
proof (induction s arbitrary: worst rule: measure_induct_rule [of length])
  case (less s)
  have j: "join_class worst c = Write \<longleftrightarrow> worst = Some Write \<or> c = Write" for worst c
    by (auto simp: join_class_def combine_Write split: option.split)
  have n: "\<not> says_write Semicolon" by (simp add: says_write_def)
  show ?case
  proof (cases s rule: classify_loop_cases)
    case (end_of_input ts)
    then show ?thesis using scan_write [of True Unknown Unknown ts] by (simp add: j)
  next
    case (separator ts r)
    show ?thesis using scan_write [of True Unknown ReadOnly ts] less.IH [OF separator(3)] separator(2)
      by (cases "r = []") (auto simp: separator(4) j n)
  qed
qed

lemma classify_loop_ReadOnly:
  assumes "classify_loop worst s = ReadOnly"
  shows "(worst = None \<or> worst = Some ReadOnly) \<and> tokens s \<noteq> [] \<and> list_all harmless (segments (tokens s))"
  using assms
proof (induction s arbitrary: worst rule: measure_induct_rule [of length])
  case (less s)
  have j: "join_class worst c = ReadOnly \<longleftrightarrow> (worst = None \<or> worst = Some ReadOnly) \<and> c = ReadOnly" for worst c
    by (auto simp: join_class_def combine_ReadOnly split: option.split)
  show ?case
  proof (cases s rule: classify_loop_cases)
    case (end_of_input ts)
    then show ?thesis using less.prems scan_read [of ts Unknown] by (auto simp: j segments_plain split: if_splits)
  next
    case (separator ts r)
    have h: "scanned True Unknown ts ReadOnly = ReadOnly \<Longrightarrow> harmless ts"
      using scan_read [OF separator(1), of ReadOnly] by (simp split: if_splits)
    show ?thesis
    proof (cases "r = []")
      case True
      then show ?thesis using less.prems separator(2) h segments_split [OF separator(1), of "[]"] by (simp add: separator(4) j)
    next
      case False
      then have "classify_loop (Some (join_class worst (scanned True Unknown ts ReadOnly))) r = ReadOnly"
        using less.prems by (simp add: separator(4))
      from less.IH [OF separator(3) this] show ?thesis
        using separator(2) h segments_split [OF separator(1), of "tokens r"] by (simp add: j)
    qed
  qed
qed

lemma classify_loop_reads:
  assumes "tokens s \<noteq> []" "last (tokens s) \<noteq> Semicolon"
  shows "classify_loop worst s = ReadOnly \<longleftrightarrow>
    (worst = None \<or> worst = Some ReadOnly) \<and> list_all harmless (butlast (segments (tokens s))) \<and> reads_only (last (segments (tokens s)))"
  using assms
proof (induction s arbitrary: worst rule: measure_induct_rule [of length])
  case (less s)
  have j: "join_class worst c = ReadOnly \<longleftrightarrow> (worst = None \<or> worst = Some ReadOnly) \<and> c = ReadOnly" for worst c
    by (auto simp: join_class_def combine_ReadOnly split: option.split)
  have blank: "list_all is_punct ts \<Longrightarrow> \<not> reads_only ts" for ts
    by (auto simp: reads_only_def leads_as_read_def dropWhile_eq_Nil_conv [THEN iffD2] list_all_iff)
  show ?case
  proof (cases s rule: classify_loop_cases)
    case (end_of_input ts)
    then show ?thesis using scan_read [of ts Unknown] blank by (simp add: j segments_plain)
  next
    case (separator ts r)
    have r: "tokens r \<noteq> []" "last (tokens r) \<noteq> Semicolon" "r \<noteq> []" 
      using less.prems separator(2) by (auto split: if_splits)
    show ?thesis using less.IH [OF separator(3) r(1,2)] r(3) separator(2) scan_read [OF separator(1), of ReadOnly]
        segments_split [OF separator(1), of "tokens r"]
      by (auto simp: separator(4) j)
  qed
qed

subsection \<open>Evaluating a literal query\<close>

lemma lexer_next_solid:
  assumes "is_ascii c" "\<not> is_ascii_whitespace c" "c \<noteq> CHR ''/''" "c \<noteq> CHR ''-''"
  shows "lexer_next (c # s) = Some (next_of c (c # s))"
  using skip_trivia_here [of c s] assms by (simp add: lexer_next_def)

lemma skip_trivia_Nil [simp]: "skip_trivia [] = []"
  using skip_trivia_suffix [of "[]"] by simp

lemma lexer_next_Nil [simp]: "lexer_next [] = None"
  by (simp add: lexer_next_def)

lemma word_lists:
  "ws_words read_first_words = [''select'', ''with'', ''table'', ''values'', ''explain'']"
  "ws_words write_words =
     [''insert'', ''update'', ''delete'', ''merge'', ''truncate'', ''create'', ''refresh'', ''execute'', ''declare'',
      ''share'', ''into'', ''analyze'', ''analyse'']"
  "ws_words writing_functions =
     [''nextval'', ''setval'', ''pg_advisory_lock'', ''pg_advisory_lock_shared'', ''pg_advisory_unlock'',
      ''pg_advisory_unlock_all'', ''pg_advisory_unlock_shared'', ''pg_advisory_xact_lock'',
      ''pg_advisory_xact_lock_shared'', ''pg_try_advisory_lock'', ''pg_try_advisory_lock_shared'',
      ''pg_try_advisory_xact_lock'', ''pg_try_advisory_xact_lock_shared'', ''txid_current'', ''pg_current_xact_id'',
      ''pg_logical_emit_message'', ''pg_create_restore_point'', ''pg_switch_wal'',
      ''pg_create_physical_replication_slot'', ''pg_create_logical_replication_slot'', ''pg_drop_replication_slot'',
      ''pg_replication_slot_advance'', ''lo_create'', ''lo_creat'', ''lo_import'', ''lo_unlink'', ''lo_from_bytea'',
      ''lo_put'']"
  by (simp_all add: read_first_words_def write_words_def writing_functions_def)

lemmas lex_eval = tokens.simps lexer_next_solid lexer_next_space next_of_def next_word_def is_word_char_def
  is_string_introducer_def single_quoted_end_def starts_with_Cons ascii_eval

lemmas classify_eval = lex_eval classify_def classify_loop.simps classify_one.simps word_class_def word_lists



end
