(* ===== verification/Hints.thy ===== *)
theory Hints
  imports Classify
begin

text \<open>
  \<^verbatim>\<open>crates/pgprox-route/src/hints.rs\<close>: the two ways a client says where its statements should go, an
  assignment to the parameter \<open>pgprox.route\<close> and a leading comment.
\<close>

datatype route_hint = HAuto | HPrimary | HReplica

datatype route_assignment = ASet route_hint | AInvalid | AReset

definition comment_prefix :: string where "comment_prefix = ''pgprox:''"

definition route_parameter_name :: string where "route_parameter_name = ''pgprox.route''"

definition hint_unquote :: "string \<Rightarrow> string" where
  "hint_unquote value =
     (if length value \<ge> 2 \<and> hd value = CHR 0x27 \<and> last value = CHR 0x27 then tl (butlast value)
      else if length value \<ge> 2 \<and> hd value = CHR 0x22 \<and> last value = CHR 0x22 then tl (butlast value)
      else value)"

definition parse_hint_value :: "string \<Rightarrow> route_hint option" where
  "parse_hint_value value =
     (let trimmed = to_ascii_lowercase (hint_unquote (trim value))
      in if trimmed \<in> {''auto'', ''default''} then Some HAuto
         else if trimmed \<in> {''primary'', ''writer'', ''master''} then Some HPrimary
         else if trimmed \<in> {''replica'', ''reader'', ''standby''} then Some HReplica
         else None)"

subsection \<open>Assignments\<close>

text \<open>The rest of the text after the parameter, when it comes next.\<close>

definition route_parameter :: "string \<Rightarrow> string option" where
  "route_parameter lexer =
     (case split_once CHR ''.'' route_parameter_name of
        None \<Rightarrow> None
      | Some (namespace, name) \<Rightarrow>
          (case lexer_pull lexer of
             (Some (Word w), probe) \<Rightarrow>
               if \<not> eq_ignore_ascii_case w namespace then None
               else (case lexer_pull probe of
                       (Some (Punct c), probe) \<Rightarrow>
                         if c \<noteq> CHR ''.'' then None
                         else (case lexer_pull probe of
                                 (Some (Word w), probe) \<Rightarrow> if eq_ignore_ascii_case w name then Some probe else None
                               | _ \<Rightarrow> None)
                     | _ \<Rightarrow> None)
           | _ \<Rightarrow> None))"

definition statement_is_exhausted :: "string \<Rightarrow> bool" where
  "statement_is_exhausted lexer =
     (case lexer_pull lexer of
        (None, _) \<Rightarrow> True
      | (Some Semicolon, probe) \<Rightarrow> fst (lexer_pull probe) = None
      | _ \<Rightarrow> False)"

text \<open>The loop of \<open>first_statement\<close>: what is left at the separator, and whether anything follows it.\<close>

function first_separator :: "string \<Rightarrow> (string \<times> bool) option" where
  "first_separator probe =
     (case lexer_next probe of
        None \<Rightarrow> None
      | Some (Semicolon, rest) \<Rightarrow> Some (probe, fst (lexer_pull rest) = None)
      | Some (_, rest) \<Rightarrow> first_separator rest)"
  by pat_completeness auto
termination by (relation "measure length") (auto dest: lexer_next_less)

declare first_separator.simps [simp del]

definition first_statement :: "string \<Rightarrow> string \<times> bool" where
  "first_statement text =
     (case first_separator text of
        None \<Rightarrow> (text, True)
      | Some (before, exhausted) \<Rightarrow> (take (length text - length before) text, exhausted))"

definition parse_route_assignment :: "string \<Rightarrow> route_assignment option" where
  "parse_route_assignment sql =
     (case lexer_pull sql of
        (Some (Word verb), lexer) \<Rightarrow>
          if eq_ignore_ascii_case verb ''reset'' then
            (let is_all =
                   (case lexer_pull lexer of
                      (Some (Word w), probe) \<Rightarrow> eq_ignore_ascii_case w ''all'' \<and> fst (lexer_pull probe) = None
                    | _ \<Rightarrow> False)
             in if is_all then Some AReset
                else case route_parameter lexer of
                  None \<Rightarrow> None
                | Some lexer \<Rightarrow> if statement_is_exhausted lexer then Some AReset else None)
          else if \<not> eq_ignore_ascii_case verb ''set'' then None
          else
            (case route_parameter lexer of
               None \<Rightarrow> None
             | Some lexer \<Rightarrow>
                 (case lexer_pull lexer of (token, probe) \<Rightarrow>
                    let matched_operator =
                          (case token of
                             Some (Punct c) \<Rightarrow> c = CHR ''=''
                           | Some (Word w) \<Rightarrow> eq_ignore_ascii_case w ''to''
                           | _ \<Rightarrow> False)
                    in if \<not> matched_operator then None
                       else (case first_statement (skip_trivia probe) of (value, exhausted) \<Rightarrow>
                               if \<not> exhausted then None
                               else Some (case parse_hint_value (trim value) of
                                            None \<Rightarrow> AInvalid | Some hint \<Rightarrow> ASet hint))))
      | _ \<Rightarrow> None)"

subsection \<open>Leading comments\<close>

fun comment_stop :: "nat \<Rightarrow> nat \<Rightarrow> string \<Rightarrow> nat option" where
  "comment_stop depth i [] = None"
| "comment_stop depth i [c] = None"
| "comment_stop depth i (c # d # rest) =
     (if c = CHR ''/'' \<and> d = CHR ''*'' then comment_stop (depth + 1) (i + 2) rest
      else if c = CHR ''*'' \<and> d = CHR ''/'' then
        (if depth - 1 = 0 then Some (i + 2) else comment_stop (depth - 1) (i + 2) rest)
      else comment_stop depth (i + 1) (d # rest))"

definition split_block_comment :: "string \<Rightarrow> (string \<times> string) option" where
  "split_block_comment input =
     map_option (\<lambda>i. (drop 2 (take (i - 2) input), drop i input)) (comment_stop 0 0 input)"

definition trim_end_matches :: "char set \<Rightarrow> string \<Rightarrow> string" where
  "trim_end_matches cs s = rev (dropWhile (\<lambda>c. c \<in> cs) (rev s))"

definition hint_from_comment :: "string \<Rightarrow> route_hint option" where
  "hint_from_comment body =
     (let trimmed = trim body
      in if starts_with trimmed comment_prefix
         then parse_hint_value (trim (trim_end_matches {CHR ''*'', CHR ''/''} (drop (length comment_prefix) trimmed)))
         else None)"

lemma comment_stop_pos: "comment_stop depth i s = Some j \<Longrightarrow> i < j"
  by (induction depth i s rule: comment_stop.induct) (auto split: if_splits)

lemma split_block_comment_less: "split_block_comment s = Some (body, rest) \<Longrightarrow> s \<noteq> [] \<Longrightarrow> length rest < length s"
  using comment_stop_pos [of 0 0 s] by (auto simp: split_block_comment_def)

lemma trim_start_less: "length (trim_start s) \<noteq> length s \<Longrightarrow> length (trim_start s) < length s"
  using trim_start_suffix [of s] by (metis le_add2 length_append nat_less_le)

definition split_line :: "string \<Rightarrow> string \<times> string" where
  "split_line after = (case split_once CHR 0x0A after of None \<Rightarrow> (after, []) | Some p \<Rightarrow> p)"

lemma split_once_less: "split_once c s = Some (a, b) \<Longrightarrow> length b < length s"
  by (induction s arbitrary: a) (auto split: if_splits)

lemma split_line_le: "length (snd (split_line s)) \<le> length s"
  using split_once_less [of "CHR 0x0A" s] by (auto simp: split_line_def split: option.split)

function statement_hint :: "string \<Rightarrow> route_hint option" where
  "statement_hint rest =
     (let trimmed = trim_start rest
      in if length trimmed \<noteq> length rest then statement_hint trimmed
         else if starts_with rest ''--'' then
           (let (line, remainder) = split_line (drop 2 rest)
            in case hint_from_comment line of Some hint \<Rightarrow> Some hint | None \<Rightarrow> statement_hint remainder)
         else if starts_with rest ''/*'' then
           (case split_block_comment rest of
              None \<Rightarrow> None
            | Some (body, remainder) \<Rightarrow>
                (case hint_from_comment body of Some hint \<Rightarrow> Some hint | None \<Rightarrow> statement_hint remainder))
         else None)"
  by pat_completeness auto
termination
proof (relation "measure length")
  fix rest trimmed
  assume "trimmed = trim_start rest" "length trimmed \<noteq> length rest"
  then show "(trimmed, rest) \<in> measure length" using trim_start_less [of rest] by simp
next
  fix rest p line remainder
  assume a: "starts_with rest ''--''" "p = split_line (drop 2 rest)" "(line, remainder) = p"
  have "length remainder \<le> length (drop 2 rest)" using split_line_le [of "drop 2 rest"] a(2,3) by (metis snd_conv)
  moreover have "rest \<noteq> []" using a(1) by (auto simp: starts_with_def)
  ultimately show "(remainder, rest) \<in> measure length" by (cases rest) auto
next
  fix rest and p :: "string \<times> string" and body remainder
  assume "starts_with rest ''/*''" "split_block_comment rest = Some p" "(body, remainder) = p"
  then show "(remainder, rest) \<in> measure length"
    using split_block_comment_less [of rest body remainder] by (cases rest) (auto simp: starts_with_def)
qed simp

declare statement_hint.simps [simp del]

end
