(* ===== verification/Router.thy ===== *)
theory Router
  imports Hints Ids
begin

text \<open>
  Where a statement goes: the rule of \<^verbatim>\<open>crates/pgprox-core/src/route.rs\<close>, what is known of the replicas
  (\<^verbatim>\<open>crates/pgprox-route/src/replica.rs\<close>) and the routing state of a session
  (\<^verbatim>\<open>crates/pgprox-route/src/router.rs\<close>). The buffer for replica states that a session reuses is not
  part of its state here: it is overwritten before every use. The theorems are what a session may rely
  on when its statement goes to a replica, and where that falls short.
\<close>

subsection \<open>The rule\<close>

datatype route_target = Primary | Replica nat

record replica_state =
  rs_replayed :: lsn
  rs_healthy :: bool

definition can_serve :: "replica_state \<Rightarrow> lsn option \<Rightarrow> bool" where
  "can_serve r watermark =
     (rs_healthy r \<and> (case watermark of None \<Rightarrow> True | Some floor \<Rightarrow> rs_replayed r \<ge> floor))"

record route_ctx =
  rx_class :: stmt_class
  rx_watermark :: "lsn option"
  rx_in_transaction :: bool
  rx_pinned :: bool
  rx_wrote :: bool
  rx_hint :: route_hint

definition decide :: "route_ctx \<Rightarrow> replica_state list \<Rightarrow> route_target" where
  "decide ctx replicas =
     (if rx_pinned ctx \<or> rx_in_transaction ctx \<or> rx_wrote ctx \<or> rx_hint ctx = HPrimary then Primary
      else
        let eligible = (case rx_hint ctx of HReplica \<Rightarrow> rx_class ctx \<noteq> Write | _ \<Rightarrow> replica_eligible (rx_class ctx))
        in if \<not> eligible then Primary
           else case find_where (\<lambda>r. can_serve r (rx_watermark ctx)) replicas of
             None \<Rightarrow> Primary
           | Some i \<Rightarrow> Replica i)"

subsection \<open>Replicas\<close>

record replica_config =
  rf_freshness :: duration

definition replica_config_default :: replica_config where
  "replica_config_default = \<lparr>rf_freshness = from_secs 1\<rparr>"

record observation =
  ob_replayed :: lsn
  ob_in_recovery :: bool
  ob_at :: instant

record replicas =
  rp_config :: replica_config
  rp_observations :: "observation option list"

definition replicas_new :: "nat \<Rightarrow> replica_config \<Rightarrow> replicas" where
  "replicas_new n config = \<lparr>rp_config = config, rp_observations = replicate n None\<rparr>"

definition replica_observe :: "nat \<Rightarrow> lsn \<Rightarrow> bool \<Rightarrow> instant \<Rightarrow> replicas \<Rightarrow> replicas" where
  "replica_observe index replayed in_recovery at_time rs =
     (if index < length (rp_observations rs)
      then rs\<lparr>rp_observations := (rp_observations rs)[index := Some \<lparr>ob_replayed = replayed, ob_in_recovery = in_recovery, ob_at = at_time\<rparr>]\<rparr>
      else rs)"

definition observe_failure :: "nat \<Rightarrow> replicas \<Rightarrow> replicas" where
  "observe_failure index rs =
     (if index < length (rp_observations rs) then rs\<lparr>rp_observations := (rp_observations rs)[index := None]\<rparr> else rs)"

definition replica_state_at :: "replicas \<Rightarrow> nat \<Rightarrow> instant \<Rightarrow> replica_state" where
  "replica_state_at rs index now =
     (let unhealthy = \<lparr>rs_replayed = 0, rs_healthy = False\<rparr>
      in if index \<ge> length (rp_observations rs) then unhealthy
         else case rp_observations rs ! index of
           None \<Rightarrow> unhealthy
         | Some ob \<Rightarrow>
             if \<not> ob_in_recovery ob then unhealthy
             else if now - ob_at ob > rf_freshness (rp_config rs) then unhealthy
             else \<lparr>rs_replayed = ob_replayed ob, rs_healthy = True\<rparr>)"

definition replica_states :: "replicas \<Rightarrow> instant \<Rightarrow> replica_state list" where
  "replica_states rs now = map (\<lambda>index. replica_state_at rs index now) [0..<length (rp_observations rs)]"

definition lag_behind :: "replicas \<Rightarrow> nat \<Rightarrow> lsn \<Rightarrow> instant \<Rightarrow> u64 option" where
  "lag_behind rs index primary now =
     (let state = replica_state_at rs index now
      in if rs_healthy state
         then Some (if primary \<le> rs_replayed state then 0 else primary - rs_replayed state) else None)"

definition watermark_advance :: "lsn \<Rightarrow> lsn option \<Rightarrow> lsn option" where
  "watermark_advance l w = Some (case w of Some current \<Rightarrow> if current \<ge> l then current else l | None \<Rightarrow> l)"

subsection \<open>The session\<close>

datatype routed = To route_target | HintAccepted | HintRejected

record session_router =
  sr_hint :: route_hint
  sr_watermark :: "lsn option"
  sr_fixed :: "route_target option"
  sr_read_only_transaction :: bool
  sr_pinned :: bool
  sr_wrote :: bool

definition router_new :: session_router where
  "router_new =
     \<lparr>sr_hint = HAuto, sr_watermark = None, sr_fixed = None, sr_read_only_transaction = False, sr_pinned = False, sr_wrote = False\<rparr>"

definition set_pinned :: "bool \<Rightarrow> session_router \<Rightarrow> session_router" where
  "set_pinned pinned r = r\<lparr>sr_pinned := pinned\<rparr>"

definition record_write :: "lsn \<Rightarrow> session_router \<Rightarrow> session_router" where
  "record_write l r = r\<lparr>sr_watermark := watermark_advance l (sr_watermark r), sr_wrote := False\<rparr>"

definition router_reset :: "session_router \<Rightarrow> session_router" where
  "router_reset r = router_new"

definition end_transaction :: "session_router \<Rightarrow> session_router" where
  "end_transaction r = r\<lparr>sr_fixed := None, sr_read_only_transaction := False\<rparr>"

definition begins_transaction :: "string \<Rightarrow> bool" where
  "begins_transaction sql =
     (case lexer_next sql of
        Some (Word word, _) \<Rightarrow> eq_ignore_ascii_case word ''begin'' \<or> eq_ignore_ascii_case word ''start''
      | _ \<Rightarrow> False)"

definition route :: "string \<Rightarrow> bool \<Rightarrow> replicas \<Rightarrow> instant \<Rightarrow> session_router \<Rightarrow> routed \<times> session_router" where
  "route sql in_transaction reps now r =
     (case parse_route_assignment sql of
        Some (ASet hint) \<Rightarrow> (HintAccepted, r\<lparr>sr_hint := hint\<rparr>)
      | Some AReset \<Rightarrow> (HintAccepted, r\<lparr>sr_hint := HAuto\<rparr>)
      | Some AInvalid \<Rightarrow> (HintRejected, r)
      | None \<Rightarrow>
          (case sr_fixed r of
             Some target \<Rightarrow>
               (To target,
                if sr_read_only_transaction r then r else r\<lparr>sr_wrote := sr_wrote r \<or> classify sql = Write\<rparr>)
           | None \<Rightarrow>
               let r1 = (if begins_read_only_transaction sql then r\<lparr>sr_read_only_transaction := True\<rparr> else r);
                   cls = (if sr_read_only_transaction r1 then ReadOnly else classify sql);
                   ctx = \<lparr>rx_class = cls, rx_watermark = sr_watermark r1, rx_in_transaction = False,
                          rx_pinned = sr_pinned r1, rx_wrote = sr_wrote r1,
                          rx_hint = (case statement_hint sql of Some h \<Rightarrow> h | None \<Rightarrow> sr_hint r1)\<rparr>;
                   r2 = r1\<lparr>sr_wrote := sr_wrote r1 \<or> cls = Write\<rparr>;
                   target = decide ctx (replica_states reps now);
                   r3 = (if in_transaction \<or> begins_transaction sql then r2\<lparr>sr_fixed := Some target\<rparr> else r2)
               in (To target, r3)))"

subsection \<open>Histories of a session\<close>

datatype router_op =
    Stmt string bool replicas instant
  | RecordedAt lsn
  | Ended
  | Pinned

fun router_do :: "router_op \<Rightarrow> session_router \<Rightarrow> session_router" where
  "router_do (Stmt sql in_transaction reps now) r = snd (route sql in_transaction reps now r)"
| "router_do (RecordedAt l) r = record_write l r"
| "router_do Ended r = end_transaction r"
| "router_do Pinned r = set_pinned True r"

definition router_run :: "router_op list \<Rightarrow> session_router" where
  "router_run ops = fold router_do ops router_new"

lemma router_run_simps [simp]:
  "router_run [] = router_new" "router_run (ops @ [op]) = router_do op (router_run ops)"
  by (simp_all add: router_run_def)

text \<open>A write was sent and where it landed has not been recorded since.\<close>

definition counts_as_write :: "session_router \<Rightarrow> string \<Rightarrow> bool" where
  "counts_as_write r sql =
     (parse_route_assignment sql = None \<and> classify sql = Write \<and> \<not> sr_read_only_transaction r \<and>
      (sr_fixed r = None \<longrightarrow> \<not> begins_read_only_transaction sql))"

definition awaits_position :: "router_op list \<Rightarrow> bool" where
  "awaits_position ops =
     (\<exists>pre sql in_transaction reps now post.
        ops = pre @ [Stmt sql in_transaction reps now] @ post \<and> counts_as_write (router_run pre) sql \<and>
        (\<forall>l. RecordedAt l \<notin> set post))"

subsection \<open>What a replica may be asked\<close>

lemma find_where_Some: "find_where P xs = Some i \<Longrightarrow> i < length xs \<and> P (xs ! i)"
  by (induction xs arbitrary: i) (auto split: if_splits)

lemma decide_replica:
  assumes "decide ctx rs = Replica i"
  shows "\<not> rx_pinned ctx \<and> \<not> rx_in_transaction ctx \<and> \<not> rx_wrote ctx \<and> rx_hint ctx \<noteq> HPrimary \<and>
    rx_class ctx \<noteq> Write \<and> (rx_class ctx = ReadOnly \<or> rx_hint ctx = HReplica) \<and>
    i < length rs \<and> can_serve (rs ! i) (rx_watermark ctx)"
  using assms find_where_Some [of "\<lambda>r. can_serve r (rx_watermark ctx)" rs i]
  by (auto simp: decide_def replica_eligible_def Let_def split: if_splits option.splits route_hint.splits)

lemma replica_states_nth:
  assumes "i < length (replica_states reps now)" "can_serve (replica_states reps now ! i) w"
  shows "\<exists>ob. i < length (rp_observations reps) \<and> rp_observations reps ! i = Some ob \<and> ob_in_recovery ob \<and>
    now - ob_at ob \<le> rf_freshness (rp_config reps) \<and> (case w of None \<Rightarrow> True | Some floor \<Rightarrow> floor \<le> ob_replayed ob)"
  using assms
  by (auto simp: replica_states_def can_serve_def replica_state_at_def Let_def split: option.splits if_splits)

lemma route_fresh:
  assumes "sr_fixed r = None" "fst (route sql in_transaction reps now r) = To target"
  shows "parse_route_assignment sql = None \<and>
    (\<exists>hint cls. decide \<lparr>rx_class = cls, rx_watermark = sr_watermark r, rx_in_transaction = False, rx_pinned = sr_pinned r,
                         rx_wrote = sr_wrote r, rx_hint = hint\<rparr> (replica_states reps now) = target \<and>
       hint = (case statement_hint sql of Some h \<Rightarrow> h | None \<Rightarrow> sr_hint r) \<and>
       (cls = classify sql \<or> sr_read_only_transaction r \<or> begins_read_only_transaction sql))"
  using assms by (auto simp: route_def Let_def split: option.splits route_assignment.splits if_splits)

lemma route_keeps:
  "sr_watermark (snd (route sql b reps now r)) = sr_watermark r"
  "sr_pinned (snd (route sql b reps now r)) = sr_pinned r"
  "sr_wrote r \<Longrightarrow> sr_wrote (snd (route sql b reps now r))"
  by (simp_all add: route_def Let_def split: option.splits route_assignment.splits if_splits)

lemma route_counts: "counts_as_write r sql \<Longrightarrow> sr_wrote (snd (route sql b reps now r))"
  by (simp add: counts_as_write_def route_def Let_def split: option.splits)

lemma router_watermark: "RecordedAt l \<in> set ops \<Longrightarrow> \<exists>w. sr_watermark (router_run ops) = Some w \<and> l \<le> w"
proof (induction ops rule: rev_induct)
  case (snoc op ops)
  show ?case
  proof (cases op)
    case (RecordedAt k)
    then show ?thesis using snoc
      by (auto simp: record_write_def watermark_advance_def split: option.splits)
  qed (use snoc in \<open>auto simp: route_keeps end_transaction_def set_pinned_def\<close>)
qed simp

lemma router_pinned: "Pinned \<in> set ops \<longleftrightarrow> sr_pinned (router_run ops)"
proof (induction ops rule: rev_induct)
  case (snoc op ops)
  then show ?case by (cases op) (auto simp: route_keeps record_write_def end_transaction_def set_pinned_def)
qed (simp add: router_new_def)

lemma router_awaits: "awaits_position ops \<Longrightarrow> sr_wrote (router_run ops)"
proof (induction ops rule: rev_induct)
  case (snoc op ops)
  note IH = snoc.IH
  obtain pre sql b reps now post where p: "ops @ [op] = pre @ [Stmt sql b reps now] @ post"
      "counts_as_write (router_run pre) sql" "\<forall>l. RecordedAt l \<notin> set post"
    using snoc.prems unfolding awaits_position_def by blast
  show ?case
  proof (cases post rule: rev_cases)
    case Nil
    then show ?thesis using p route_counts by auto
  next
    case (snoc post' op')
    then have o: "ops = pre @ [Stmt sql b reps now] @ post'" "op' = op" using p(1) by auto
    have "awaits_position ops" unfolding awaits_position_def
      by (intro exI [of _ pre] exI [of _ sql] exI [of _ b] exI [of _ reps] exI [of _ now] exI [of _ post']) (use p o snoc in auto)
    then have "sr_wrote (router_run ops)" by (rule IH)
    moreover have "\<forall>l. op \<noteq> RecordedAt l" using p(3) snoc o(2) by auto
    ultimately show ?thesis by (cases op) (auto simp: route_keeps end_transaction_def set_pinned_def)
  qed
qed (simp add: awaits_position_def)


definition caught_up :: replicas where
  "caught_up = replica_observe 0 100 True 0 (replicas_new 1 replica_config_default)"

lemma caught_up_states: "replica_states caught_up 0 = [\<lparr>rs_replayed = 100, rs_healthy = True\<rparr>]"
  by (simp add: caught_up_def replica_states_def replica_state_at_def replica_observe_def replicas_new_def)

lemma statement_hint_plain: "is_solid c \<Longrightarrow> c \<noteq> CHR ''-'' \<Longrightarrow> c \<noteq> CHR ''/'' \<Longrightarrow> statement_hint (c # s) = None"
  by (subst statement_hint.simps) (simp add: trim_start_solid starts_with_Cons)

lemmas hint_eval = parse_route_assignment_def route_parameter_def route_parameter_name_def lexer_pull_def statement_is_exhausted_def

lemmas route_eval = lex_eval hint_eval classify_eval statement_hint_plain is_solid_def begins_read_only_transaction_def opener.simps
  begins_transaction_def

lemmas decide_eval = decide_def can_serve_def replica_eligible_def caught_up_states router_new_def

lemma example_statements:
  "parse_route_assignment ''RESET ALL'' = Some AReset"
  "parse_route_assignment ''SELECT 1'' = None" "statement_hint ''SELECT 1'' = None" "classify ''SELECT 1'' = ReadOnly"
  "\<not> begins_read_only_transaction ''SELECT 1''" "\<not> begins_transaction ''SELECT 1''"
  "parse_route_assignment ''SELECT 1; BEGIN'' = None" "statement_hint ''SELECT 1; BEGIN'' = None"
  "classify ''SELECT 1; BEGIN'' = Unknown" "\<not> begins_read_only_transaction ''SELECT 1; BEGIN''" "\<not> begins_transaction ''SELECT 1; BEGIN''"
  "parse_route_assignment ''DROP TABLE t'' = None" "statement_hint ''DROP TABLE t'' = None" "classify ''DROP TABLE t'' = Unknown"
  "\<not> begins_read_only_transaction ''DROP TABLE t''" "\<not> begins_transaction ''DROP TABLE t''"
  "parse_route_assignment ''DELETE FROM t'' = None" "classify ''DELETE FROM t'' = Write"
  "parse_route_assignment ''BEGIN'' = None" "statement_hint ''BEGIN'' = None" "classify ''BEGIN'' = Unknown"
  "\<not> begins_read_only_transaction ''BEGIN''" "begins_transaction ''BEGIN''"
  by (simp_all add: route_eval)

lemma example_read_only:
  "parse_route_assignment ''BEGIN READ ONLY; COMMIT; DELETE FROM t'' = None"
  "statement_hint ''BEGIN READ ONLY; COMMIT; DELETE FROM t'' = None"
  "classify ''BEGIN READ ONLY; COMMIT; DELETE FROM t'' = Write"
  "begins_read_only_transaction ''BEGIN READ ONLY; COMMIT; DELETE FROM t''"
  "classify ''SELECT 1;'' = ReadOnly" "classify ''SELECT 1; '' = Unknown"
  by (simp_all add: route_eval)

lemma route_example:
  assumes "parse_route_assignment sql = None" "statement_hint sql = None" "sr_fixed r = None"
  shows "route sql b reps now r =
    (let ro = sr_read_only_transaction r \<or> begins_read_only_transaction sql;
         cls = (if ro then ReadOnly else classify sql);
         target = decide \<lparr>rx_class = cls, rx_watermark = sr_watermark r, rx_in_transaction = False, rx_pinned = sr_pinned r,
                          rx_wrote = sr_wrote r, rx_hint = sr_hint r\<rparr> (replica_states reps now)
     in (To target, r\<lparr>sr_read_only_transaction := ro, sr_wrote := sr_wrote r \<or> cls = Write,
                      sr_fixed := if b \<or> begins_transaction sql then Some target else None\<rparr>))"
  using assms by (cases r) (simp add: route_def Let_def)


text \<open>
  C37. Where routing falls short of what its comments promise. \<open>RESET ALL\<close> is answered by the proxy and
  never reaches the server, whatever the session has set there. A transaction that a query opens after
  another statement has no target, and its next read goes to a replica. A query that begins a read-only
  transaction, ends it and then writes goes to a replica. After a statement the classifier does not
  know, such as a \<open>DROP\<close>, the next read may go to a replica that has not replayed it. With a session hint
  for replicas, \<open>BEGIN\<close> goes to a replica and takes the writes of its transaction along. And a blank after
  the last semicolon sends a read to the primary.
\<close>

theorem routing_gaps:
  "fst (route ''RESET ALL'' b reps now r) = HintAccepted \<and>
   fst (route ''SELECT 1; BEGIN'' False caught_up 0 router_new) = To Primary \<and>
   fst (route ''SELECT 1'' True caught_up 0 (snd (route ''SELECT 1; BEGIN'' False caught_up 0 router_new))) = To (Replica 0) \<and>
   classify ''BEGIN READ ONLY; COMMIT; DELETE FROM t'' = Write \<and>
   fst (route ''BEGIN READ ONLY; COMMIT; DELETE FROM t'' False caught_up 0 router_new) = To (Replica 0) \<and>
   fst (route ''DROP TABLE t'' False caught_up 0 router_new) = To Primary \<and>
   fst (route ''SELECT 1'' False caught_up 0 (snd (route ''DROP TABLE t'' False caught_up 0 router_new))) = To (Replica 0) \<and>
   fst (route ''DELETE FROM t'' True caught_up 0 (snd (route ''BEGIN'' False caught_up 0 (router_new\<lparr>sr_hint := HReplica\<rparr>)))) = To (Replica 0) \<and>
   classify ''SELECT 1;'' = ReadOnly \<and> classify ''SELECT 1; '' = Unknown"
proof (intro conjI)
  show "fst (route ''RESET ALL'' b reps now r) = HintAccepted"
    by (simp add: route_def example_statements)
  show "fst (route ''DELETE FROM t'' True caught_up 0 (snd (route ''BEGIN'' False caught_up 0 (router_new\<lparr>sr_hint := HReplica\<rparr>)))) = To (Replica 0)"
  proof -
    have "sr_fixed (snd (route ''BEGIN'' False caught_up 0 (router_new\<lparr>sr_hint := HReplica\<rparr>))) = Some (Replica 0)"
      by (simp add: route_example example_statements decide_eval Let_def)
    then show ?thesis by (simp add: route_def [of "''DELETE FROM t''"] example_statements)
  qed
qed (simp_all add: route_example example_statements example_read_only decide_eval Let_def)

end
