(* ===== verification/Pin.thy ===== *)
theory Pin
  imports Sql
begin

text \<open>
  \<^verbatim>\<open>crates/pgprox-pool/src/pin.rs\<close>: which statements tie a session to its upstream connection. A
  pin is taken from a keyword scan over the tokens, holds until the session ends, and keeps its first
  reason.
\<close>

datatype pin_reason = Listen | AdvisoryLock | TempTable | WithHold | Prepare | UnreplayableSet | Requested

definition pin_reason_as_str :: "pin_reason \<Rightarrow> string" where
  "pin_reason_as_str r =
     (case r of
        Listen \<Rightarrow> ''listen''
      | AdvisoryLock \<Rightarrow> ''advisory_lock''
      | TempTable \<Rightarrow> ''temp_table''
      | WithHold \<Rightarrow> ''with_hold''
      | Prepare \<Rightarrow> ''prepare''
      | UnreplayableSet \<Rightarrow> ''unreplayable_set''
      | Requested \<Rightarrow> ''requested'')"

subsection \<open>The replay list\<close>

type_synonym replayable = "string list"

definition replayable_names :: replayable where
  "replayable_names =
     [''search_path'', ''timezone'', ''application_name'', ''statement_timeout'', ''datestyle'',
      ''extra_float_digits'', ''client_encoding'', ''lock_timeout'',
      ''idle_in_transaction_session_timeout'', ''default_transaction_isolation'',
      ''default_transaction_read_only'', ''default_transaction_deferrable'', ''intervalstyle'',
      ''bytea_output'', ''standard_conforming_strings'']"

definition replayable_none :: replayable where
  "replayable_none = []"

definition replayable_contains :: "replayable \<Rightarrow> string \<Rightarrow> bool" where
  "replayable_contains names name = (name \<in> set names)"

subsection \<open>The scan of one statement\<close>

definition pin_parameter :: string where
  "pin_parameter = ''pgprox.pin''"

definition is_session_advisory_lock :: "string \<Rightarrow> bool" where
  "is_session_advisory_lock word =
     (let name = (case rsplit_once CHR ''.'' word of None \<Rightarrow> word | Some (_, after) \<Rightarrow> after)
      in (starts_with name ''pg_advisory'' \<or> starts_with name ''pg_try_advisory'')
         \<and> find_sub ''_xact_'' name = None)"

fun has_adjacent_pair :: "string list \<Rightarrow> string \<Rightarrow> string \<Rightarrow> bool" where
  "has_adjacent_pair (a # b # ws) first second =
     (a = first \<and> b = second \<or> has_adjacent_pair (b # ws) first second)"
| "has_adjacent_pair ws first second = False"

definition quoted_parameter_name :: "string \<Rightarrow> bool" where
  "quoted_parameter_name statement =
     (let rest = snd (lexer_pull statement);
          (token, rest') = lexer_pull rest;
          token' = (case token of
                      Some (Word word) \<Rightarrow>
                        if eq_ignore_ascii_case word ''session'' then fst (lexer_pull rest') else token
                    | _ \<Rightarrow> token)
      in token' = Some Quoted)"

definition pin_words_of :: "string \<Rightarrow> string list" where
  "pin_words_of statement = (case statement_words statement True of [] \<Rightarrow> [] | ws # _ \<Rightarrow> ws)"

text \<open>What is left once the scope word of a \<open>SET\<close> has been read.\<close>

definition set_name_reason :: "string \<Rightarrow> string list \<Rightarrow> replayable \<Rightarrow> pin_reason option" where
  "set_name_reason statement rest allowlist =
     (if quoted_parameter_name statement then Some UnreplayableSet
      else case rest of
        [] \<Rightarrow> None
      | name # _ \<Rightarrow>
          if name = ''transaction'' \<or> name = ''constraints'' then None
          else if name = pin_parameter then Some Requested
          else if starts_with name ''pgprox.'' then None
          else if replayable_contains allowlist name then None
          else Some UnreplayableSet)"

definition set_pin_reason :: "string \<Rightarrow> string list \<Rightarrow> replayable \<Rightarrow> pin_reason option" where
  "set_pin_reason statement words allowlist =
     (let rest = drop 1 words
      in if rest \<noteq> [] \<and> hd rest = ''session'' then set_name_reason statement (drop 1 rest) allowlist
         else if rest \<noteq> [] \<and> hd rest = ''local'' then None
         else set_name_reason statement rest allowlist)"

definition is_temp_word :: "string \<Rightarrow> bool" where
  "is_temp_word w = (w = ''temp'' \<or> w = ''temporary'' \<or> w = ''pg_temp'' \<or> starts_with w ''pg_temp.'')"

definition statement_pin_reason :: "string \<Rightarrow> replayable \<Rightarrow> pin_reason option" where
  "statement_pin_reason statement allowlist =
     (let words = pin_words_of statement
      in case words of
           [] \<Rightarrow> None
         | first # _ \<Rightarrow>
             if first = ''listen'' \<or> first = ''unlisten'' then Some Listen
             else if first = ''prepare'' then Some Prepare
             else if first = ''declare'' \<and> has_adjacent_pair words ''with'' ''hold'' then Some WithHold
             else if list_ex is_temp_word words then Some TempTable
             else if list_ex is_session_advisory_lock words then Some AdvisoryLock
             else if first = ''set'' then set_pin_reason statement words allowlist
             else None)"

fun find_map :: "('a \<Rightarrow> 'b option) \<Rightarrow> 'a list \<Rightarrow> 'b option" where
  "find_map f [] = None"
| "find_map f (x # xs) = (case f x of None \<Rightarrow> find_map f xs | Some y \<Rightarrow> Some y)"

definition pin_reason_of :: "string \<Rightarrow> replayable \<Rightarrow> pin_reason option" where
  "pin_reason_of sql allowlist = find_map (\<lambda>st. statement_pin_reason st allowlist) (statements sql)"

subsection \<open>The state of a session\<close>

record pin_state =
  ps_reason :: "pin_reason option"
  ps_tenant :: "tenant_id option"

definition pin_new :: pin_state where
  "pin_new = \<lparr>ps_reason = None, ps_tenant = None\<rparr>"

definition is_pinned :: "pin_state \<Rightarrow> bool" where
  "is_pinned st = (ps_reason st \<noteq> None)"

definition pin_set_tenant :: "tenant_id \<Rightarrow> pin_state \<Rightarrow> pin_state" where
  "pin_set_tenant tenant st = st\<lparr>ps_tenant := Some tenant\<rparr>"

definition pin :: "pin_reason \<Rightarrow> pin_state \<Rightarrow> bool \<times> pin_state" where
  "pin reason st = (if ps_reason st \<noteq> None then (False, st) else (True, st\<lparr>ps_reason := Some reason\<rparr>))"

definition pin_observe_statement :: "string \<Rightarrow> replayable \<Rightarrow> pin_state \<Rightarrow> pin_reason option \<times> pin_state" where
  "pin_observe_statement sql allowlist st =
     (if is_pinned st then (None, st)
      else case pin_reason_of sql allowlist of
        None \<Rightarrow> (None, st)
      | Some reason \<Rightarrow>
          (case pin reason st of (took, st') \<Rightarrow> (if took then Some reason else None, st')))"

definition observe_notification :: "pin_state \<Rightarrow> pin_reason option \<times> pin_state" where
  "observe_notification st =
     (case pin Listen st of (took, st') \<Rightarrow> (if took then Some Listen else None, st'))"

subsection \<open>Pins\<close>

text \<open>What a session can see, one after the other.\<close>

datatype pin_event = SawStatement string | SawNotification | SawTenant tenant_id

fun pin_step :: "replayable \<Rightarrow> pin_event \<Rightarrow> pin_state \<Rightarrow> pin_reason option \<times> pin_state" where
  "pin_step al (SawStatement sql) st = pin_observe_statement sql al st"
| "pin_step al SawNotification st = observe_notification st"
| "pin_step al (SawTenant t) st = (None, pin_set_tenant t st)"

fun pin_run :: "replayable \<Rightarrow> pin_event list \<Rightarrow> pin_state \<Rightarrow> pin_reason list \<times> pin_state" where
  "pin_run al [] st = ([], st)"
| "pin_run al (e # es) st =
     (case pin_step al e st of (r, st1) \<Rightarrow>
        case pin_run al es st1 of (rs, st2) \<Rightarrow> (case r of None \<Rightarrow> rs | Some x \<Rightarrow> x # rs, st2))"

text \<open>What an event asks for, the state aside.\<close>

fun event_reason :: "replayable \<Rightarrow> pin_event \<Rightarrow> pin_reason option" where
  "event_reason al (SawStatement sql) = pin_reason_of sql al"
| "event_reason al SawNotification = Some Listen"
| "event_reason al (SawTenant t) = None"

lemma pin_step_pinned: "is_pinned st \<Longrightarrow> \<exists>st'. pin_step al e st = (None, st') \<and> ps_reason st' = ps_reason st"
  by (cases e) (auto simp: is_pinned_def pin_observe_statement_def observe_notification_def pin_def pin_set_tenant_def)

lemma pin_step_free:
  "\<not> is_pinned st \<Longrightarrow> \<exists>st'. pin_step al e st = (event_reason al e, st') \<and> ps_reason st' = event_reason al e"
  by (cases e)
     (auto simp: is_pinned_def pin_observe_statement_def observe_notification_def pin_def pin_set_tenant_def split: option.split)

lemma pin_run_pinned: "is_pinned st \<Longrightarrow> \<exists>st'. pin_run al es st = ([], st') \<and> ps_reason st' = ps_reason st"
proof (induction es arbitrary: st)
  case (Cons e es)
  obtain st1 where "pin_step al e st = (None, st1)" "ps_reason st1 = ps_reason st"
    using pin_step_pinned [OF Cons.prems] by blast
  then show ?case using Cons.IH [of st1] Cons.prems by (auto simp: is_pinned_def)
qed simp

lemma pin_run_free:
  "\<not> is_pinned st \<Longrightarrow>
   \<exists>st'. pin_run al es st = ((case find_map (event_reason al) es of None \<Rightarrow> [] | Some r \<Rightarrow> [r]), st')
     \<and> ps_reason st' = find_map (event_reason al) es"
proof (induction es arbitrary: st)
  case (Cons e es)
  obtain st1 where st1: "pin_step al e st = (event_reason al e, st1)" "ps_reason st1 = event_reason al e"
    using pin_step_free [OF Cons.prems] by blast
  show ?case
  proof (cases "event_reason al e")
    case None
    then show ?thesis using Cons.IH [of st1] st1 by (auto simp: is_pinned_def)
  next
    case (Some r)
    then show ?thesis using pin_run_pinned [of st1 al es] st1 by (auto simp: is_pinned_def)
  qed
qed (auto simp: is_pinned_def)

text \<open>
  A session is pinned by the first thing that asks for it, and for good. Over any sequence of
  statements, notifications and tenant changes of a fresh session, the reason at the end is the reason
  of the first event that has one, and exactly that one event reports a pin, so the pin counter goes up
  at most once per session.
\<close>

theorem pin_first_reason:
  "fst (pin_run al es pin_new) = (case find_map (event_reason al) es of None \<Rightarrow> [] | Some r \<Rightarrow> [r]) \<and>
   ps_reason (snd (pin_run al es pin_new)) = find_map (event_reason al) es"
  using pin_run_free [of pin_new al es] by (auto simp: is_pinned_def pin_new_def)

end
