(* ===== verification/Params.thy ===== *)
theory Params
  imports Pin Ordered_Map
begin

text \<open>
  \<^verbatim>\<open>crates/pgprox-pool/src/params.rs\<close>: the session parameters the proxy records from client SQL and
  issues again on whichever connection the session lands on. The properties are the two sides of its
  contract: a \<open>SET\<close> is pinned on or recorded, and replaying makes the connection match the session.
\<close>

type_synonym session_params = "(string \<times> string) list"

datatype param_change = Recorded string | Cleared string | ClearedAll | TransactionScoped

datatype parsed_set = PSet string string | PReset string | ResetAll | Local

subsection \<open>Names and values\<close>

definition normalise :: "string \<Rightarrow> string" where
  "normalise name = to_ascii_lowercase (trim name)"

definition allowed :: "string \<Rightarrow> replayable \<Rightarrow> bool" where
  "allowed name allowlist = replayable_contains allowlist name"

definition is_bare :: "string \<Rightarrow> bool" where
  "is_bare value =
     (value \<noteq> [] \<and>
      list_all (\<lambda>c. is_ascii_alphanumeric c \<or> c = CHR ''_'' \<or> c = CHR ''.'' \<or> c = CHR ''-'') value)"

definition quote :: "string \<Rightarrow> string" where
  "quote value =
     (if is_bare value then value
      else CHR 0x27 # concat (map (\<lambda>c. if c = CHR 0x27 then [c, c] else [c]) value) @ [CHR 0x27])"

definition unquote :: "string \<Rightarrow> string" where
  "unquote value =
     (if 2 \<le> length value \<and> hd value = CHR 0x27 \<and> last value = CHR 0x27 then tl (butlast value)
      else if 2 \<le> length value \<and> hd value = CHR 0x22 \<and> last value = CHR 0x22 then tl (butlast value)
      else value)"

subsection \<open>Reading a statement\<close>

text \<open>The parameter, its operator and its value, once the scope word has been read.\<close>

definition parse_assignment :: "string \<Rightarrow> parsed_set option" where
  "parse_assignment lexer =
     (case lexer_pull lexer of
        (Some (Word name), lexer) \<Rightarrow>
          if eq_ignore_ascii_case name ''transaction'' \<or> eq_ignore_ascii_case name ''constraints'' then Some Local
          else
            (case lexer_pull lexer of (token, probe) \<Rightarrow>
               let matched_operator =
                     (case token of
                        Some (Punct c) \<Rightarrow> c = CHR ''=''
                      | Some (Word w) \<Rightarrow> eq_ignore_ascii_case w ''to''
                      | _ \<Rightarrow> False)
               in if \<not> matched_operator then None
                  else Some (PSet name (unquote (trim (skip_trivia probe)))))
      | _ \<Rightarrow> None)"

definition parse_set :: "string \<Rightarrow> parsed_set option" where
  "parse_set sql =
     (case lexer_pull sql of
        (Some (Word verb), lexer) \<Rightarrow>
          if eq_ignore_ascii_case verb ''discard'' then
            (case lexer_pull lexer of
               (Some (Word what), _) \<Rightarrow> if eq_ignore_ascii_case what ''all'' then Some ResetAll else None
             | _ \<Rightarrow> None)
          else if eq_ignore_ascii_case verb ''reset'' then
            (case lexer_pull lexer of
               (Some (Word name), _) \<Rightarrow>
                 if eq_ignore_ascii_case name ''all'' then Some ResetAll else Some (PReset name)
             | _ \<Rightarrow> None)
          else if \<not> eq_ignore_ascii_case verb ''set'' then None
          else
            (case lexer_pull lexer of
               (Some (Word scope), probe) \<Rightarrow>
                 if eq_ignore_ascii_case scope ''local'' then Some Local
                 else if eq_ignore_ascii_case scope ''session'' then parse_assignment probe
                 else parse_assignment lexer
             | _ \<Rightarrow> parse_assignment lexer)
      | _ \<Rightarrow> None)"

subsection \<open>The recorded parameters\<close>

definition params_new :: session_params where
  "params_new = []"

definition params_get :: "session_params \<Rightarrow> string \<Rightarrow> string option" where
  "params_get ps name = bt_get ps (normalise name)"

definition params_record :: "string \<Rightarrow> string \<Rightarrow> session_params \<Rightarrow> session_params" where
  "params_record name value ps = bt_put (normalise name) value ps"

definition params_clear :: "string \<Rightarrow> session_params \<Rightarrow> session_params" where
  "params_clear name ps = bt_del (normalise name) ps"

definition params_clear_all :: "session_params \<Rightarrow> session_params" where
  "params_clear_all ps = []"

definition observe_one :: "string \<Rightarrow> replayable \<Rightarrow> session_params \<Rightarrow> param_change option \<times> session_params" where
  "observe_one sql allowlist ps =
     (case parse_set sql of
        None \<Rightarrow> (None, ps)
      | Some Local \<Rightarrow> (Some TransactionScoped, ps)
      | Some ResetAll \<Rightarrow> (Some ClearedAll, params_clear_all ps)
      | Some (PReset name) \<Rightarrow>
          (let name = normalise name
           in if \<not> allowed name allowlist then (None, ps) else (Some (Cleared name), params_clear name ps))
      | Some (PSet name value) \<Rightarrow>
          (let name = normalise name
           in if \<not> allowed name allowlist then (None, ps)
              else (Some (Recorded name), params_record name value ps)))"

fun observe_each :: "string list \<Rightarrow> replayable \<Rightarrow> param_change option \<Rightarrow> session_params \<Rightarrow> param_change option \<times> session_params" where
  "observe_each [] allowlist latest ps = (latest, ps)"
| "observe_each (st # sts) allowlist latest ps =
     (case observe_one st allowlist ps of
        (change, ps') \<Rightarrow> observe_each sts allowlist (case change of None \<Rightarrow> latest | Some _ \<Rightarrow> change) ps')"

definition params_observe_statement :: "string \<Rightarrow> replayable \<Rightarrow> session_params \<Rightarrow> param_change option \<times> session_params" where
  "params_observe_statement sql allowlist ps = observe_each (statements sql) allowlist None ps"

definition replay_onto :: "session_params \<Rightarrow> session_params \<Rightarrow> string list" where
  "replay_onto ps current =
     map (\<lambda>(name, value). ''SET '' @ name @ '' = '' @ quote value)
       (filter (\<lambda>(name, value). bt_get current name \<noteq> Some value) ps) @
     map (\<lambda>name. ''RESET '' @ name) (filter (\<lambda>name. bt_get ps name = None) (map fst current))"

subsection \<open>Replay text reads back\<close>

text \<open>The shape of the names on the shipped list.\<close>

definition good_name :: "string \<Rightarrow> bool" where
  "good_name n =
     (plain_word n \<and> to_ascii_lowercase n = n \<and>
      n \<notin> {''local'', ''session'', ''transaction'', ''constraints'', ''all''})"

lemma replayable_names_good: "\<forall>n \<in> set replayable_names. good_name n"
  by (simp add: replayable_names_def good_name_def plain_word_def ascii_eval)

lemma good_name_eq:
  "good_name n \<Longrightarrow> w = to_ascii_lowercase w \<Longrightarrow>
   w \<in> {''local'', ''session'', ''transaction'', ''constraints'', ''all''} \<Longrightarrow> \<not> eq_ignore_ascii_case n w"
  by (auto simp: good_name_def eq_ignore_ascii_case_def)

lemma plain_word_solid: "plain_word n \<Longrightarrow> n \<noteq> [] \<and> is_solid (hd n) \<and> is_solid (last n)"
  unfolding plain_word_def list_all_iff using word_byte_facts(4) hd_in_set [of n] last_in_set [of n]
  by (cases "n = []") auto

lemma normalise_good: "good_name n \<Longrightarrow> normalise n = n"
  using plain_word_solid [of n] by (simp add: good_name_def normalise_def trim_solid)

lemma lexer_pull_eq: "lexer_next s = Some (t, r) \<Longrightarrow> lexer_pull s = (Some t, r)"
  by (simp add: lexer_pull_def)

lemma lexer_pull_space: "lexer_pull (CHR '' '' # s) = lexer_pull s"
  by (simp add: lexer_pull_def lexer_next_space)

lemma not_word_char: "\<not> is_word_char CHR '' ''" "\<not> is_word_char CHR ''=''"
  by (simp_all add: is_word_char_def ascii_eval)

lemma lexer_pull_word: "plain_word w \<Longrightarrow> lexer_pull (w @ CHR '' '' # rest) = (Some (Word w), CHR '' '' # rest)"
  using lexer_next_word [of w "CHR '' '' # rest"] by (simp add: lexer_pull_eq not_word_char)

lemma lexer_pull_equals: "lexer_pull (CHR ''='' # rest) = (Some (Punct CHR ''=''), rest)"
proof -
  have "skip_trivia (CHR ''='' # rest) = CHR ''='' # rest"
    by (rule skip_trivia_here) (simp_all add: ascii_eval)
  then show ?thesis by (simp add: lexer_pull_def lexer_next_def next_of_def not_word_char)
qed

text \<open>The values that survive: no quote in them, and not the start of a line comment.\<close>

definition good_value :: "string \<Rightarrow> bool" where
  "good_value v = (CHR 0x27 \<notin> set v \<and> \<not> starts_with v ''--'')"

lemma bare_byte:
  assumes "is_ascii_alphanumeric c \<or> c = CHR ''_'' \<or> c = CHR ''.'' \<or> c = CHR ''-''"
  shows "is_ascii c" "\<not> is_ascii_whitespace c" "is_solid c" "c \<noteq> CHR ''/''" "c \<noteq> CHR 0x27" "c \<noteq> CHR 0x22"
  using assms by (auto simp: ascii_eval is_solid_def)

lemma quote_value:
  assumes "good_value v"
  shows "unquote (trim (skip_trivia (CHR '' '' # quote v))) = v"
proof (cases "is_bare v")
  case True
  then obtain c cs where v: "v = c # cs" by (cases v) (auto simp: is_bare_def)
  have all: "\<And>x. x \<in> set v \<Longrightarrow> is_ascii_alphanumeric x \<or> x = CHR ''_'' \<or> x = CHR ''.'' \<or> x = CHR ''-''"
    using True by (auto simp: is_bare_def list_all_iff)
  note c = bare_byte [OF all [of c]]
  have "skip_trivia v = v"
    unfolding v by (rule skip_trivia_here) (use c assms in \<open>auto simp: v good_value_def split: list.splits\<close>)
  moreover have "trim v = v"
    by (rule trim_solid) (use bare_byte(3) [OF all [OF last_in_set]] c v in auto)
  moreover have "unquote v = v" using c(5,6) by (simp add: unquote_def v)
  ultimately show ?thesis using True by (simp add: quote_def skip_trivia_space)
next
  case False
  have "concat (map (\<lambda>c. if c = CHR 0x27 then [c, c] else [c]) v) = v"
    if "CHR 0x27 \<notin> set v" for v :: string
    using that by (induction v) auto
  then have q: "quote v = CHR 0x27 # v @ [CHR 0x27]" 
    using False assms by (simp add: quote_def good_value_def)
  have "skip_trivia (quote v) = quote v" unfolding q by (rule skip_trivia_here) (simp_all add: ascii_eval)
  moreover have "trim (quote v) = quote v" unfolding q by (rule trim_solid) (simp_all add: ascii_eval is_solid_def)
  moreover have "unquote (quote v) = v" by (simp add: unquote_def q butlast_append)
  ultimately show ?thesis by (simp add: skip_trivia_space)
qed

lemma eq_case_words:
  "\<not> eq_ignore_ascii_case ''SET'' ''discard''" "\<not> eq_ignore_ascii_case ''SET'' ''reset''"
  "eq_ignore_ascii_case ''SET'' ''set''" "\<not> eq_ignore_ascii_case ''RESET'' ''discard''"
  "eq_ignore_ascii_case ''RESET'' ''reset''" "plain_word ''SET''" "plain_word ''RESET''"
  by (simp_all add: ascii_eval plain_word_def)

lemma parse_set_raw:
  assumes "good_name n"
  shows "parse_set (''SET '' @ n @ '' = '' @ t) = Some (PSet n (unquote (trim (skip_trivia t))))"
proof -
  have "lexer_pull (''SET'' @ '' '' @ n @ '' = '' @ t) = (Some (Word ''SET''), '' '' @ n @ '' = '' @ t)"
    using lexer_pull_word [OF eq_case_words(6)] by simp
  moreover have n: "lexer_pull ('' '' @ n @ '' = '' @ t) = (Some (Word n), '' = '' @ t)"
    using lexer_pull_word [of n "''= '' @ t"] assms(1) by (simp add: lexer_pull_space good_name_def)
  moreover have "lexer_pull ('' = '' @ t) = (Some (Punct CHR ''=''), '' '' @ t)"
    by (simp add: lexer_pull_space lexer_pull_equals)
  moreover have "\<not> eq_ignore_ascii_case n ''local''" "\<not> eq_ignore_ascii_case n ''session''"
    "\<not> eq_ignore_ascii_case n ''transaction''" "\<not> eq_ignore_ascii_case n ''constraints''"
    by (rule good_name_eq [OF assms(1)]; simp add: ascii_eval)+
  ultimately show ?thesis by (simp add: parse_set_def parse_assignment_def eq_case_words skip_trivia_space)
qed

lemma parse_set_text:
  assumes "good_name n" "good_value v"
  shows "parse_set (''SET '' @ n @ '' = '' @ quote v) = Some (PSet n v)"
  using parse_set_raw [OF assms(1)] quote_value [OF assms(2)] by (simp add: skip_trivia_space)

lemma parse_reset_text:
  assumes "good_name n"
  shows "parse_set (''RESET '' @ n) = Some (PReset n)"
proof -
  have "lexer_pull (''RESET'' @ '' '' @ n) = (Some (Word ''RESET''), '' '' @ n)"
    using lexer_pull_word [OF eq_case_words(7)] by simp
  moreover have "lexer_pull ('' '' @ n) = (Some (Word n), [])"
    using lexer_next_word [of n "[]"] assms(1) by (simp add: lexer_pull_space good_name_def lexer_pull_eq)
  moreover have "\<not> eq_ignore_ascii_case n ''all''"
    by (rule good_name_eq [OF assms(1)]; simp add: ascii_eval)
  ultimately show ?thesis by (simp add: parse_set_def eq_case_words)
qed

subsection \<open>Replay makes the connection match\<close>

definition good_params :: "replayable \<Rightarrow> session_params \<Rightarrow> bool" where
  "good_params al ps = (bt_wf ps \<and> list_all (\<lambda>(n, v). good_name n \<and> n \<in> set al \<and> good_value v) ps)"

text \<open>What a connection's parameters become when it runs the statements in turn.\<close>

definition run_params :: "replayable \<Rightarrow> string list \<Rightarrow> session_params \<Rightarrow> session_params" where
  "run_params al sts ps = foldl (\<lambda>ps st. snd (observe_one st al ps)) ps sts"

lemma run_params_append: "run_params al (xs @ ys) ps = run_params al ys (run_params al xs ps)"
  by (simp add: run_params_def)

lemma run_sets:
  assumes "list_all (\<lambda>(n, v). good_name n \<and> n \<in> set al \<and> good_value v) es"
  shows "run_params al (map (\<lambda>(name, value). ''SET '' @ name @ '' = '' @ quote value) es) ps =
         foldl (\<lambda>ps (n, v). bt_put n v ps) ps es"
  using assms
proof (induction es arbitrary: ps)
  case (Cons e es)
  obtain n v where e: "e = (n, v)" by (cases e)
  have "snd (observe_one (''SET '' @ n @ '' = '' @ quote v) al ps) = bt_put n v ps"
    using Cons.prems parse_set_text [of n v]
    by (simp add: e observe_one_def normalise_good allowed_def replayable_contains_def params_record_def)
  then show ?case using Cons by (simp add: e run_params_def)
qed (simp add: run_params_def)

lemma run_resets:
  assumes "list_all (\<lambda>n. good_name n \<and> n \<in> set al) ns"
  shows "run_params al (map (\<lambda>name. ''RESET '' @ name) ns) ps = foldl (\<lambda>ps n. bt_del n ps) ps ns"
  using assms
proof (induction ns arbitrary: ps)
  case (Cons n ns)
  have "snd (observe_one (''RESET '' @ n) al ps) = bt_del n ps"
    using Cons.prems parse_reset_text [of n]
    by (simp add: observe_one_def normalise_good allowed_def replayable_contains_def params_clear_def)
  then show ?case using Cons by (simp add: run_params_def)
qed (simp add: run_params_def)

lemma fold_puts:
  "bt_wf ps \<Longrightarrow> bt_wf (foldl (\<lambda>ps (n, v). bt_put n v ps) ps es)"
  "distinct (map fst es) \<Longrightarrow>
   bt_get (foldl (\<lambda>ps (n, v). bt_put n v ps) ps es) k = (case map_of es k of Some v \<Rightarrow> Some v | None \<Rightarrow> bt_get ps k)"
proof (induction es arbitrary: ps)
  case (Cons e es)
  {
    case 1
    then have "bt_wf (bt_put (fst e) (snd e) ps)" by (rule bt_wf_put)
    then show ?case using Cons.IH(1) by (cases e) simp
  next
    case 2
    then have "map_of es (fst e) = None" by (simp add: map_of_eq_None_iff)
    then show ?case using 2 Cons.IH(2) [of "bt_put (fst e) (snd e) ps"]
      by (cases e; cases "k = fst e") (simp_all add: bt.get_put split: option.split)
  }
qed auto

lemma fold_dels:
  "bt_wf ps \<Longrightarrow> bt_wf (foldl (\<lambda>ps n. bt_del n ps) ps ns)"
  "bt_get (foldl (\<lambda>ps n. bt_del n ps) ps ns) k = (if k \<in> set ns then None else bt_get ps k)"
  by (induction ns arbitrary: ps) (auto simp: bt.wf_del bt.get_del)



subsection \<open>A \<open>SET\<close> is pinned on or recorded\<close>

text \<open>The parameter a \<open>SET\<close> names, with what follows it.\<close>

definition set_target :: "string \<Rightarrow> (token \<times> string) option" where
  "set_target s =
     (case lexer_next s of
        Some (Word v, r) \<Rightarrow>
          if eq_ignore_ascii_case v ''set'' then
            (case lexer_next r of
               Some (Word w, r') \<Rightarrow> if eq_ignore_ascii_case w ''session'' then lexer_next r' else Some (Word w, r')
             | x \<Rightarrow> x)
          else None
      | _ \<Rightarrow> None)"

text \<open>
  The invariant of the word scan once the parameter has been read: its word stays in place, and only a
  dot can make it longer.
\<close>

definition dotted :: "string \<Rightarrow> string \<Rightarrow> bool" where
  "dotted n w = (w = n \<or> (\<exists>x. w = n @ CHR ''.'' # x))"

lemma dotted_refl [simp]: "dotted n n"
  by (simp add: dotted_def)

lemma dotted_dot [simp]: "dotted n w \<Longrightarrow> dotted n (w @ ''.'')"
  by (auto simp: dotted_def)

lemma dotted_more: "dotted n w \<Longrightarrow> w \<noteq> n \<Longrightarrow> dotted n (w @ x)"
  by (auto simp: dotted_def)

lemma dotted_neq: "dotted n w \<Longrightarrow> w @ x = n \<longleftrightarrow> w = n \<and> x = []"
  by (auto simp: dotted_def)

definition named :: "string list \<Rightarrow> string \<Rightarrow> string list list \<times> string list \<times> bool \<Rightarrow> bool" where
  "named pre n st =
     (case st of (stmts, words, joining) \<Rightarrow>
        \<exists>w ws. dotted n w \<and>
          (stmts = [] \<and> words = pre @ w # ws \<and> (joining \<and> ws = [] \<longrightarrow> w \<noteq> n) \<or>
           (\<exists>zs. stmts = (pre @ w # ws) # zs)))"

lemma namedI: "dotted n w \<Longrightarrow> joining \<and> ws = [] \<longrightarrow> w \<noteq> n \<Longrightarrow> named pre n ([], pre @ w # ws, joining)"
  by (auto simp: named_def)

lemma namedI': "dotted n w \<Longrightarrow> named pre n ((pre @ w # ws) # zs, words, joining)"
  by (auto simp: named_def)

lemma named_step:
  assumes "named pre n st"
  shows "named pre n (words_step True st t)"
proof -
  obtain stmts words j where st: "st = (stmts, words, j)" by (cases st) auto
  obtain w ws where w: "dotted n w"
    "stmts = [] \<and> words = pre @ w # ws \<and> (j \<and> ws = [] \<longrightarrow> w \<noteq> n) \<or> (\<exists>zs. stmts = (pre @ w # ws) # zs)"
    using assms by (auto simp: named_def st)
  show ?thesis
  proof (cases "\<exists>zs. stmts = (pre @ w # ws) # zs")
    case True
    then show ?thesis using w(1) by (cases t) (auto simp: st intro!: namedI')
  next
    case False
    with w(2) have s: "stmts = []" "words = pre @ w # ws" "j \<and> ws = [] \<longrightarrow> w \<noteq> n" by auto
    have ne: "words \<noteq> []" by (simp add: s(2))
    have keep: "named pre n ([], words, False)" "named pre n ([words], [], False)"
      using namedI [OF w(1), of False ws pre] namedI' [OF w(1), of pre ws "[]"] s(2) by simp_all
    have add: "named pre n ([], words @ [x], False)" for x
      using namedI [OF w(1), of False "ws @ [x]" pre] s(2) by simp
    have join: "named pre n ([], butlast words @ [last words @ x], False)" if j for x
    proof (cases "ws = []")
      case True
      then have "dotted n (w @ x)" using s(3) that w(1) by (intro dotted_more) simp_all
      then show ?thesis using namedI [of n "w @ x" False "[]" pre] True by (simp add: s(2))
    next
      case False
      then show ?thesis using namedI [OF w(1), of False "butlast ws @ [last ws @ x]" pre]
        by (simp add: s(2) butlast_append)
    qed
    have dot: "named pre n ([], butlast words @ [last words @ ''.''], True)"
    proof (cases "ws = []")
      case True
      then show ?thesis using namedI [OF dotted_dot [OF w(1)], of True "[]" pre] dotted_neq [OF w(1), of "''.''"]
        by (simp add: s(2))
    next
      case False
      then show ?thesis using namedI [OF w(1), of True "butlast ws @ [last ws @ ''.'']" pre]
        by (simp add: s(2) butlast_append)
    qed
    show ?thesis using keep add join dot ne by (cases t) (simp_all add: st s(1))
  qed
qed

lemma named_fold: "named pre n st \<Longrightarrow> named pre n (foldl (words_step True) st ts)"
  by (induction ts arbitrary: st) (simp_all add: named_step)

lemma named_end:
  assumes "named pre n st"
  shows "\<exists>w ws zs. dotted n w \<and> words_end st = (pre @ w # ws) # zs"
proof -
  obtain stmts words j where st: "st = (stmts, words, j)" by (cases st) auto
  obtain w ws where w: "dotted n w"
    "stmts = [] \<and> words = pre @ w # ws \<and> (j \<and> ws = [] \<longrightarrow> w \<noteq> n) \<or> (\<exists>zs. stmts = (pre @ w # ws) # zs)"
    using assms by (auto simp: named_def st)
  then show ?thesis by (intro exI [of _ w] exI [of _ ws]) (auto simp: st words_end_def)
qed

lemma pin_words_target:
  assumes "set_target s = Some (Word name, r)"
  obtains w ws where "dotted (to_ascii_lowercase name) w"
    "pin_words_of s = ''set'' # w # ws \<and> \<not> eq_ignore_ascii_case name ''session'' \<or> pin_words_of s = ''set'' # ''session'' # w # ws"
proof -
  let ?n = "to_ascii_lowercase name"
  obtain v r1 where v: "lexer_next s = Some (Word v, r1)" "to_ascii_lowercase v = ''set''"
    using assms by (auto simp: set_target_def eq_ignore_ascii_case_def ascii_eval split: option.splits token.splits if_splits)
  have t1: "tokens s = Word v # tokens r1" using v(1) by (subst tokens.simps) simp
  consider (direct) "lexer_next r1 = Some (Word name, r)" "\<not> eq_ignore_ascii_case name ''session''"
    | (session) x r2 where "lexer_next r1 = Some (Word x, r2)" "to_ascii_lowercase x = ''session''"
        "lexer_next r2 = Some (Word name, r)"
    using assms v(1) by (auto simp: set_target_def eq_ignore_ascii_case_def ascii_eval split: option.splits token.splits if_splits)
  then show ?thesis
  proof cases
    case direct
    then have "tokens r1 = Word name # tokens r" by (subst tokens.simps) simp
    then have "statement_words s True = words_end (foldl (words_step True) ([], [''set'', ?n], False) (tokens r))"
      by (simp add: statement_words_def t1 v(2))
    moreover have "named [''set''] ?n (foldl (words_step True) ([], [''set'', ?n], False) (tokens r))"
      by (rule named_fold) (simp add: named_def)
    ultimately obtain w ws zs where "dotted ?n w" "statement_words s True = (''set'' # w # ws) # zs"
      using named_end by fastforce
    then show ?thesis using that [of w ws] direct(2) by (simp add: pin_words_of_def)
  next
    case session
    have "tokens r1 = Word x # tokens r2" using session(1) by (subst tokens.simps) simp
    moreover have "tokens r2 = Word name # tokens r" using session(3) by (subst tokens.simps) simp
    ultimately have "statement_words s True = words_end (foldl (words_step True) ([], [''set'', ''session'', ?n], False) (tokens r))"
      by (simp add: statement_words_def t1 v(2) session(2))
    moreover have "named [''set'', ''session''] ?n (foldl (words_step True) ([], [''set'', ''session'', ?n], False) (tokens r))"
      by (rule named_fold) (simp add: named_def)
    ultimately obtain w ws zs where "dotted ?n w" "statement_words s True = (''set'' # ''session'' # w # ws) # zs"
      using named_end by fastforce
    then show ?thesis using that [of w ws] by (simp add: pin_words_of_def)
  qed
qed

lemma word_trim:
  assumes "n \<noteq> []" "\<forall>c \<in> set n. is_word_char c \<and> is_ascii c"
  shows "trim n = n"
proof (rule trim_solid)
  have "is_solid c" if "c \<in> set n" for c
    using that assms(2) word_byte_facts(4) [of c] by (auto simp: is_word_char_def split: if_splits)
  then show "is_solid (hd n)" "is_solid (last n)" using assms(1) by simp_all
qed (rule assms(1))

definition ascii_list :: "replayable \<Rightarrow> bool" where
  "ascii_list al = list_all (list_all (\<lambda>c. is_ascii c \<and> c \<noteq> CHR ''.'')) al"

lemma not_dotted: "ascii_list al \<Longrightarrow> w \<in> set al \<Longrightarrow> dotted n w \<Longrightarrow> w = n"
  unfolding ascii_list_def dotted_def list_all_iff by (metis in_set_conv_decomp)

lemma set_target_chars:
  assumes "set_target s = Some (Word name, r)"
  shows "name \<noteq> [] \<and> (\<forall>c \<in> set name. is_word_char c)"
proof -
  have "\<exists>s'. lexer_next s' = Some (Word name, r)"
    using assms unfolding set_target_def by (auto split: option.splits token.splits if_splits) blast+
  then show ?thesis using lexer_next_word_chars by blast
qed

lemma set_target_parse:
  assumes "set_target s = Some (Word name, r)" "\<not> eq_ignore_ascii_case name ''local''"
  shows "\<exists>lexer. parse_set s = parse_assignment lexer \<and> lexer_next lexer = Some (Word name, r)"
proof -
  have no: "\<not> eq_ignore_ascii_case v ''discard'' \<and> \<not> eq_ignore_ascii_case v ''reset''"
    if "eq_ignore_ascii_case v ''set''" for v
    using that by (simp add: eq_ignore_ascii_case_def) (simp add: ascii_eval)
  have sl: "\<not> eq_ignore_ascii_case v ''local''" if "eq_ignore_ascii_case v ''session''" for v
    using that by (simp add: eq_ignore_ascii_case_def) (simp add: ascii_eval)
  obtain v r1 where v: "lexer_next s = Some (Word v, r1)" "eq_ignore_ascii_case v ''set''"
    using assms by (auto simp: set_target_def split: option.splits token.splits if_splits)
  then show ?thesis
    using assms no [OF v(2)] sl
    by (auto simp: set_target_def parse_set_def lexer_pull_def split: option.splits token.splits if_splits)
qed

lemma dotted_undotted: "dotted n w \<Longrightarrow> w = m \<Longrightarrow> CHR ''.'' \<notin> set m \<Longrightarrow> n = m"
  by (auto simp: dotted_def)

lemma lower_dot: "lower c = CHR ''.'' \<longleftrightarrow> c = CHR ''.''"
proof
  assume l: "lower c = CHR ''.''"
  show "c = CHR ''.''"
  proof (rule ccontr)
    assume "c \<noteq> CHR ''.''"
    with l have r: "65 \<le> (of_char c :: nat)" "of_char c \<le> (90 :: nat)"
      and e: "char_of (of_char c + 32 :: nat) = CHR ''.''"
      by (auto simp: lower_def split: if_splits)
    from arg_cong [OF e, of "of_char :: char \<Rightarrow> nat"]
    have "of_char (char_of (of_char c + 32 :: nat)) = (of_char CHR ''.'' :: nat)" .
    then have "(of_char c + 32) mod 256 = (46 :: nat)" by (simp add: take_bit_eq_mod)
    with r show False by simp
  qed
qed (simp add: ascii_eval)

lemma lower_word: "is_word_char c \<Longrightarrow> is_word_char (lower c)"
proof (cases "65 \<le> (of_char c :: nat) \<and> of_char c \<le> (90 :: nat)")
  case True
  then have "of_char (lower c) = (of_char c + 32 :: nat)" by (simp add: lower_def take_bit_eq_mod)
  then show ?thesis using True by (simp add: is_word_char_def is_ascii_alphanumeric_def is_ascii_alphabetic_def)
qed (auto simp: lower_def)

lemma set_free_name:
  assumes "set_target s = Some (Word name, r)" "\<not> eq_ignore_ascii_case name ''local''"
    and "statement_pin_reason s al = None"
  obtains w where "dotted (to_ascii_lowercase name) w"
    "w \<in> {''transaction'', ''constraints''} \<or> starts_with w ''pgprox.'' \<or> w \<in> set al"
proof -
  obtain w ws where w: "dotted (to_ascii_lowercase name) w"
    "pin_words_of s = ''set'' # w # ws \<and> \<not> eq_ignore_ascii_case name ''session'' \<or> pin_words_of s = ''set'' # ''session'' # w # ws"
    using pin_words_target [OF assms(1)] by metis
  have lw: "to_ascii_lowercase ''local'' = ''local''" "to_ascii_lowercase ''session'' = ''session''"
    by (simp_all add: ascii_eval)
  have n: "w \<noteq> ''local''" "\<not> eq_ignore_ascii_case name ''session'' \<longrightarrow> w \<noteq> ''session''"
    using dotted_undotted [OF w(1), of "''local''"] dotted_undotted [OF w(1), of "''session''"] assms(2) lw
    by (auto simp: eq_ignore_ascii_case_def)
  have "set_pin_reason s (pin_words_of s) al = None"
    using assms(3) w(2) by (auto simp: statement_pin_reason_def Let_def split: if_splits)
  then have "set_name_reason s (w # ws) al = None"
    using w(2) n by (auto simp: set_pin_reason_def Let_def split: if_splits)
  then have "w \<in> {''transaction'', ''constraints''} \<or> starts_with w ''pgprox.'' \<or> w \<in> set al"
    by (auto simp: set_name_reason_def replayable_contains_def simp del: starts_with_Cons split: if_splits)
  with w(1) show ?thesis using that by blast
qed

lemma lower_undotted:
  assumes "\<forall>c \<in> set name. is_word_char c"
  shows "CHR ''.'' \<notin> set (to_ascii_lowercase name)"
proof
  assume "CHR ''.'' \<in> set (to_ascii_lowercase name)"
  then obtain c where "c \<in> set name" "lower c = CHR ''.''" unfolding to_ascii_lowercase_def set_map by (elim imageE) simp
  then have "CHR ''.'' \<in> set name" unfolding lower_dot by simp
  moreover have "\<not> is_word_char CHR ''.''" by (simp add: is_word_char_def ascii_eval)
  ultimately show False using assms by blast
qed

lemma not_own_setting:
  assumes "dotted n w" "CHR ''.'' \<notin> set n" "n \<noteq> ''pgprox''"
  shows "\<not> starts_with w ''pgprox.''"
proof
  assume "starts_with w ''pgprox.''"
  then obtain y where "w = ''pgprox.'' @ y" using starts_with_conv by blast
  then have y: "w = ''pgprox'' @ CHR ''.'' # y" by simp
  then have "CHR ''.'' \<in> set w" by simp
  then have "w \<noteq> n" using assms(2) by metis
  then obtain x where "w = n @ CHR ''.'' # x" using assms(1) by (auto simp: dotted_def)
  then have "split_once CHR ''.'' w = Some (n, x)" using assms(2) by (simp add: split_once_append)
  moreover have "split_once CHR ''.'' w = Some (''pgprox'', y)" unfolding y by (rule split_once_append) simp
  ultimately show False using assms(3) by simp
qed

text \<open>
  C27. A \<open>SET\<close> is never lost. Take any statement that sets a parameter by a bare name, for the session,
  with an operator after the name; not a transaction-scoped form and not a setting of the proxy itself.
  Then either it pins the session or its value is recorded for replay under the parameter's own name,
  whatever the rest of the statement holds.
\<close>

theorem set_pinned_or_recorded:
  assumes "set_target s = Some (Word name, r)"
    and "\<not> eq_ignore_ascii_case name ''local''" "\<not> eq_ignore_ascii_case name ''transaction''"
    and "\<not> eq_ignore_ascii_case name ''constraints''" "to_ascii_lowercase name \<noteq> ''pgprox''"
    and "lexer_next r = Some (Punct CHR ''='', rest) \<or>
         (\<exists>w. lexer_next r = Some (Word w, rest) \<and> eq_ignore_ascii_case w ''to'')"
    and "ascii_list al"
  shows "statement_pin_reason s al \<noteq> None \<or>
    observe_one s al ps =
      (Some (Recorded (to_ascii_lowercase name)),
       bt_put (to_ascii_lowercase name) (unquote (trim (skip_trivia rest))) ps)"
proof (cases "statement_pin_reason s al = None")
  case True
  let ?n = "to_ascii_lowercase name"
  from True obtain w where w: "dotted ?n w"
    "w \<in> {''transaction'', ''constraints''} \<or> starts_with w ''pgprox.'' \<or> w \<in> set al"
    using set_free_name [OF assms(1,2)] by metis
  have chars: "name \<noteq> []" "\<forall>c \<in> set name. is_word_char c" using set_target_chars [OF assms(1)] by simp_all
  note nd = lower_undotted [OF chars(2)]
  have "to_ascii_lowercase ''transaction'' = ''transaction''" "to_ascii_lowercase ''constraints'' = ''constraints''"
    by (simp_all add: ascii_eval)
  then have "w \<notin> {''transaction'', ''constraints''}"
    using assms(3,4) dotted_undotted [OF w(1), of "''transaction''"] dotted_undotted [OF w(1), of "''constraints''"]
    by (auto simp: eq_ignore_ascii_case_def)
  moreover have "\<not> starts_with w ''pgprox.''" using not_own_setting [OF w(1) nd assms(5)] .
  ultimately have al: "?n \<in> set al" using w not_dotted [OF assms(7), of w ?n] by auto
  then have "\<forall>c \<in> set ?n. is_ascii c" using assms(7) unfolding ascii_list_def list_all_iff by blast
  then have "\<forall>c \<in> set name. is_ascii c" by (simp add: to_ascii_lowercase_def)
  then have n: "normalise name = ?n" using chars word_trim [of name] by (simp add: normalise_def)
  have "\<forall>c \<in> set ?n. is_word_char c \<and> is_ascii c"
    using chars(2) \<open>\<forall>c \<in> set name. is_ascii c\<close> lower_word by (simp add: to_ascii_lowercase_def)
  then have nn: "normalise ?n = ?n"
    using word_trim [of ?n] chars(1) by (simp add: normalise_def) (simp add: to_ascii_lowercase_def)
  obtain lexer where "parse_set s = parse_assignment lexer" "lexer_next lexer = Some (Word name, r)"
    using set_target_parse [OF assms(1,2)] by blast
  then have "parse_set s = Some (PSet name (unquote (trim (skip_trivia rest))))"
    using assms(6) by (elim disjE exE conjE) (simp_all add: parse_assignment_def lexer_pull_def assms(3,4))
  then show ?thesis
    using al n nn by (simp add: observe_one_def Let_def allowed_def replayable_contains_def params_record_def)
qed simp

theorem set_pinned_or_recorded_witness:
  "(\<exists>reason. statement_pin_reason ''SET timezone = UTC'' replayable_names = Some reason) \<or>
   observe_one ''SET timezone = UTC'' replayable_names [] =
     (Some (Recorded (to_ascii_lowercase ''timezone'')),
      bt_put (to_ascii_lowercase ''timezone'') (unquote (trim (skip_trivia '' UTC''))) [])"
proof (fold not_None_eq, rule set_pinned_or_recorded [where name = "''timezone''" and r = "'' = UTC''"])
  have w: "plain_word ''timezone''" by (simp add: plain_word_def ascii_eval)
  have "lexer_next ''SET timezone = UTC'' = Some (Word ''SET'', '' timezone = UTC'')"
    using lexer_next_word [OF eq_case_words(6), of "'' timezone = UTC''"] by (simp add: not_word_char)
  moreover have "lexer_next '' timezone = UTC'' = Some (Word ''timezone'', '' = UTC'')"
    using lexer_next_word [OF w, of "'' = UTC''"] by (simp add: not_word_char lexer_next_space)
  moreover have "\<not> eq_ignore_ascii_case ''timezone'' ''session''" by (simp add: ascii_eval)
  ultimately show "set_target ''SET timezone = UTC'' = Some (Word ''timezone'', '' = UTC'')"
    by (simp add: set_target_def eq_case_words)
  have "skip_trivia ''= UTC'' = ''= UTC''" by (rule skip_trivia_here) (simp_all add: ascii_eval)
  then show "lexer_next '' = UTC'' = Some (Punct CHR ''='', '' UTC'') \<or>
      (\<exists>w. lexer_next '' = UTC'' = Some (Word w, '' UTC'') \<and> eq_ignore_ascii_case w ''to'')"
    by (simp add: lexer_next_def next_of_def not_word_char skip_trivia_space)
qed (simp_all add: ascii_eval ascii_list_def replayable_names_def)

subsection \<open>Where replay falls short\<close>

text \<open>What the documentation of \<open>quote\<close> calls a bare identifier and a plain number.\<close>

definition sql_identifier :: "string \<Rightarrow> bool" where
  "sql_identifier v =
     (case v of [] \<Rightarrow> False
      | c # cs \<Rightarrow> (is_ascii_alphabetic c \<or> c = CHR ''_'') \<and> list_all (\<lambda>c. is_ascii_alphanumeric c \<or> c = CHR ''_'') cs)"

definition sql_number :: "string \<Rightarrow> bool" where
  "sql_number v = (v \<noteq> [] \<and> list_all (\<lambda>c. is_ascii_digit c \<or> c = CHR ''.'') (if hd v = CHR ''-'' then tl v else v))"

lemma replay_raw:
  assumes "n \<in> set replayable_names" "t \<noteq> []" "is_solid (hd t)" "is_solid (last t)"
    and "hd t \<noteq> CHR ''/''" "hd t \<noteq> CHR ''-''"
  shows "replay_onto (snd (observe_one (''SET '' @ n @ '' = '' @ t) replayable_names [])) [] =
    [''SET '' @ n @ '' = '' @ quote (unquote t)]"
proof -
  have "skip_trivia t = t"
    using assms(2,3,5,6) skip_trivia_here [of "hd t" "tl t"] by (simp add: is_solid_def)
  moreover have "trim t = t" using assms(2,3,4) by (rule trim_solid)
  moreover have n: "good_name n" using assms(1) replayable_names_good by blast
  ultimately have "parse_set (''SET '' @ n @ '' = '' @ t) = Some (PSet n (unquote t))" using parse_set_raw [of n t] by simp
  then show ?thesis
    using assms(1) normalise_good [OF n]
    by (simp add: observe_one_def Let_def allowed_def replayable_contains_def params_record_def replay_onto_def)
qed

text \<open>
  C32. The replay of three ordinary settings does not say what the client said. The value of
  \<open>SET statement_timeout = '5s'\<close> is issued again without its quotes though it is neither an identifier
  nor a number. The doubled quote of \<open>SET application_name = 'it''s'\<close> is recorded doubled and doubled
  once more on replay. The two schemas of \<open>SET search_path = a, b\<close> become one literal.
\<close>

theorem replay_gaps:
  "replay_onto (snd (observe_one (''SET '' @ ''statement_timeout'' @ '' = '' @ [CHR 0x27] @ ''5s'' @ [CHR 0x27]) replayable_names [])) [] =
     [''SET '' @ ''statement_timeout'' @ '' = '' @ ''5s''] \<and>
   \<not> sql_identifier ''5s'' \<and> \<not> sql_number ''5s'' \<and>
   replay_onto (snd (observe_one (''SET '' @ ''application_name'' @ '' = '' @ [CHR 0x27] @ ''it'' @ [CHR 0x27, CHR 0x27] @ ''s'' @ [CHR 0x27]) replayable_names [])) [] =
     [''SET '' @ ''application_name'' @ '' = '' @ [CHR 0x27] @ ''it'' @ [CHR 0x27, CHR 0x27, CHR 0x27, CHR 0x27] @ ''s'' @ [CHR 0x27]] \<and>
   replay_onto (snd (observe_one (''SET '' @ ''search_path'' @ '' = '' @ ''a, b'') replayable_names [])) [] =
     [''SET '' @ ''search_path'' @ '' = '' @ [CHR 0x27] @ ''a, b'' @ [CHR 0x27]]"
proof -
  have names: "''statement_timeout'' \<in> set replayable_names" "''application_name'' \<in> set replayable_names"
    "''search_path'' \<in> set replayable_names"
    by (simp_all add: replayable_names_def)
  have "quote (unquote ([CHR 0x27] @ ''5s'' @ [CHR 0x27])) = ''5s''"
    "quote (unquote ([CHR 0x27] @ ''it'' @ [CHR 0x27, CHR 0x27] @ ''s'' @ [CHR 0x27])) =
       [CHR 0x27] @ ''it'' @ [CHR 0x27, CHR 0x27, CHR 0x27, CHR 0x27] @ ''s'' @ [CHR 0x27]"
    "quote (unquote ''a, b'') = [CHR 0x27] @ ''a, b'' @ [CHR 0x27]"
    by (simp_all add: unquote_def quote_def is_bare_def ascii_eval)
  moreover have "is_solid CHR 0x27" "is_solid CHR ''a''" "is_solid CHR ''b''" by (simp_all add: is_solid_def ascii_eval)
  moreover have "\<not> sql_identifier ''5s''" "\<not> sql_number ''5s''"
    by (simp_all add: sql_identifier_def sql_number_def ascii_eval)
  ultimately show ?thesis
    using replay_raw [OF names(1), of "[CHR 0x27] @ ''5s'' @ [CHR 0x27]"]
      replay_raw [OF names(2), of "[CHR 0x27] @ ''it'' @ [CHR 0x27, CHR 0x27] @ ''s'' @ [CHR 0x27]"]
      replay_raw [OF names(3), of "''a, b''"]
    by simp
qed

end
