(* ===== verification/Session_Relay.thy ===== *)
theory Session_Relay
  imports Router Messages Params
begin

text \<open>
  \<^verbatim>\<open>crates/pgprox-proto/src/session.rs\<close> and \<^verbatim>\<open>crates/pgprox-session/src/relay.rs\<close>: whether this moment is
  safe to give an upstream connection back, whether any moment is, and where a frame of the client goes.
  The properties read the state machine off its history: when exactly it releases, that a transaction
  stays where it began, and where the machine departs from its comments.
\<close>

subsection \<open>The protocol state\<close>

datatype copy_direction = CopyIn | CopyOut | CopyBoth

datatype hold_reason = HoldTransaction | HoldFailed | HoldSequence | HoldCopy copy_direction | HoldAuthenticating

record session_state =
  st_tx :: tx_status
  st_sequence :: bool
  st_copy :: "copy_direction option"
  st_ready :: bool

definition session_new :: session_state where
  "session_new = \<lparr>st_tx = Idle, st_sequence = False, st_copy = None, st_ready = False\<rparr>"

definition hold_reason_of :: "session_state \<Rightarrow> hold_reason option" where
  "hold_reason_of st =
     (if \<not> st_ready st then Some HoldAuthenticating
      else case st_tx st of
        InTransaction \<Rightarrow> Some HoldTransaction
      | Failed \<Rightarrow> Some HoldFailed
      | Idle \<Rightarrow>
          (case st_copy st of
             Some direction \<Rightarrow> Some (HoldCopy direction)
           | None \<Rightarrow> if st_sequence st then Some HoldSequence else None))"

definition is_releasable :: "session_state \<Rightarrow> bool" where
  "is_releasable st = (hold_reason_of st = None)"

definition on_frontend :: "frontend_message \<Rightarrow> session_state \<Rightarrow> session_state" where
  "on_frontend msg st =
     (if msg = CopyDone \<or> msg = CopyFail then (if st_copy st = Some CopyIn then st\<lparr>st_copy := None\<rparr> else st)
      else if msg = Sync then st
      else if starts_extended_sequence msg then st\<lparr>st_sequence := True\<rparr>
      else st)"

fun on_backend :: "backend_message \<Rightarrow> session_state \<Rightarrow> session_state" where
  "on_backend (ReadyForQuery status) st = \<lparr>st_tx = status, st_sequence = False, st_copy = None, st_ready = True\<rparr>"
| "on_backend CopyInResponse st = st\<lparr>st_copy := Some CopyIn\<rparr>"
| "on_backend CopyOutResponse st = st\<lparr>st_copy := Some CopyOut\<rparr>"
| "on_backend CopyBothResponse st = st\<lparr>st_copy := Some CopyBoth\<rparr>"
| "on_backend ServerCopyDone st = st\<lparr>st_copy := None\<rparr>"
| "on_backend _ st = st"

subsection \<open>The relay\<close>

datatype client_action = Send route_target bool | Answer routed | CloseSession

record client_outcome =
  co_action :: client_action
  co_pinned :: "pin_reason option"

record server_outcome =
  so_release :: bool
  so_pinned :: "pin_reason option"

record relay =
  rl_session :: session_state
  rl_pin :: pin_state
  rl_router :: session_router
  rl_held :: "route_target option"

definition relay_init :: relay where
  "relay_init = \<lparr>rl_session = session_new, rl_pin = pin_new, rl_router = router_new, rl_held = None\<rparr>"

definition relay_record_write :: "lsn \<Rightarrow> relay \<Rightarrow> relay" where
  "relay_record_write l r = r\<lparr>rl_router := record_write l (rl_router r)\<rparr>"

definition relay_acquired :: "route_target \<Rightarrow> relay \<Rightarrow> relay" where
  "relay_acquired target r = r\<lparr>rl_held := Some target\<rparr>"

definition relay_released :: "relay \<Rightarrow> relay" where
  "relay_released r = r\<lparr>rl_held := None\<rparr>"

text \<open>The loop over the settings: the pin state, the parameters and whether a setting pinned.\<close>

fun settings_loop :: "(string \<times> string) list \<Rightarrow> bool \<Rightarrow> pin_state \<Rightarrow> session_params \<Rightarrow> bool \<times> pin_state \<times> session_params" where
  "settings_loop [] pinned p params = (pinned, p, params)"
| "settings_loop ((name, v) # rest) pinned p params =
     (let params' = params_record name v params
      in if \<not> replayable_contains replayable_names (to_ascii_lowercase (trim name))
         then (case pin UnreplayableSet p of (took, p') \<Rightarrow> settings_loop rest (pinned \<or> took) p' params')
         else settings_loop rest pinned p params')"

definition on_startup_settings ::
  "(string \<times> string) list \<Rightarrow> session_params \<Rightarrow> relay \<Rightarrow> pin_reason option \<times> session_params \<times> relay" where
  "on_startup_settings settings params r =
     (case settings_loop settings False (rl_pin r) params of
        (pinned, p, params') \<Rightarrow>
          (if pinned then Some UnreplayableSet else None, params',
           r\<lparr>rl_pin := p, rl_router := if pinned then set_pinned True (rl_router r) else rl_router r\<rparr>))"

definition forward_without_routing :: "relay \<Rightarrow> client_outcome" where
  "forward_without_routing r =
     \<lparr>co_action = Send Primary (rl_held r \<noteq> Some Primary), co_pinned = None\<rparr>"

fun sql_of :: "frontend_message \<Rightarrow> string option" where
  "sql_of (Query sql) = Some sql"
| "sql_of (Parse _ sql) = Some sql"
| "sql_of _ = None"

definition on_client :: "frontend_message \<Rightarrow> replicas \<Rightarrow> instant \<Rightarrow> relay \<Rightarrow> client_outcome \<times> relay" where
  "on_client message reps now r =
     (if message = Terminate then (\<lparr>co_action = CloseSession, co_pinned = None\<rparr>, r)
      else
        let r = r\<lparr>rl_session := on_frontend message (rl_session r)\<rparr>
        in case sql_of message of
             None \<Rightarrow> (forward_without_routing r, r)
           | Some sql \<Rightarrow>
               (case pin_observe_statement sql replayable_names (rl_pin r) of (pinned, p) \<Rightarrow>
                  let router = (if pinned \<noteq> None then set_pinned True (rl_router r) else rl_router r);
                      in_transaction = (st_tx (rl_session r) = InTransaction)
                  in case route sql in_transaction reps now router of (answered, router') \<Rightarrow>
                       (case answered of
                          To target \<Rightarrow> \<lparr>co_action = Send target (rl_held r \<noteq> Some target), co_pinned = pinned\<rparr>
                        | _ \<Rightarrow> \<lparr>co_action = Answer answered, co_pinned = pinned\<rparr>,
                        r\<lparr>rl_pin := p, rl_router := router'\<rparr>)))"

definition on_server :: "backend_message \<Rightarrow> relay \<Rightarrow> server_outcome \<times> relay" where
  "on_server message r =
     (let session = on_backend message (rl_session r);
          (pinned, p) = (case message of
                           NotificationResponse _ _ _ \<Rightarrow> observe_notification (rl_pin r)
                         | _ \<Rightarrow> (None, rl_pin r));
          router = (if pinned \<noteq> None then set_pinned True (rl_router r) else rl_router r);
          router = (if message = ReadyForQuery Idle then end_transaction router else router)
      in (\<lparr>so_release = (rl_held r \<noteq> None \<and> is_releasable session \<and> \<not> is_pinned p), so_pinned = pinned\<rparr>,
          r\<lparr>rl_session := session, rl_pin := p, rl_router := router\<rparr>))"

subsection \<open>Histories\<close>

text \<open>What can happen to the relay of a session, one after the other.\<close>

datatype session_event =
    FromClient frontend_message replicas instant
  | FromServer backend_message
  | WasAcquired route_target
  | WasReleased
  | GotSettings "(string \<times> string) list" session_params
  | LearntPosition lsn

fun relay_do :: "session_event \<Rightarrow> relay \<Rightarrow> relay" where
  "relay_do (FromClient message reps now) r = snd (on_client message reps now r)"
| "relay_do (FromServer message) r = snd (on_server message r)"
| "relay_do (WasAcquired target) r = relay_acquired target r"
| "relay_do WasReleased r = relay_released r"
| "relay_do (GotSettings settings params) r = snd (snd (on_startup_settings settings params r))"
| "relay_do (LearntPosition l) r = relay_record_write l r"

definition relay_run :: "session_event list \<Rightarrow> relay" where
  "relay_run h = fold relay_do h relay_init"

lemma relay_run_simps [simp]:
  "relay_run [] = relay_init" "relay_run (h @ [e]) = relay_do e (relay_run h)"
  "relay_run (h @ e # h') = fold relay_do h' (relay_do e (relay_run h))"
  by (simp_all add: relay_run_def)

text \<open>What the release rule speaks of, read off a history.\<close>

fun pins :: "session_event \<Rightarrow> bool" where
  "pins (FromClient message _ _) = (case sql_of message of None \<Rightarrow> False | Some sql \<Rightarrow> pin_reason_of sql replayable_names \<noteq> None)"
| "pins (FromServer message) = (case message of NotificationResponse _ _ _ \<Rightarrow> True | _ \<Rightarrow> False)"
| "pins (GotSettings settings _) = list_ex (\<lambda>(name, _). \<not> replayable_contains replayable_names (normalise name)) settings"
| "pins _ = False"

fun ready_status :: "session_event \<Rightarrow> tx_status option" where
  "ready_status (FromServer (ReadyForQuery status)) = Some status"
| "ready_status _ = None"

fun holds_after :: "session_event \<Rightarrow> route_target option \<Rightarrow> route_target option" where
  "holds_after (WasAcquired target) _ = Some target"
| "holds_after WasReleased _ = None"
| "holds_after _ held = held"

fun extends :: "session_event \<Rightarrow> bool" where
  "extends (FromClient message _ _) = starts_extended_sequence message"
| "extends _ = False"

fun opens_copy :: "session_event \<Rightarrow> copy_direction option" where
  "opens_copy (FromServer CopyInResponse) = Some CopyIn"
| "opens_copy (FromServer CopyOutResponse) = Some CopyOut"
| "opens_copy (FromServer CopyBothResponse) = Some CopyBoth"
| "opens_copy _ = None"

fun closes_copy :: "copy_direction \<Rightarrow> session_event \<Rightarrow> bool" where
  "closes_copy d (FromServer ServerCopyDone) = True"
| "closes_copy d (FromClient message _ _) = (d = CopyIn \<and> (message = CopyDone \<or> message = CopyFail))"
| "closes_copy d _ = False"

text \<open>The events after the last \<open>ReadyForQuery\<close>, and its status.\<close>

definition since_ready :: "session_event list \<Rightarrow> session_event list" where
  "since_ready h = rev (takeWhile (\<lambda>e. ready_status e = None) (rev h))"

definition last_ready :: "session_event list \<Rightarrow> tx_status option" where
  "last_ready h = find_map ready_status (rev h)"

text \<open>A copy is open in \<open>h\<close> if some response opened it and nothing after it closed it or opened another.\<close>

definition copy_open :: "session_event list \<Rightarrow> bool" where
  "copy_open h = (\<exists>pre e post d. h = pre @ e # post \<and> opens_copy e = Some d \<and>
     list_all (\<lambda>f. \<not> closes_copy d f \<and> opens_copy f = None) post)"

definition holding :: "session_event list \<Rightarrow> bool" where
  "holding h = (fold holds_after h None \<noteq> None)"

definition may_release :: "session_event list \<Rightarrow> bool" where
  "may_release h = (holding h \<and> \<not> list_ex pins h \<and> last_ready h = Some Idle \<and>
     \<not> list_ex extends (since_ready h) \<and> \<not> copy_open (since_ready h))"

subsection \<open>The state is what the history says\<close>

lemma since_ready_simps [simp]:
  "since_ready [] = []" "since_ready (h @ [e]) = (if ready_status e = None then since_ready h @ [e] else [])"
  by (simp_all add: since_ready_def)

lemma last_ready_simps [simp]:
  "last_ready [] = None" "last_ready (h @ [e]) = (case ready_status e of None \<Rightarrow> last_ready h | Some s \<Rightarrow> Some s)"
  by (simp_all add: last_ready_def split: option.split)

lemma relay_held: "rl_held (relay_run h) = fold holds_after h None"
proof (induction h rule: rev_induct)
  case (snoc e h)
  then show ?case
    by (cases e) (auto simp: relay_acquired_def relay_released_def relay_record_write_def on_client_def on_server_def
        on_startup_settings_def Let_def split: option.split prod.split)
qed (simp add: relay_init_def)

lemma pin_reason_kept [simp]: "is_pinned (snd (pin reason p))"
  by (simp add: pin_def is_pinned_def)

lemma observe_statement_pins:
  "is_pinned (snd (pin_observe_statement sql al p)) = (is_pinned p \<or> pin_reason_of sql al \<noteq> None)"
  "fst (pin_observe_statement sql al p) = (if is_pinned p then None else pin_reason_of sql al)"
  by (auto simp: pin_observe_statement_def pin_def is_pinned_def split: option.split)

lemma observe_notification_pins:
  "observe_notification p = (if is_pinned p then (None, p) else (Some Listen, p\<lparr>ps_reason := Some Listen\<rparr>))"
  "is_pinned (p\<lparr>ps_reason := Some reason\<rparr>)"
  by (auto simp: observe_notification_def pin_def is_pinned_def)

lemma settings_loop_pins:
  "settings_loop settings b p params = (b', p', params') \<Longrightarrow>
   is_pinned p' = (is_pinned p \<or> list_ex (\<lambda>(name, _). \<not> replayable_contains replayable_names (normalise name)) settings) \<and>
   b' = (b \<or> \<not> is_pinned p \<and> is_pinned p')"
proof (induction settings b p params rule: settings_loop.induct)
  case (2 name v rest b p params)
  then show ?case
    by (auto simp: Let_def normalise_def pin_def is_pinned_def split: if_splits prod.splits)
qed auto

lemma settings_pins:
  "is_pinned (rl_pin (snd (snd (on_startup_settings settings params r)))) = (is_pinned (rl_pin r) \<or> pins (GotSettings settings params))"
  "sr_pinned (rl_router r) = is_pinned (rl_pin r) \<Longrightarrow>
   sr_pinned (rl_router (snd (snd (on_startup_settings settings params r)))) = (is_pinned (rl_pin r) \<or> pins (GotSettings settings params))"
  using settings_loop_pins [of settings False "rl_pin r" params]
  by (auto simp: on_startup_settings_def set_pinned_def split: prod.split)

lemma client_pin:
  "rl_pin (snd (on_client message reps now r)) =
     (case sql_of message of None \<Rightarrow> rl_pin r | Some sql \<Rightarrow> snd (pin_observe_statement sql replayable_names (rl_pin r)))"
  by (auto simp: on_client_def Let_def split: option.split prod.split)

lemma client_router:
  "rl_router (snd (on_client message reps now r)) =
     (case sql_of message of
        None \<Rightarrow> rl_router r
      | Some sql \<Rightarrow>
          snd (route sql (st_tx (on_frontend message (rl_session r)) = InTransaction) reps now
                 (if fst (pin_observe_statement sql replayable_names (rl_pin r)) \<noteq> None then set_pinned True (rl_router r) else rl_router r)))"
  by (auto simp: on_client_def Let_def split: option.split prod.split)

lemma route_pinned [simp]: "sr_pinned (snd (route sql b reps now r)) = sr_pinned r"
  by (auto simp: route_def Let_def split: option.split route_assignment.split)

lemma relay_pinned:
  "is_pinned (rl_pin (relay_run h)) = list_ex pins h \<and> sr_pinned (rl_router (relay_run h)) = list_ex pins h"
proof (induction h rule: rev_induct)
  case (snoc e h)
  show ?case
  proof (cases e)
    case (FromClient message reps now)
    then show ?thesis using snoc
      by (auto simp: client_pin client_router observe_statement_pins set_pinned_def split: option.split)
  next
    case (FromServer message)
    then show ?thesis using snoc
      by (cases message) (auto simp: on_server_def Let_def observe_notification_pins set_pinned_def end_transaction_def)
  next
    case (GotSettings settings params)
    then show ?thesis using snoc settings_pins [where r = "relay_run h"] by auto
  qed (use snoc in \<open>auto simp: relay_acquired_def relay_released_def relay_record_write_def record_write_def\<close>)
qed (simp add: relay_init_def pin_new_def is_pinned_def router_new_def)

text \<open>The direction of the copy that is open.\<close>

definition copy_step :: "session_event \<Rightarrow> copy_direction option \<Rightarrow> copy_direction option" where
  "copy_step e c =
     (case opens_copy e of
        Some d \<Rightarrow> Some d
      | None \<Rightarrow> (case c of None \<Rightarrow> None | Some d \<Rightarrow> if closes_copy d e then None else Some d))"

definition copy_of :: "copy_direction \<Rightarrow> session_event list \<Rightarrow> bool" where
  "copy_of d h = (\<exists>pre e post. h = pre @ e # post \<and> opens_copy e = Some d \<and>
     list_all (\<lambda>f. \<not> closes_copy d f \<and> opens_copy f = None) post)"

lemma copy_of_simps [simp]:
  "copy_of d [] = False"
  "copy_of d (h @ [e]) = (opens_copy e = Some d \<or> copy_of d h \<and> \<not> closes_copy d e \<and> opens_copy e = None)"
proof -
  show "copy_of d [] = False" by (simp add: copy_of_def)
  show "copy_of d (h @ [e]) = (opens_copy e = Some d \<or> copy_of d h \<and> \<not> closes_copy d e \<and> opens_copy e = None)" (is "?l = ?r")
  proof
    assume ?l
    then obtain pre f post where p: "h @ [e] = pre @ f # post" "opens_copy f = Some d"
        "list_all (\<lambda>f. \<not> closes_copy d f \<and> opens_copy f = None) post"
      unfolding copy_of_def by blast
    show ?r
    proof (cases post rule: rev_cases)
      case (snoc post' g)
      have "copy_of d h" unfolding copy_of_def
        by (intro exI [of _ pre] exI [of _ f] exI [of _ post']) (use p snoc in auto)
      then show ?thesis using p snoc by auto
    qed (use p in auto)
  next
    assume ?r
    then show ?l
    proof (elim disjE conjE)
      assume "opens_copy e = Some d"
      then show ?l unfolding copy_of_def by (intro exI [of _ h] exI [of _ e] exI [of _ "[]"]) simp
    next
      assume e: "copy_of d h" "\<not> closes_copy d e" "opens_copy e = None"
      then obtain pre f post where "h = pre @ f # post" "opens_copy f = Some d"
          "list_all (\<lambda>f. \<not> closes_copy d f \<and> opens_copy f = None) post"
        unfolding copy_of_def by blast
      then show ?l unfolding copy_of_def
        by (intro exI [of _ pre] exI [of _ f] exI [of _ "post @ [e]"]) (use e in simp)
    qed
  qed
qed

lemma copy_state: "fold copy_step h None = Some d \<longleftrightarrow> copy_of d h"
proof (induction h arbitrary: d rule: rev_induct)
  case (snoc e h)
  note IH = snoc.IH [symmetric]
  show ?case
  proof (cases "fold copy_step h None")
    case None
    then show ?thesis by (simp add: IH copy_step_def [of e] split: option.split)
  next
    case (Some c)
    then show ?thesis by (auto simp: IH copy_step_def [of e] split: option.split)
  qed
qed simp

lemma copy_open_state: "copy_open h \<longleftrightarrow> fold copy_step h None \<noteq> None"
proof -
  have "copy_open h \<longleftrightarrow> (\<exists>d. copy_of d h)" unfolding copy_open_def copy_of_def by blast
  then show ?thesis by (simp add: copy_state [symmetric])
qed

lemma frontend_state:
  "st_tx (on_frontend m st) = st_tx st" "st_ready (on_frontend m st) = st_ready st"
  "st_sequence (on_frontend m st) = (st_sequence st \<or> starts_extended_sequence m)"
  "st_copy (on_frontend m st) = copy_step (FromClient m reps now) (st_copy st)"
  by (auto simp: on_frontend_def copy_step_def split: option.split)

lemma client_session:
  "rl_session (snd (on_client m reps now r)) = (if m = Terminate then rl_session r else on_frontend m (rl_session r))"
  by (auto simp: on_client_def Let_def split: option.split prod.split)

lemma server_session: "rl_session (snd (on_server m r)) = on_backend m (rl_session r)"
  by (auto simp: on_server_def Let_def split: prod.split)

lemma backend_state:
  "ready_status (FromServer m) = None \<Longrightarrow>
   st_tx (on_backend m st) = st_tx st \<and> st_ready (on_backend m st) = st_ready st \<and>
   st_sequence (on_backend m st) = st_sequence st \<and> st_copy (on_backend m st) = copy_step (FromServer m) (st_copy st)"
  by (cases m) (auto simp: copy_step_def split: option.split)

definition told :: "session_event list \<Rightarrow> session_state" where
  "told h = \<lparr>st_tx = (case last_ready h of None \<Rightarrow> Idle | Some s \<Rightarrow> s), st_sequence = list_ex extends (since_ready h),
     st_copy = fold copy_step (since_ready h) None, st_ready = (last_ready h \<noteq> None)\<rparr>"

lemma session_eqI:
  "st_tx a = st_tx b \<Longrightarrow> st_sequence a = st_sequence b \<Longrightarrow> st_copy a = st_copy b \<Longrightarrow> st_ready a = st_ready b \<Longrightarrow> a = (b :: session_state)"
  by (cases a; cases b) simp

lemma relay_session: "rl_session (relay_run h) = told h"
proof (induction h rule: rev_induct)
  case (snoc e h)
  have quiet: "copy_step e c = c" if "\<forall>m reps now. e \<noteq> FromClient m reps now" "\<forall>m. e \<noteq> FromServer m" for c
    using that by (cases e) (auto simp: copy_step_def split: option.split)
  show ?case
  proof (cases e)
    case (FromClient m reps now)
    then show ?thesis using snoc
      by (intro session_eqI)
        (auto simp: client_session told_def frontend_state(1-3) frontend_state(4) [where reps = reps and now = now] copy_step_def [of "FromClient Terminate reps now"] split: option.split)
  next
    case (FromServer m)
    show ?thesis
    proof (cases "ready_status e")
      case None
      then show ?thesis using snoc backend_state [of m "rl_session (relay_run h)"] FromServer
        by (intro session_eqI) (auto simp: server_session told_def)
    next
      case (Some s)
      then have "m = ReadyForQuery s" using FromServer by (cases m) auto
      then show ?thesis using FromServer by (simp add: server_session told_def)
    qed
  qed (use snoc quiet in \<open>auto simp: told_def relay_acquired_def relay_released_def relay_record_write_def
      on_startup_settings_def split: prod.split\<close>)
qed (simp add: relay_init_def told_def session_new_def)

lemma releasable_told: "is_releasable (told h) \<longleftrightarrow>
    last_ready h = Some Idle \<and> \<not> list_ex extends (since_ready h) \<and> \<not> copy_open (since_ready h)"
  unfolding copy_open_state is_releasable_def hold_reason_of_def told_def
  by (auto split: option.split tx_status.split)

subsection \<open>When a connection is released\<close>

lemma release_history:
  "so_release (fst (on_server message (relay_run h))) \<longleftrightarrow> may_release (h @ [FromServer message])"
proof -
  let ?h = "h @ [FromServer message]"
  have s: "on_backend message (rl_session (relay_run h)) = told ?h"
    using relay_session [of ?h] by (simp add: server_session)
  have p: "is_pinned (case message of NotificationResponse a b c \<Rightarrow> snd (observe_notification (rl_pin (relay_run h))) | _ \<Rightarrow> rl_pin (relay_run h))
      = list_ex pins ?h"
    using relay_pinned [of h] observe_notification_pins by (cases message) auto
  have "so_release (fst (on_server message (relay_run h))) \<longleftrightarrow>
      rl_held (relay_run h) \<noteq> None \<and> is_releasable (on_backend message (rl_session (relay_run h))) \<and>
      \<not> is_pinned (case message of NotificationResponse a b c \<Rightarrow> snd (observe_notification (rl_pin (relay_run h))) | _ \<Rightarrow> rl_pin (relay_run h))"
    by (auto simp: on_server_def Let_def split: prod.split backend_message.split)
  then show ?thesis unfolding s p may_release_def releasable_told holding_def relay_held by auto
qed

text \<open>
  C11. The release rule, exactly. After any history of a session, a frame from the server releases the
  connection if and only if the session holds one, nothing in the history pins the session (no
  statement, no notification and no startup setting), the last \<open>ReadyForQuery\<close>, this frame included, says
  that no transaction is open, and since then the client has not begun an extended sequence and no copy
  has been opened and not closed.
\<close>

theorem release_rule:
  "so_release (fst (on_server message (relay_run h))) \<longleftrightarrow> may_release (h @ [FromServer message])"
  by (rule release_history)

subsection \<open>A transaction stays where it began\<close>

lemma route_fixed:
  assumes "sr_fixed r = Some t"
  shows "sr_fixed (snd (route sql b reps now r)) = Some t"
    "parse_route_assignment sql = None \<Longrightarrow> fst (route sql b reps now r) = To t"
  using assms by (auto simp: route_def Let_def split: option.split route_assignment.split)

lemma route_begins:
  assumes "begins_transaction sql" "fst (route sql b reps now r) = To t"
  shows "sr_fixed (snd (route sql b reps now r)) = Some t"
  using assms by (auto simp: route_def Let_def split: option.splits route_assignment.splits)

lemma client_action:
  assumes "sql_of m = Some sql"
  shows "\<exists>b router. sr_fixed router = sr_fixed (rl_router r) \<and>
    rl_router (snd (on_client m reps now r)) = snd (route sql b reps now router) \<and>
    co_action (fst (on_client m reps now r)) =
      (case fst (route sql b reps now router) of To t \<Rightarrow> Send t (rl_held r \<noteq> Some t) | x \<Rightarrow> Answer x)"
proof (intro exI conjI)
  let ?b = "st_tx (on_frontend m (rl_session r)) = InTransaction"
  let ?router = "if fst (pin_observe_statement sql replayable_names (rl_pin r)) \<noteq> None then set_pinned True (rl_router r) else rl_router r"
  show "sr_fixed ?router = sr_fixed (rl_router r)" by (simp add: set_pinned_def)
  show "rl_router (snd (on_client m reps now r)) = snd (route sql ?b reps now ?router)"
    by (simp add: client_router assms)
  have "m \<noteq> Terminate" using assms by auto
  then show "co_action (fst (on_client m reps now r)) =
      (case fst (route sql ?b reps now ?router) of To t \<Rightarrow> Send t (rl_held r \<noteq> Some t) | x \<Rightarrow> Answer x)"
    using assms by (auto simp: on_client_def Let_def split: prod.split routed.split)
qed

lemma fixed_kept:
  assumes "sr_fixed (rl_router r) = Some t" "e \<noteq> FromServer (ReadyForQuery Idle)"
  shows "sr_fixed (rl_router (relay_do e r)) = Some t"
proof (cases e)
  case (FromClient m reps now)
  then show ?thesis using assms by (auto simp: client_router route_fixed set_pinned_def split: option.split)
next
  case (FromServer m)
  then show ?thesis using assms by (auto simp: on_server_def Let_def set_pinned_def split: prod.split)
qed (use assms in \<open>auto simp: relay_acquired_def relay_released_def relay_record_write_def record_write_def
    on_startup_settings_def set_pinned_def split: prod.split\<close>)

lemma fixed_kept_fold:
  "sr_fixed (rl_router r) = Some t \<Longrightarrow> FromServer (ReadyForQuery Idle) \<notin> set mid \<Longrightarrow>
   sr_fixed (rl_router (fold relay_do mid r)) = Some t"
  by (induction mid arbitrary: r) (auto simp: fixed_kept)


lemma push_plain:
  "is_solid c \<Longrightarrow> c \<noteq> CHR ''/'' \<Longrightarrow> c \<noteq> CHR ''-'' \<Longrightarrow> push_statement found (c # s) = found @ [c # s]"
  using skip_trivia_here [of c s] by (simp add: push_statement_def is_solid_def)

lemma pin_examples:
  "pin_reason_of ''BEGIN'' replayable_names = None" "pin_reason_of ''BEGIN READ ONLY'' replayable_names = None"
  "pin_reason_of ''SELECT 1'' replayable_names = None" "pin_reason_of ''SET jit = off'' replayable_names = Some UnreplayableSet"
proof -
  have s: "statements ''BEGIN'' = [''BEGIN'']" "statements ''BEGIN READ ONLY'' = [''BEGIN READ ONLY'']"
    "statements ''SELECT 1'' = [''SELECT 1'']" "statements ''SET jit = off'' = [''SET jit = off'']"
    by (simp_all add: statements_def statements_loop.simps push_plain is_solid_def lex_eval)
  have w: "pin_words_of ''BEGIN'' = [''begin'']" "pin_words_of ''BEGIN READ ONLY'' = [''begin'', ''read'', ''only'']"
    "pin_words_of ''SELECT 1'' = [''select'', ''1'']" "pin_words_of ''SET jit = off'' = [''set'', ''jit'', ''off'']"
    by (simp_all add: pin_words_of_def statement_words_def words_end_def lex_eval)
  have q: "\<not> quoted_parameter_name ''SET jit = off''"
    by (simp add: quoted_parameter_name_def lexer_pull_def lex_eval)
  show "pin_reason_of ''BEGIN'' replayable_names = None" "pin_reason_of ''BEGIN READ ONLY'' replayable_names = None"
    "pin_reason_of ''SELECT 1'' replayable_names = None" "pin_reason_of ''SET jit = off'' replayable_names = Some UnreplayableSet"
    by (simp_all add: pin_reason_of_def s statement_pin_reason_def w q is_temp_word_def is_session_advisory_lock_def rsplit_once_def
        starts_with_Cons set_pin_reason_def set_name_reason_def replayable_contains_def replayable_names_def pin_parameter_def)
qed

lemma pin_observe_free:
  "pin_reason_of sql al = None \<Longrightarrow> pin_observe_statement sql al p = (None, p)"
  by (simp add: pin_observe_statement_def)

text \<open>One statement that does not pin, over a router that has no target yet.\<close>

lemma client_example:
  assumes "sql_of m = Some sql" "pin_reason_of sql replayable_names = None" "parse_route_assignment sql = None"
  shows "on_client m reps now r =
    (case route sql (st_tx (rl_session r) = InTransaction) reps now (rl_router r) of (answered, router) \<Rightarrow>
       (case answered of
          To target \<Rightarrow> \<lparr>co_action = Send target (rl_held r \<noteq> Some target), co_pinned = None\<rparr>
        | _ \<Rightarrow> \<lparr>co_action = Answer answered, co_pinned = None\<rparr>,
        r\<lparr>rl_session := on_frontend m (rl_session r), rl_router := router\<rparr>))"
  using assms by (auto simp: on_client_def Let_def pin_observe_free frontend_state split: prod.split routed.split)


subsection \<open>Where the relay falls short\<close>

definition after_begin :: "session_event list" where
  "after_begin =
     [FromClient (Query ''BEGIN READ ONLY'') caught_up 0, WasAcquired (Replica 0), FromServer (ReadyForQuery InTransaction)]"

lemma gap_statements:
  "parse_route_assignment ''BEGIN READ ONLY'' = None" "statement_hint ''BEGIN READ ONLY'' = None"
  "begins_read_only_transaction ''BEGIN READ ONLY''" "begins_transaction ''BEGIN READ ONLY''"
  "parse_route_assignment ''SET jit = off'' = None"
  by (simp_all add: route_eval)

lemma after_begin_state:
  "relay_run after_begin =
     \<lparr>rl_session = \<lparr>st_tx = InTransaction, st_sequence = False, st_copy = None, st_ready = True\<rparr>, rl_pin = pin_new,
      rl_router = router_new\<lparr>sr_read_only_transaction := True, sr_fixed := Some (Replica 0)\<rparr>, rl_held = Some (Replica 0)\<rparr>"
  by (simp add: after_begin_def relay_run_def client_example gap_statements pin_examples route_example decide_eval relay_init_def Let_def
      relay_acquired_def on_server_def)

lemma after_set_state:
  "on_client (Query ''SET jit = off'') caught_up 0 (relay_run after_begin) =
     (\<lparr>co_action = Send (Replica 0) False, co_pinned = Some UnreplayableSet\<rparr>,
      (relay_run after_begin)\<lparr>rl_pin := \<lparr>ps_reason = Some UnreplayableSet, ps_tenant = None\<rparr>,
        rl_router := router_new\<lparr>sr_read_only_transaction := True, sr_fixed := Some (Replica 0), sr_pinned := True\<rparr>\<rparr>)"
  by (simp add: after_begin_state on_client_def Let_def pin_observe_statement_def pin_examples pin_new_def is_pinned_def pin_def
      set_pinned_def route_def gap_statements on_frontend_def)

text \<open>
  C38. Where the relay departs from its comments. A connection is said to be free on the first frame of the
  answer to a second query, before its \<open>ReadyForQuery\<close>. A \<open>Parse\<close> that goes to a replica is followed by a
  \<open>Bind\<close>, or any other frame without a statement, that asks for a connection to the primary although the
  comment says such frames go where the statement went. And a session that is pinned inside a read-only
  transaction on a replica keeps that replica connection when the transaction ends and asks for another
  one, on the primary, with the next statement, though a pinned session is bound to the one it has.
\<close>

theorem relay_gaps:
  "so_release (fst (on_server (ServerOpaque tag_row_description) (relay_run
     [FromClient (Query ''SELECT 1'') (replicas_new 0 replica_config_default) 0, WasAcquired Primary, FromServer (ReadyForQuery Idle), WasReleased,
      FromClient (Query ''SELECT 1'') (replicas_new 0 replica_config_default) 0, WasAcquired Primary]))) \<and>
   co_action (fst (on_client (Parse ''s'' ''SELECT 1'') caught_up 0 relay_init)) = Send (Replica 0) True \<and>
   co_action (fst (on_client (Bind portal ''s'') caught_up 0
     (relay_run [FromClient (Parse ''s'' ''SELECT 1'') caught_up 0, WasAcquired (Replica 0)]))) = Send Primary True \<and>
   co_action (fst (on_client (Query ''SET jit = off'') caught_up 0 (relay_run after_begin))) = Send (Replica 0) False \<and>
   co_pinned (fst (on_client (Query ''SET jit = off'') caught_up 0 (relay_run after_begin))) = Some UnreplayableSet \<and>
   \<not> so_release (fst (on_server (ReadyForQuery Idle) (relay_run (after_begin @ [FromClient (Query ''SET jit = off'') caught_up 0])))) \<and>
   co_action (fst (on_client (Query ''SELECT 1'') caught_up 0
     (relay_run (after_begin @ [FromClient (Query ''SET jit = off'') caught_up 0, FromServer (ReadyForQuery Idle)])))) = Send Primary True"
proof (intro conjI)
  show "so_release (fst (on_server (ServerOpaque tag_row_description) (relay_run
     [FromClient (Query ''SELECT 1'') (replicas_new 0 replica_config_default) 0, WasAcquired Primary, FromServer (ReadyForQuery Idle), WasReleased,
      FromClient (Query ''SELECT 1'') (replicas_new 0 replica_config_default) 0, WasAcquired Primary])))"
    unfolding release_history
    by (simp add: may_release_def holding_def last_ready_def since_ready_def copy_open_state copy_step_def pin_examples)
  show "co_action (fst (on_client (Parse ''s'' ''SELECT 1'') caught_up 0 relay_init)) = Send (Replica 0) True"
    by (simp add: client_example pin_examples example_statements route_example decide_eval relay_init_def Let_def)
  show "co_action (fst (on_client (Bind portal ''s'') caught_up 0
     (relay_run [FromClient (Parse ''s'' ''SELECT 1'') caught_up 0, WasAcquired (Replica 0)]))) = Send Primary True"
    by (simp add: relay_run_def relay_acquired_def on_client_def [of "Bind portal ''s''"] forward_without_routing_def)
qed (simp_all add: after_set_state, simp_all add: after_begin_state on_server_def is_pinned_def end_transaction_def router_new_def
  client_example pin_examples example_statements route_example decide_eval Let_def)

end
