(* ===== verification/Frame_Relay.thy ===== *)
theory Frame_Relay
  imports Frame
begin

text \<open>
  \<^verbatim>\<open>crates/pgprox-proto/src/relay.rs\<close>: messages streamed through, with only as much of a body held as
  the inspect policy asks for. The properties are that the result does not depend on how the bytes were
  cut into reads, that it is what whole-message decoding gives, and that what is held stays within the
  inspect cap. The capacity a buffer keeps after it is cleared is not modelled.
\<close>

record completed =
  c_header :: frame_header
  c_complete :: bool

record relay_outcome =
  o_consumed :: nat
  o_completed :: "completed option"

definition inspect_budget :: "direction \<Rightarrow> char \<Rightarrow> nat \<Rightarrow> nat \<Rightarrow> nat" where
  "inspect_budget direction tag body_len max_inspect =
     min (case inspect_policy direction tag of
            InspectNone \<Rightarrow> 0
          | Prefix n \<Rightarrow> min n body_len
          | Whole \<Rightarrow> body_len)
         max_inspect"

datatype phase = Header | Body nat

record frame_relay =
  fr_direction :: direction
  fr_max_frame :: nat
  fr_max_inspect :: nat
  fr_phase :: phase
  fr_header :: "frame_header option"
  fr_want_inspect :: nat
  fr_buffer :: string
  fr_header_buf :: string

definition with_limits :: "direction \<Rightarrow> nat \<Rightarrow> nat \<Rightarrow> frame_relay" where
  "with_limits direction max_frame max_inspect =
     \<lparr>fr_direction = direction, fr_max_frame = max_frame, fr_max_inspect = max_inspect,
      fr_phase = Header, fr_header = None, fr_want_inspect = 0, fr_buffer = [], fr_header_buf = []\<rparr>"

definition with_max_frame :: "direction \<Rightarrow> nat \<Rightarrow> frame_relay" where
  "with_max_frame direction max_frame = with_limits direction max_frame default_max_inspect"

definition relay_new :: "direction \<Rightarrow> frame_relay" where
  "relay_new direction = with_max_frame direction default_max_frame"

definition buffered :: "frame_relay \<Rightarrow> nat" where
  "buffered fr = length (fr_buffer fr) + length (fr_header_buf fr)"

text \<open>A header is known: what the relay does with it.\<close>

definition begin_body :: "frame_header \<Rightarrow> nat \<Rightarrow> frame_relay \<Rightarrow> relay_outcome \<times> frame_relay" where
  "begin_body header n fr =
     (let fr = fr\<lparr>fr_header := Some header, fr_header_buf := [],
                  fr_want_inspect := inspect_budget (fr_direction fr) (h_tag header) (h_body_len header) (fr_max_inspect fr),
                  fr_buffer := []\<rparr>
      in if h_body_len header = 0 then
           (\<lparr>o_consumed = n, o_completed = Some \<lparr>c_header = header, c_complete = True\<rparr>\<rparr>, fr\<lparr>fr_phase := Header\<rparr>)
         else (\<lparr>o_consumed = n, o_completed = None\<rparr>, fr\<lparr>fr_phase := Body (h_body_len header)\<rparr>))"

definition read_header :: "string \<Rightarrow> nat \<Rightarrow> frame_relay \<Rightarrow> decode_error + (relay_outcome \<times> frame_relay)" where
  "read_header src n fr =
     (case decode_header src (fr_max_frame fr) of
        Inl e \<Rightarrow> Inl e
      | Inr None \<Rightarrow> Inr (\<lparr>o_consumed = n, o_completed = None\<rparr>, fr)
      | Inr (Some header) \<Rightarrow> Inr (begin_body header n fr))"

definition push_header :: "string \<Rightarrow> frame_relay \<Rightarrow> decode_error + (relay_outcome \<times> frame_relay)" where
  "push_header input fr =
     (let header = 1 + len_prefix
      in if fr_header_buf fr = [] \<and> length input \<ge> header then read_header input header fr
         else
           let need = header - length (fr_header_buf fr);
               n = min need (length input);
               fr = fr\<lparr>fr_header_buf := fr_header_buf fr @ take n input\<rparr>
           in if length (fr_header_buf fr) < header then Inr (\<lparr>o_consumed = n, o_completed = None\<rparr>, fr)
              else read_header (fr_header_buf fr) n fr)"

definition push_body :: "string \<Rightarrow> nat \<Rightarrow> frame_relay \<Rightarrow> relay_outcome \<times> frame_relay" where
  "push_body input left fr =
     (let n = min left (length input);
          fr = (if fr_want_inspect fr > 0 then
                  let copy = min (fr_want_inspect fr) n
                  in fr\<lparr>fr_buffer := fr_buffer fr @ take copy input, fr_want_inspect := fr_want_inspect fr - copy\<rparr>
                else fr);
          rest = left - n
      in if rest > 0 then (\<lparr>o_consumed = n, o_completed = None\<rparr>, fr\<lparr>fr_phase := Body rest\<rparr>)
         else
           let header = (case fr_header fr of None \<Rightarrow> \<lparr>h_tag = CHR 0x00, h_body_len = 0\<rparr> | Some h \<Rightarrow> h)
           in (\<lparr>o_consumed = n,
                o_completed = Some \<lparr>c_header = header, c_complete = (length (fr_buffer fr) = h_body_len header)\<rparr>\<rparr>,
               fr\<lparr>fr_phase := Header\<rparr>))"

definition push :: "string \<Rightarrow> frame_relay \<Rightarrow> decode_error + (relay_outcome \<times> frame_relay)" where
  "push input fr =
     (if input = [] then Inr (\<lparr>o_consumed = 0, o_completed = None\<rparr>, fr)
      else case fr_phase fr of
        Header \<Rightarrow> push_header input fr
      | Body left \<Rightarrow> Inr (push_body input left fr))"

subsection \<open>Feeding a stream\<close>

text \<open>
  What a caller sees of one message: its header, whether the inspected part is the whole body, and the
  inspected bytes, read before the next push.
\<close>

type_synonym relay_event = "completed \<times> string"

text \<open>The documented loop: push again with the remainder until nothing is consumed.\<close>

function feed :: "string \<Rightarrow> frame_relay \<Rightarrow> decode_error + (relay_event list \<times> frame_relay)" where
  "feed input fr =
     (case push input fr of
        Inl e \<Rightarrow> Inl e
      | Inr (out, fr') \<Rightarrow>
          let now = (case o_completed out of None \<Rightarrow> [] | Some c \<Rightarrow> [(c, fr_buffer fr')])
          in if o_consumed out = 0 \<or> input = [] then Inr (now, fr')
             else case feed (drop (o_consumed out) input) fr' of
               Inl e \<Rightarrow> Inl e
             | Inr (later, fr'') \<Rightarrow> Inr (now @ later, fr''))"
  by pat_completeness auto
termination by (relation "measure (\<lambda>(input, fr). length input)") auto

declare feed.simps [simp del]

text \<open>The relay's invariant: a partial header is partial, a body has bytes to come, and the buffer is bounded.\<close>

definition relay_inv :: "frame_relay \<Rightarrow> bool" where
  "relay_inv fr =
     (length (fr_header_buf fr) < 5 \<and>
      length (fr_buffer fr) + (case fr_phase fr of Header \<Rightarrow> 0 | Body _ \<Rightarrow> fr_want_inspect fr) \<le> fr_max_inspect fr \<and>
      (case fr_phase fr of Header \<Rightarrow> True | Body left \<Rightarrow> 0 < left \<and> fr_header_buf fr = []))"

lemma decode_header_prefix: "5 \<le> length a \<Longrightarrow> decode_header (a @ b) m = decode_header a m"
proof -
  assume l: "5 \<le> length a"
  then have "take 4 (drop 1 (a @ b)) = take 4 (drop 1 a)" "hd (a @ b) = hd a" by (cases a, simp_all)+
  then show ?thesis using l by (simp add: decode_header_def read_u32_def len_prefix_def split: sum.split)
qed

lemma decode_header_take5: "5 \<le> length a \<Longrightarrow> decode_header (take 5 a) m = decode_header a m"
  using decode_header_prefix [of "take 5 a" "drop 5 a" m] by simp

lemma decode_header_some: "5 \<le> length src \<Longrightarrow> decode_header src m \<noteq> Inr None"
  by (auto simp: decode_header_def len_prefix_def split: sum.splits)

lemma budget_le: "inspect_budget d t n m \<le> n" "inspect_budget d t n m \<le> m"
  by (auto simp: inspect_budget_def split: inspect.split)

subsection \<open>A push makes progress and keeps the invariant\<close>

lemma begin_body_inv: "relay_inv (snd (begin_body h n fr))" "o_consumed (fst (begin_body h n fr)) = n"
  using budget_le by (auto simp: begin_body_def relay_inv_def Let_def)

lemma read_header_inv:
  assumes "read_header src n fr = Inr (out, fr')" "5 \<le> length src"
  shows "relay_inv fr' \<and> o_consumed out = n"
proof -
  have "decode_header src (fr_max_frame fr) \<noteq> Inr None" using assms(2) by (rule decode_header_some)
  then obtain h where "begin_body h n fr = (out, fr')"
    using assms(1) by (auto simp: read_header_def split: sum.splits option.splits)
  then show ?thesis using begin_body_inv [of h n fr] by simp
qed

lemma push_header_fast:
  "fr_header_buf fr = [] \<Longrightarrow> 5 \<le> length input \<Longrightarrow> push_header input fr = read_header input 5 fr"
  by (simp add: push_header_def len_prefix_def)

lemma push_header_slow:
  assumes "\<not> (fr_header_buf fr = [] \<and> 5 \<le> length input)"
    and "n = min (5 - length (fr_header_buf fr)) (length input)" and "hb = fr_header_buf fr @ take n input"
  shows "push_header input fr =
    (if length hb < 5 then Inr (\<lparr>o_consumed = n, o_completed = None\<rparr>, fr\<lparr>fr_header_buf := hb\<rparr>)
     else read_header hb n (fr\<lparr>fr_header_buf := hb\<rparr>))"
proof -
  have five: "1 + 4 = (5 :: nat)" by simp
  have sel: "fr_header_buf (fr\<lparr>fr_header_buf := x\<rparr>) = x" for x by simp
  show ?thesis
    unfolding push_header_def len_prefix_def Let_def five if_not_P [OF assms(1)] assms(2,3) sel ..
qed

lemma push_header_inv:
  assumes "push_header input fr = Inr (out, fr')" "input \<noteq> []" "relay_inv fr" "fr_phase fr = Header"
  shows "relay_inv fr' \<and> 0 < o_consumed out \<and> o_consumed out \<le> length input"
proof (cases "fr_header_buf fr = [] \<and> length input \<ge> 5")
  case True
  then show ?thesis
    using assms read_header_inv [of input 5 fr out fr'] by (simp add: push_header_fast)
next
  case False
  define n where "n = min (5 - length (fr_header_buf fr)) (length input)"
  define hb where "hb = fr_header_buf fr @ take n input"
  have n: "0 < n" "n \<le> length input" using assms(2,3) by (auto simp: relay_inv_def n_def)
  note slow = push_header_slow [OF False n_def hb_def]
  show ?thesis
  proof (cases "length hb < 5")
    case True
    then have "out = \<lparr>o_consumed = n, o_completed = None\<rparr>" "fr' = fr\<lparr>fr_header_buf := hb\<rparr>"
      using assms(1) slow by simp_all
    then show ?thesis using n True assms(3,4) by (simp add: relay_inv_def)
  next
    case hb: False
    then have "read_header hb n (fr\<lparr>fr_header_buf := hb\<rparr>) = Inr (out, fr')"
      using assms(1) slow by simp
    then show ?thesis using read_header_inv hb n by force
  qed
qed

lemma push_body_inv:
  assumes "push_body input left fr = (out, fr')" "input \<noteq> []" "relay_inv fr" "fr_phase fr = Body left"
  shows "relay_inv fr' \<and> 0 < o_consumed out \<and> o_consumed out \<le> length input"
  using assms
  by (auto simp: push_body_def relay_inv_def Let_def min_def split: if_splits)

lemma push_inv:
  assumes "push input fr = Inr (out, fr')" "relay_inv fr"
  shows "relay_inv fr' \<and> o_consumed out \<le> length input \<and> (input \<noteq> [] \<longrightarrow> 0 < o_consumed out)"
proof (cases "input = []")
  case True
  then show ?thesis using assms by (auto simp: push_def)
next
  case False
  then show ?thesis
    using assms push_header_inv [OF _ False assms(2)] push_body_inv [OF _ False assms(2)]
    by (auto simp: push_def split: phase.splits)
qed

subsection \<open>A read cut in two\<close>

text \<open>
  A push of \<open>a @ b\<close> either ends within \<open>a\<close>, or it does what a push of \<open>a\<close> and then one of \<open>b\<close> do.
\<close>

definition shift :: "nat \<Rightarrow> decode_error + (relay_outcome \<times> frame_relay) \<Rightarrow> decode_error + (relay_outcome \<times> frame_relay)" where
  "shift k r =
     (case r of
        Inl e \<Rightarrow> Inl e
      | Inr (out, fr) \<Rightarrow> Inr (\<lparr>o_consumed = k + o_consumed out, o_completed = o_completed out\<rparr>, fr))"

definition cut :: "string \<Rightarrow> string \<Rightarrow> frame_relay \<Rightarrow> bool" where
  "cut a b fr =
     (push (a @ b) fr = push a fr \<or>
      (\<exists>fr'. push a fr = Inr (\<lparr>o_consumed = length a, o_completed = None\<rparr>, fr') \<and>
             push (a @ b) fr = shift (length a) (push b fr')))"

lemma read_header_shift:
  assumes "5 \<le> length src"
  shows "read_header (src @ b) (k + n) (fr\<lparr>fr_header_buf := x\<rparr>) = shift k (read_header (take 5 src) n (fr\<lparr>fr_header_buf := y\<rparr>))"
  using assms decode_header_some [OF assms, of "fr_max_frame fr"]
  by (simp add: read_header_def decode_header_prefix decode_header_take5 shift_def begin_body_def Let_def
      split: sum.split option.split)

lemma cut_header:
  assumes "relay_inv fr" "fr_phase fr = Header" "a \<noteq> []" "b \<noteq> []"
  shows "cut a b fr"
proof -
  let ?k = "length (fr_header_buf fr)"
  have k: "?k < 5" using assms(1) by (simp add: relay_inv_def)
  have p: "push a fr = push_header a fr" "push (a @ b) fr = push_header (a @ b) fr"
    using assms by (simp_all add: push_def)
  show ?thesis
  proof (cases "5 \<le> ?k + length a")
    case True
    show ?thesis
    proof (cases "fr_header_buf fr = []")
      case hb: True
      then have "push_header a fr = read_header a 5 fr" "push_header (a @ b) fr = read_header (a @ b) 5 fr"
        using True by (simp_all add: push_header_fast)
      then show ?thesis using True hb p by (simp add: cut_def read_header_def decode_header_prefix)
    next
      case False
      have "min (5 - ?k) (length a) = 5 - ?k" "min (5 - ?k) (length (a @ b)) = 5 - ?k" using True by simp_all
      moreover have "take (5 - ?k) (a @ b) = take (5 - ?k) a" using True by simp
      ultimately have "push_header (a @ b) fr = push_header a fr"
        using False push_header_slow [OF _ refl refl, of fr a] push_header_slow [OF _ refl refl, of fr "a @ b"] by simp
      then show ?thesis using p by (simp add: cut_def)
    qed
  next
    case False
    let ?hb = "fr_header_buf fr @ a" and ?need = "5 - (?k + length a)"
    let ?fr = "fr\<lparr>fr_header_buf := ?hb\<rparr>"
    have ne: "?hb \<noteq> []" using assms(3) by simp
    have n: "min (5 - ?k) (length a) = length a" using False by simp
    have a: "push_header a fr = Inr (\<lparr>o_consumed = length a, o_completed = None\<rparr>, ?fr)"
      using push_header_slow [OF _ refl refl, of fr a] False unfolding n by simp
    have pb: "push b ?fr = push_header b ?fr" using assms(2,4) by (simp add: push_def)
    have "push_header (a @ b) fr = shift (length a) (push_header b ?fr)"
    proof (cases "5 \<le> ?k + length a + length b")
      case short: False
      have "min (5 - ?k) (length (a @ b)) = length (a @ b)" "min (5 - length ?hb) (length b) = length b"
        using short by simp_all
      moreover have "\<not> (fr_header_buf fr = [] \<and> 5 \<le> length (a @ b))" using short by auto
      ultimately show ?thesis
        using push_header_slow [OF _ refl refl, of fr "a @ b"] push_header_slow [OF _ refl refl, of ?fr b] ne short
        by (simp add: shift_def)
    next
      case long: True
      define hb2 where "hb2 = ?hb @ take ?need b"
      have l2: "length hb2 = 5" using long False by (simp add: hb2_def)
      have m: "min (5 - length ?hb) (length b) = ?need" using long by simp
      have b: "push_header b ?fr = read_header hb2 ?need (?fr\<lparr>fr_header_buf := hb2\<rparr>)"
        using push_header_slow [OF _ refl refl, of ?fr b] ne l2 assms(3) unfolding m by (simp add: hb2_def)
      have five: "length a + ?need = 5 - ?k" using False by simp
      show ?thesis
      proof (cases "fr_header_buf fr = []")
        case True
        then have t: "take 5 (a @ b) = hb2" using False by (simp add: hb2_def)
        have "push_header (a @ b) fr = read_header (a @ b) (length a + ?need) (fr\<lparr>fr_header_buf := []\<rparr>)"
          using True long five push_header_fast [of fr "a @ b"] by (metis add_0 diff_zero frame_relay.surjective
              frame_relay.update_convs(8) length_append list.size(3))
        then show ?thesis
          using read_header_shift [where src = "a @ b" and b = "[]" and k = "length a" and n = ?need and fr = fr and x = "[]" and y = hb2]
            long True b t by simp
      next
        case hb: False
        have n5: "min (5 - ?k) (length (a @ b)) = length a + ?need" using long five by simp
        have "take (length a + ?need) (a @ b) = a @ take ?need b" by simp
        then have "push_header (a @ b) fr = read_header hb2 (length a + ?need) (fr\<lparr>fr_header_buf := hb2\<rparr>)"
          using push_header_slow [OF _ refl refl, of fr "a @ b"] hb l2 unfolding n5 by (simp add: hb2_def)
        then show ?thesis
          using read_header_shift [where src = hb2 and b = "[]" and k = "length a" and n = ?need and fr = fr and x = hb2 and y = hb2]
            l2 b by simp
      qed
    qed
    then show ?thesis using a p pb unfolding cut_def by auto
  qed
qed

lemma push_body_eq:
  "push_body input left fr =
     (let n = min left (length input); copy = min (fr_want_inspect fr) n;
          fr = fr\<lparr>fr_buffer := fr_buffer fr @ take copy input, fr_want_inspect := fr_want_inspect fr - copy\<rparr>
      in if left - n > 0 then (\<lparr>o_consumed = n, o_completed = None\<rparr>, fr\<lparr>fr_phase := Body (left - n)\<rparr>)
         else
           let header = (case fr_header fr of None \<Rightarrow> \<lparr>h_tag = CHR 0x00, h_body_len = 0\<rparr> | Some h \<Rightarrow> h)
           in (\<lparr>o_consumed = n,
                o_completed = Some \<lparr>c_header = header, c_complete = (length (fr_buffer fr) = h_body_len header)\<rparr>\<rparr>,
               fr\<lparr>fr_phase := Header\<rparr>))"
proof (cases "fr_want_inspect fr = 0")
  case True
  then have "fr\<lparr>fr_want_inspect := 0\<rparr> = fr" by (cases fr) simp
  then show ?thesis using True by (simp add: push_body_def Let_def)
next
  case False
  then show ?thesis by (simp add: push_body_def Let_def)
qed

lemma cut_body:
  assumes "relay_inv fr" "fr_phase fr = Body left" "a \<noteq> []" "b \<noteq> []"
  shows "cut a b fr"
proof -
  have p: "push a fr = Inr (push_body a left fr)" "push (a @ b) fr = Inr (push_body (a @ b) left fr)"
    using assms by (simp_all add: push_def)
  show ?thesis
  proof (cases "left \<le> length a")
    case True
    then have "min left (length a) = left" "min left (length (a @ b)) = left" by simp_all
    moreover have "take (min (fr_want_inspect fr) left) (a @ b) = take (min (fr_want_inspect fr) left) a"
      using True by simp
    ultimately have "push_body (a @ b) left fr = push_body a left fr"
      unfolding push_body_def Let_def by (simp only:)
    then show ?thesis using p by (simp add: cut_def)
  next
    case False
    let ?w = "fr_want_inspect fr"
    define c where "c = min ?w (length a)"
    define fr1 where "fr1 = fr\<lparr>fr_buffer := fr_buffer fr @ take c a, fr_want_inspect := ?w - c, fr_phase := Body (left - length a)\<rparr>"
    have a: "push_body a left fr = (\<lparr>o_consumed = length a, o_completed = None\<rparr>, fr1)"
      using False by (simp add: push_body_def Let_def fr1_def c_def)
    have "push b fr1 = Inr (push_body b (left - length a) fr1)" using assms(4) by (simp add: push_def fr1_def)
    moreover have "Inr (push_body (a @ b) left fr) = shift (length a) (Inr (push_body b (left - length a) fr1))"
    proof -
      have m: "min left (length (a @ b)) = length a + min (left - length a) (length b)" using False by simp
      define n2 where "n2 = min (left - length a) (length b)"
      have t: "take (min ?w (length a + n2)) (a @ b) = take c a @ take (min (?w - c) n2) b"
        and w: "?w - min ?w (length a + n2) = ?w - c - min (?w - c) n2"
        by (auto simp: c_def min_def)
      have l: "left - (length a + n2) = left - length a - n2" by simp
      show ?thesis
        unfolding push_body_eq Let_def m n2_def [symmetric] t w l
        by (cases "left - length a - n2 > 0") (simp_all add: fr1_def shift_def n2_def [symmetric])
    qed
    ultimately show ?thesis using a p unfolding cut_def by auto
  qed
qed

lemma push_cut: "relay_inv fr \<Longrightarrow> a \<noteq> [] \<Longrightarrow> b \<noteq> [] \<Longrightarrow> cut a b fr"
  using cut_header cut_body by (cases "fr_phase fr") auto

subsection \<open>Feeding read after read\<close>

fun feed_chunks :: "string list \<Rightarrow> frame_relay \<Rightarrow> decode_error + (relay_event list \<times> frame_relay)" where
  "feed_chunks [] fr = Inr ([], fr)"
| "feed_chunks (chunk # chunks) fr =
     (case feed chunk fr of
        Inl e \<Rightarrow> Inl e
      | Inr (events, fr') \<Rightarrow>
          (case feed_chunks chunks fr' of
             Inl e \<Rightarrow> Inl e
           | Inr (later, fr'') \<Rightarrow> Inr (events @ later, fr'')))"

definition feed_then :: "decode_error + (relay_event list \<times> frame_relay) \<Rightarrow> string \<Rightarrow> decode_error + (relay_event list \<times> frame_relay)" where
  "feed_then r b =
     (case r of
        Inl e \<Rightarrow> Inl e
      | Inr (events, fr') \<Rightarrow>
          (case feed b fr' of Inl e \<Rightarrow> Inl e | Inr (later, fr'') \<Rightarrow> Inr (events @ later, fr'')))"

lemma feed_Nil [simp]: "feed [] fr = Inr ([], fr)"
  by (simp add: feed.simps push_def)

lemma feed_Inl: "push input fr = Inl e \<Longrightarrow> feed input fr = Inl e"
  by (simp add: feed.simps)

lemma feed_Inr:
  assumes "push input fr = Inr (out, fr')" "relay_inv fr" "input \<noteq> []"
  shows "feed input fr = feed_then (Inr (case o_completed out of None \<Rightarrow> [] | Some c \<Rightarrow> [(c, fr_buffer fr')], fr'))
           (drop (o_consumed out) input)"
  using push_inv [OF assms(1,2)] assms by (subst feed.simps) (simp add: feed_then_def Let_def)

lemma feed_then_assoc: "feed_then (feed_then (Inr (ev, fr)) a) b =
    (case feed_then (feed a fr) b of Inl e \<Rightarrow> Inl e | Inr (later, fr'') \<Rightarrow> Inr (ev @ later, fr''))"
  by (simp add: feed_then_def split: sum.split prod.split)

lemma feed_append: "relay_inv fr \<Longrightarrow> feed (a @ b) fr = feed_then (feed a fr) b"
proof (induction "length a" arbitrary: a fr rule: less_induct)
  case less
  show ?case
  proof (cases "a = [] \<or> b = []")
    case True
    then show ?thesis by (auto simp: feed_then_def split: sum.split prod.split)
  next
    case False
    then have ne: "a \<noteq> []" "b \<noteq> []" "a @ b \<noteq> []" by simp_all
    have "cut a b fr" using push_cut less.prems ne by blast
    then consider "push (a @ b) fr = push a fr"
      | fr' where "push a fr = Inr (\<lparr>o_consumed = length a, o_completed = None\<rparr>, fr')"
          "push (a @ b) fr = shift (length a) (push b fr')"
      unfolding cut_def by blast
    then show ?thesis
    proof cases
      case 1
      show ?thesis
      proof (cases "push a fr")
        case (Inl e)
        then show ?thesis using 1 by (simp add: feed_Inl feed_then_def)
      next
        case (Inr r)
        obtain out fr' where r: "push a fr = Inr (out, fr')" using Inr by (cases r) auto
        note step = push_inv [OF r less.prems]
        have "feed (drop (o_consumed out) a @ b) fr' = feed_then (feed (drop (o_consumed out) a) fr') b"
          using step ne by (intro less.hyps) auto
        then show ?thesis
          using feed_Inr [OF r less.prems ne(1)] feed_Inr [OF 1 [unfolded r] less.prems ne(3)] step
          by (simp add: feed_then_assoc) (simp add: feed_then_def)
      qed
    next
      case (2 fr')
      note inv = push_inv [OF 2(1) less.prems, THEN conjunct1]
      have "feed a fr = Inr ([], fr')"
        using feed_Inr [OF 2(1) less.prems ne(1)] by (simp add: feed_then_def)
      moreover have "feed (a @ b) fr = feed b fr'"
      proof (cases "push b fr'")
        case (Inl e)
        then show ?thesis using 2(2) by (simp add: feed_Inl shift_def)
      next
        case (Inr r)
        obtain out fr'' where r: "push b fr' = Inr (out, fr'')" using Inr by (cases r) auto
        then have "push (a @ b) fr = Inr (\<lparr>o_consumed = length a + o_consumed out, o_completed = o_completed out\<rparr>, fr'')"
          using 2(2) by (simp add: shift_def)
        then show ?thesis
          using feed_Inr [OF r inv ne(2)] feed_Inr [OF _ less.prems ne(3)] by simp
      qed
      ultimately show ?thesis by (simp add: feed_then_def split: sum.split prod.split)
    qed
  qed
qed

lemma push_limits:
  assumes "push input fr = Inr (out, fr')"
  shows "fr_direction fr' = fr_direction fr \<and> fr_max_frame fr' = fr_max_frame fr \<and> fr_max_inspect fr' = fr_max_inspect fr"
  using assms
  by (auto simp: push_def push_header_def push_body_def read_header_def begin_body_def Let_def
      split: if_splits phase.splits sum.splits option.splits prod.splits)

lemma feed_inv:
  assumes "feed input fr = Inr (events, fr')" "relay_inv fr"
  shows "relay_inv fr' \<and> fr_max_inspect fr' = fr_max_inspect fr \<and> (\<forall>(c, held) \<in> set events. length held \<le> fr_max_inspect fr)"
  using assms
proof (induction "length input" arbitrary: input fr events rule: less_induct)
  case less
  show ?case
  proof (cases "input = []")
    case True
    then show ?thesis using less.prems by simp
  next
    case False
    obtain out fr1 where p: "push input fr = Inr (out, fr1)"
      using less.prems(1) by (cases "push input fr") (auto simp: feed_Inl)
    note inv = push_inv [OF p less.prems(2)] and lim = push_limits [OF p]
    let ?now = "case o_completed out of None \<Rightarrow> [] | Some c \<Rightarrow> [(c, fr_buffer fr1)]"
    obtain later where later: "feed (drop (o_consumed out) input) fr1 = Inr (later, fr')" "events = ?now @ later"
      using less.prems(1) feed_Inr [OF p less.prems(2) False] by (auto simp: feed_then_def split: sum.splits prod.splits)
    have "relay_inv fr' \<and> fr_max_inspect fr' = fr_max_inspect fr1 \<and> (\<forall>(c, held) \<in> set later. length held \<le> fr_max_inspect fr1)"
      using inv False later(1) by (intro less.hyps) auto
    moreover have "length (fr_buffer fr1) \<le> fr_max_inspect fr1" using inv by (simp add: relay_inv_def)
    ultimately show ?thesis using lim later(2) by (auto split: option.splits)
  qed
qed

lemma feed_chunks_concat:
  assumes "relay_inv fr"
  shows "feed_chunks chunks fr = feed (concat chunks) fr"
  using assms
proof (induction chunks arbitrary: fr)
  case (Cons chunk chunks)
  show ?case
  proof (cases "feed chunk fr")
    case (Inl e)
    then show ?thesis using feed_append [OF Cons.prems] by (simp add: feed_then_def)
  next
    case (Inr r)
    then obtain ev fr' where r: "feed chunk fr = Inr (ev, fr')" by (cases r) auto
    have "relay_inv fr'" using feed_inv [OF r Cons.prems] by simp
    then show ?thesis using feed_append [OF Cons.prems] Cons.IH r by (simp add: feed_then_def)
  qed
qed simp

lemma with_limits_inv [simp]: "relay_inv (with_limits d max_frame max_inspect)"
  by (simp add: relay_inv_def with_limits_def)

subsection \<open>Whole messages\<close>

definition frame_fits :: "nat \<Rightarrow> frame \<Rightarrow> bool" where
  "frame_fits max_frame f = (len_prefix + length (f_body f) \<le> min max_frame u32_max)"

definition frame_event :: "direction \<Rightarrow> nat \<Rightarrow> frame \<Rightarrow> relay_event" where
  "frame_event d max_inspect f =
     (let budget = inspect_budget d (f_tag f) (length (f_body f)) max_inspect
      in (\<lparr>c_header = \<lparr>h_tag = f_tag f, h_body_len = length (f_body f)\<rparr>, c_complete = (budget = length (f_body f))\<rparr>,
          take budget (f_body f)))"

definition at_rest :: "direction \<Rightarrow> nat \<Rightarrow> nat \<Rightarrow> frame_relay \<Rightarrow> bool" where
  "at_rest d max_frame max_inspect fr =
     (relay_inv fr \<and> fr_phase fr = Header \<and> fr_header_buf fr = [] \<and> fr_direction fr = d \<and>
      fr_max_frame fr = max_frame \<and> fr_max_inspect fr = max_inspect)"

lemma feed_header:
  assumes "at_rest d max_frame max_inspect fr" "frame_fits max_frame f"
  shows "push (tagged [] (f_tag f) (f_body f)) fr =
    Inr (begin_body \<lparr>h_tag = f_tag f, h_body_len = length (f_body f)\<rparr> 5 fr)"
proof -
  let ?w = "tagged [] (f_tag f) (f_body f)"
  have l: "5 \<le> length ?w" by (simp add: tagged_def)
  have "decode_header ?w (fr_max_frame fr) = Inr (Some \<lparr>h_tag = f_tag f, h_body_len = length (f_body f)\<rparr>)"
    using decode_header_tagged [of "f_body f" max_frame "f_tag f"] decode_header_take5 [OF l] assms
    by (simp add: at_rest_def frame_fits_def)
  moreover have "?w \<noteq> []" by (simp add: tagged_def)
  ultimately show ?thesis using assms(1) l
    by (simp add: push_def at_rest_def push_header_fast read_header_def)
qed

lemma feed_frame:
  assumes "at_rest d max_frame max_inspect fr" "frame_fits max_frame f"
  shows "\<exists>fr'. feed (tagged [] (f_tag f) (f_body f)) fr = Inr ([frame_event d max_inspect f], fr') \<and> at_rest d max_frame max_inspect fr'"
proof -
  let ?w = "tagged [] (f_tag f) (f_body f)" and ?h = "\<lparr>h_tag = f_tag f, h_body_len = length (f_body f)\<rparr>"
  obtain out fr1 where b: "begin_body ?h 5 fr = (out, fr1)" by force
  have inv: "relay_inv fr" and ne: "?w \<noteq> []" using assms(1) by (simp_all add: at_rest_def tagged_def)
  note p = feed_header [OF assms, unfolded b]
  note step = feed_Inr [OF p inv ne] and inv1 = push_inv [OF p inv, THEN conjunct1]
  have d: "drop 5 ?w = f_body f" by (simp add: tagged_def)
  show ?thesis
  proof (cases "f_body f = []")
    case True
    then show ?thesis using step b inv1 assms(1) d
      by (auto simp: begin_body_def feed_then_def at_rest_def frame_event_def inspect_budget_def split: inspect.splits)
  next
    case False
    define budget where "budget = inspect_budget d (f_tag f) (length (f_body f)) max_inspect"
    have out: "out = \<lparr>o_consumed = 5, o_completed = None\<rparr>"
      and fr1: "fr1 = fr\<lparr>fr_header := Some ?h, fr_header_buf := [], fr_want_inspect := budget, fr_buffer := [],
                        fr_phase := Body (length (f_body f))\<rparr>"
      using b False assms(1) by (simp_all add: begin_body_def budget_def at_rest_def)
    have le: "budget \<le> length (f_body f)" using budget_le by (simp add: budget_def)
    define fr2 where "fr2 = fr1\<lparr>fr_buffer := take budget (f_body f), fr_want_inspect := 0, fr_phase := Header\<rparr>"
    have p2: "push (f_body f) fr1 =
        Inr (\<lparr>o_consumed = length (f_body f), o_completed = Some \<lparr>c_header = ?h, c_complete = (budget = length (f_body f))\<rparr>\<rparr>, fr2)"
      using False le by (simp add: push_def push_body_eq fr1 fr2_def Let_def min_def)
    have "at_rest d max_frame max_inspect fr2"
      using push_inv [OF p2 inv1] assms(1) by (simp add: at_rest_def fr2_def fr1)
    then show ?thesis
      using step feed_Inr [OF p2 inv1 False] d
      by (simp add: out feed_then_def frame_event_def budget_def [symmetric]) (simp add: fr2_def)
  qed
qed

lemma feed_frames:
  assumes "at_rest d max_frame max_inspect fr" "\<forall>f\<in>set fs. frame_fits max_frame f"
  shows "\<exists>fr'. feed (concat (map (\<lambda>f. tagged [] (f_tag f) (f_body f)) fs)) fr = Inr (map (frame_event d max_inspect) fs, fr') \<and>
           at_rest d max_frame max_inspect fr'"
  using assms
proof (induction fs arbitrary: fr)
  case (Cons f fs)
  obtain fr1 where f: "feed (tagged [] (f_tag f) (f_body f)) fr = Inr ([frame_event d max_inspect f], fr1)" "at_rest d max_frame max_inspect fr1"
    using feed_frame Cons.prems by force
  have "relay_inv fr" using Cons.prems(1) by (simp add: at_rest_def)
  then show ?case
    using Cons.IH [OF f(2)] Cons.prems(2) f(1) by (auto simp: feed_append feed_then_def)
qed auto

lemma with_limits_at_rest: "at_rest d max_frame max_inspect (with_limits d max_frame max_inspect)"
  by (simp add: at_rest_def relay_inv_def with_limits_def)

text \<open>A query of two bytes, cut inside its header.\<close>

definition example_frame :: frame where
  "example_frame = \<lparr>f_tag = CHR ''Q'', f_body = [CHR ''x'', CHR 0x00]\<rparr>"

definition example_chunks :: "string list" where
  "example_chunks = [''Q'', [CHR 0x00, CHR 0x00], [CHR 0x00, CHR 0x06, CHR ''x'', CHR 0x00]]"

lemma example_wire: "concat example_chunks = concat (map (\<lambda>f. tagged [] (f_tag f) (f_body f)) [example_frame])"
proof -
  have "be 4 6 = [CHR 0x00, CHR 0x00, CHR 0x00, CHR 0x06]" by (simp add: be_def upt_conv_Cons ascii_eval)
  moreover have "try_u32 6 = 6" by (simp add: try_u32_exact u32_max_def)
  ultimately show ?thesis by (simp add: tagged_def len_prefix_def example_frame_def example_chunks_def)
qed

lemma example_fits: "\<forall>f\<in>set [example_frame]. frame_fits 100 f"
  by (simp add: frame_fits_def len_prefix_def u32_max_def example_frame_def)

text \<open>
  C22. Whatever way the bytes of a sequence of messages are cut into reads, the relay reports exactly the
  messages that were encoded, in order, each with its header, the inspected bytes the policy and the
  inspect cap allow (the front of its body) and the flag that says whether those are all of it; it ends
  between messages with no partial header left.
\<close>

theorem relay_streams_frames:
  assumes "\<forall>f\<in>set fs. frame_fits max_frame f"
    and "concat chunks = concat (map (\<lambda>f. tagged [] (f_tag f) (f_body f)) fs)"
  shows "\<exists>fr'. feed_chunks chunks (with_limits d max_frame max_inspect) = Inr (map (frame_event d max_inspect) fs, fr') \<and>
           fr_phase fr' = Header \<and> fr_header_buf fr' = []"
proof -
  from feed_frames [OF with_limits_at_rest assms(1)] show ?thesis
    unfolding feed_chunks_concat [OF with_limits_inv] assms(2) by (auto simp: at_rest_def)
qed

theorem relay_streams_frames_witness:
  "\<exists>fr'. feed_chunks example_chunks (with_limits Frontend 100 1) = Inr (map (frame_event Frontend 1) [example_frame], fr') \<and>
     fr_phase fr' = Header \<and> fr_header_buf fr' = []"
  by (rule relay_streams_frames [OF example_fits example_wire])

text \<open>
  Whatever a peer sends, well formed or not, the relay never holds more than its inspect cap and a
  partial header of four bytes, and never shows a caller more than the cap.
\<close>

theorem relay_memory_bounded:
  assumes "feed_chunks chunks (with_limits d max_frame max_inspect) = Inr (events, fr)"
  shows "buffered fr \<le> max_inspect + len_prefix \<and> (\<forall>(c, held) \<in> set events. length held \<le> max_inspect)"
proof -
  have "feed (concat chunks) (with_limits d max_frame max_inspect) = Inr (events, fr)"
    using assms by (simp add: feed_chunks_concat)
  from feed_inv [OF this with_limits_inv] show ?thesis
    by (auto simp: relay_inv_def buffered_def with_limits_def len_prefix_def split: phase.splits)
qed

theorem relay_memory_bounded_witness:
  "\<exists>events fr. feed_chunks example_chunks (with_limits Frontend 100 1) = Inr (events, fr) \<and>
     buffered fr \<le> 1 + len_prefix \<and> (\<forall>(c, held) \<in> set events. length held \<le> 1)"
proof -
  obtain events fr where "feed_chunks example_chunks (with_limits Frontend 100 1) = Inr (events, fr)"
    using feed_frames [OF with_limits_at_rest example_fits] unfolding feed_chunks_concat [OF with_limits_inv] example_wire by blast
  with relay_memory_bounded [OF this] show ?thesis by blast
qed

end
