(* ===== verification/Pump.thy ===== *)
theory Pump
  imports Session_Relay Frame_Relay Client_Error
begin

text \<open>
  \<^verbatim>\<open>crates/pgprox-session/src/flush.rs\<close> and the response pump of \<^verbatim>\<open>bin/pgprox/src/serve.rs\<close>: copying the
  answer of the server back to the client, hiding the answers to frames the proxy sent itself, keeping a
  copy for the cache, and knowing when the answer is over. The properties say that the client sees the
  answer of the server and nothing else, to the end and not beyond it, and that a \<open>Flush\<close> is answered
  exactly when everything it asked for has arrived.
\<close>

subsection \<open>What the server owes\<close>

datatype owed = OwedParse | OwedBind | OwedClose | OwedDescribe | OwedExecute

type_synonym outstanding = "owed list"

definition sent :: "frontend_message \<Rightarrow> outstanding \<Rightarrow> outstanding" where
  "sent message q =
     (case message of
        Parse _ _ \<Rightarrow> q @ [OwedParse]
      | Bind _ _ \<Rightarrow> q @ [OwedBind]
      | Close _ _ \<Rightarrow> q @ [OwedClose]
      | Describe _ _ \<Rightarrow> q @ [OwedDescribe]
      | Execute _ _ \<Rightarrow> q @ [OwedExecute]
      | _ \<Rightarrow> q)"

fun completes :: "owed \<Rightarrow> char \<Rightarrow> bool" where
  "completes OwedParse tag = (tag = tag_parse_complete)"
| "completes OwedBind tag = (tag = tag_bind_complete)"
| "completes OwedClose tag = (tag = tag_close_complete)"
| "completes OwedDescribe tag = (tag = tag_row_description \<or> tag = tag_no_data)"
| "completes OwedExecute tag =
     (tag = tag_command_complete \<or> tag = tag_portal_suspended \<or> tag = tag_empty_query_response)"

definition discharge :: "char \<Rightarrow> outstanding \<Rightarrow> outstanding" where
  "discharge tag q = (case q of [] \<Rightarrow> [] | head # rest \<Rightarrow> if completes head tag then rest else q)"

definition received :: "char \<Rightarrow> outstanding \<Rightarrow> outstanding" where
  "received tag q =
     (if tag = tag_error_response \<or> tag = tag_ready_for_query then [] else discharge tag q)"

definition settled :: "outstanding \<Rightarrow> bool" where
  "settled q = (q = [])"

subsection \<open>What the pump carries\<close>

text \<open>A recording for the cache; the key is the cache's business.\<close>

record 'k recording =
  rec_key :: 'k
  rec_frames :: string
  rec_failed :: bool

record 'k pumping =
  pm_swallow :: nat
  pm_owed :: outstanding
  pm_recording :: "'k recording option"

definition pumping_default :: "'k pumping" where
  "pumping_default = \<lparr>pm_swallow = 0, pm_owed = [], pm_recording = None\<rparr>"

definition swallow_one :: "char \<Rightarrow> 'k pumping \<Rightarrow> bool \<times> 'k pumping" where
  "swallow_one tag p =
     (if (tag = tag_parse_complete \<or> tag = tag_close_complete) \<and> pm_swallow p > 0
      then (True, p\<lparr>pm_swallow := pm_swallow p - 1\<rparr>) else (False, p))"

definition belongs_in_payload :: "char \<Rightarrow> bool" where
  "belongs_in_payload tag =
     (tag = tag_row_description \<or> tag = tag_data_row \<or> tag = tag_command_complete \<or> tag = tag_empty_query_response)"

text \<open>The recording after one frame, and whether it was given up.\<close>

definition record_frame :: "nat \<Rightarrow> char \<Rightarrow> string \<Rightarrow> 'k recording option \<Rightarrow> 'k recording option \<times> bool" where
  "record_frame max_bytes tag body recording =
     (case recording of
        None \<Rightarrow> (None, False)
      | Some live \<Rightarrow>
          let live = (if belongs_in_payload tag then live\<lparr>rec_frames := tagged (rec_frames live) tag body\<rparr> else live);
              live = (if tag = tag_error_response then live\<lparr>rec_failed := True\<rparr> else live)
          in if length (rec_frames live) > max_bytes then (None, True) else (Some live, False))"

definition wanted_body :: "char \<Rightarrow> nat \<Rightarrow> bool \<Rightarrow> nat" where
  "wanted_body tag body_len recording =
     (if recording then body_len else inspect_budget Backend tag body_len default_max_inspect)"

subsection \<open>One frame of the answer\<close>

datatype pump_next = Continue | Copying | Return bool

record 'k pumped =
  pd_client :: "frame list"
  pd_pinned :: "pin_reason option"
  pd_abandoned :: bool
  pd_relay :: relay
  pd_pumping :: "'k pumping"
  pd_next :: pump_next

text \<open>The frame is passed on without being read: the first half of the loop body.\<close>

definition stream_frame :: "bool \<Rightarrow> frame \<Rightarrow> relay \<Rightarrow> 'k pumping \<Rightarrow> 'k pumped" where
  "stream_frame flushing f r p =
     (let tag = f_tag f;
          (server, r) = on_server (ServerOpaque tag) r;
          (swallowed, p) = swallow_one tag p;
          p = p\<lparr>pm_owed := received tag (pm_owed p)\<rparr>
      in \<lparr>pd_client = (if swallowed then [] else [f]), pd_pinned = so_pinned server, pd_abandoned = False, pd_relay = r, pd_pumping = p,
          pd_next = (if flushing \<and> settled (pm_owed p) then Return False else Continue)\<rparr>)"

fun is_ready :: "backend_message \<Rightarrow> bool" where
  "is_ready (ReadyForQuery _) = True"
| "is_ready _ = False"

definition decode_or_opaque :: "char \<Rightarrow> string \<Rightarrow> backend_message" where
  "decode_or_opaque tag body =
     (case decode_backend \<lparr>f_tag = tag, f_body = body\<rparr> of Inl _ \<Rightarrow> ServerOpaque tag | Inr m \<Rightarrow> m)"

text \<open>The frame is read first, as far as it is wanted.\<close>

definition buffer_frame :: "nat \<Rightarrow> bool \<Rightarrow> frame \<Rightarrow> relay \<Rightarrow> 'k pumping \<Rightarrow> 'k pumped" where
  "buffer_frame max_bytes flushing f r p =
     (let tag = f_tag f;
          body = take (wanted_body tag (length (f_body f)) (pm_recording p \<noteq> None)) (f_body f);
          decoded = decode_or_opaque tag body;
          (server, r) = on_server decoded r;
          (swallowed, p) = swallow_one tag p
      in if swallowed then
           \<lparr>pd_client = [], pd_pinned = so_pinned server, pd_abandoned = False, pd_relay = r, pd_pumping = p, pd_next = Continue\<rparr>
         else
           let (recording, abandoned) = record_frame max_bytes tag body (pm_recording p);
               p = p\<lparr>pm_recording := recording\<rparr>;
               q = p\<lparr>pm_owed := received tag (pm_owed p)\<rparr>;
               out = (\<lambda>p next. \<lparr>pd_client = [f], pd_pinned = so_pinned server, pd_abandoned = abandoned, pd_relay = r,
                               pd_pumping = p, pd_next = next\<rparr>)
           in if decoded = CopyInResponse \<or> decoded = CopyBothResponse then out p Copying
              else if is_ready decoded then out q (Return (so_release server))
              else out q (if flushing \<and> settled (pm_owed q) then Return False else Continue))"

definition pump_frame :: "nat \<Rightarrow> bool \<Rightarrow> frame \<Rightarrow> relay \<Rightarrow> 'k pumping \<Rightarrow> 'k pumped" where
  "pump_frame max_bytes flushing f r p =
     (if inspect_policy Backend (f_tag f) = InspectNone \<and> pm_recording p = None
      then stream_frame flushing f r p else buffer_frame max_bytes flushing f r p)"

subsection \<open>The pump\<close>

text \<open>
  The data of a copy: what the client sends until the frame that ends it, and what it sends after that,
  unless the client goes away first.
\<close>

fun copying :: "frame list \<Rightarrow> frame list \<times> frame list option" where
  "copying [] = ([], None)"
| "copying (f # fs) =
     (if f_tag f = tag_copy_data then (case copying fs of (moved, rest) \<Rightarrow> (f # moved, rest)) else ([f], Some fs))"

datatype pump_end = Returned bool | Refused client_error | Disconnected

record 'k pump_result =
  pr_client :: "frame list"
  pr_server :: "frame list"
  pr_pinned :: "pin_reason list"
  pr_abandoned :: nat
  pr_relay :: relay
  pr_pumping :: "'k pumping"
  pr_end :: pump_end
  pr_unread :: "(nat \<times> frame) list"

definition pumped_then :: "'k pumped \<Rightarrow> frame list \<Rightarrow> 'k pump_result \<Rightarrow> 'k pump_result" where
  "pumped_then d moved r =
     r\<lparr>pr_client := pd_client d @ pr_client r, pr_server := moved @ pr_server r,
       pr_pinned := (case pd_pinned d of None \<Rightarrow> pr_pinned r | Some reason \<Rightarrow> reason # pr_pinned r),
       pr_abandoned := (if pd_abandoned d then Suc (pr_abandoned r) else pr_abandoned r)\<rparr>"

definition pump_stop :: "pump_end \<Rightarrow> (nat \<times> frame) list \<Rightarrow> relay \<Rightarrow> 'k pumping \<Rightarrow> 'k pump_result" where
  "pump_stop stop unread r p =
     \<lparr>pr_client = [], pr_server = [], pr_pinned = [], pr_abandoned = 0, pr_relay = r, pr_pumping = p, pr_end = stop, pr_unread = unread\<rparr>"

text \<open>
  The loop over what the server sends, each frame with the limit on a recording that is in force when it
  arrives, and over what the client sends while a copy is running.
\<close>

fun pump_loop :: "bool \<Rightarrow> (nat \<times> frame) list \<Rightarrow> frame list \<Rightarrow> relay \<Rightarrow> 'k pumping \<Rightarrow> 'k pump_result" where
  "pump_loop flushing [] client r p = pump_stop (Refused UpstreamClosed) [] r p"
| "pump_loop flushing ((max_bytes, f) # arrivals) client r p =
     (let d = pump_frame max_bytes flushing f r p
      in case pd_next d of
           Return b \<Rightarrow> pumped_then d [] (pump_stop (Returned b) arrivals (pd_relay d) (pd_pumping d))
         | Continue \<Rightarrow> pumped_then d [] (pump_loop flushing arrivals client (pd_relay d) (pd_pumping d))
         | Copying \<Rightarrow>
             (case copying client of
                (moved, None) \<Rightarrow> pumped_then d moved (pump_stop Disconnected arrivals (pd_relay d) (pd_pumping d))
              | (moved, Some client') \<Rightarrow>
                  pumped_then d moved (pump_loop flushing arrivals client' (pd_relay d) (pd_pumping d))))"

definition pump :: "frontend_message \<Rightarrow> (nat \<times> frame) list \<Rightarrow> frame list \<Rightarrow> relay \<Rightarrow> 'k pumping \<Rightarrow> 'k pump_result" where
  "pump asked arrivals client r p =
     (let flushing = (asked = Flush)
      in if flushing \<and> settled (pm_owed p) then pump_stop (Returned False) arrivals r p
         else pump_loop flushing arrivals client r p)"

subsection \<open>What one frame does\<close>

definition completion :: "frame \<Rightarrow> bool" where
  "completion f = (f_tag f = tag_parse_complete \<or> f_tag f = tag_close_complete)"

text \<open>The frames without the first \<open>n\<close> completions.\<close>

fun strip :: "nat \<Rightarrow> frame list \<Rightarrow> frame list" where
  "strip n [] = []"
| "strip n (f # fs) = (if completion f \<and> n > 0 then strip (n - 1) fs else f # strip n fs)"

lemma field_then_ready:
  "field_then e x k = Inr m \<Longrightarrow> \<exists>a r. x = Inr (a, r) \<and> k a r = Inr m"
  by (auto simp: field_then_def split: sum.splits prod.splits)

lemma decode_backend_kind:
  "decode_backend f = Inr (ReadyForQuery s) \<Longrightarrow> f_tag f = tag_ready_for_query"
  "decode_backend f = Inr CopyInResponse \<longleftrightarrow> f_tag f = tag_copy_in_response"
  "decode_backend f = Inr CopyBothResponse \<longleftrightarrow> f_tag f = tag_copy_both_response"
  by (auto simp: decode_backend_def Let_def dest!: field_then_ready split: if_splits sum.splits)

text \<open>The part of a frame that is read, and the message the relay is told of.\<close>

definition read_part :: "frame \<Rightarrow> 'k pumping \<Rightarrow> string" where
  "read_part f p = take (wanted_body (f_tag f) (length (f_body f)) (pm_recording p \<noteq> None)) (f_body f)"

definition streams :: "frame \<Rightarrow> 'k pumping \<Rightarrow> bool" where
  "streams f p = (inspect_policy Backend (f_tag f) = InspectNone \<and> pm_recording p = None)"

definition seen :: "frame \<Rightarrow> 'k pumping \<Rightarrow> backend_message" where
  "seen f p = (if streams f p then ServerOpaque (f_tag f) else decode_or_opaque (f_tag f) (read_part f p))"

definition swallowed :: "frame \<Rightarrow> 'k pumping \<Rightarrow> bool" where
  "swallowed f p = (completion f \<and> pm_swallow p > 0)"

lemma swallow_one_frame:
  "swallow_one (f_tag f) p = (swallowed f p, if swallowed f p then p\<lparr>pm_swallow := pm_swallow p - 1\<rparr> else p)"
  by (auto simp: swallow_one_def swallowed_def completion_def)

lemma buffer_frame_eq:
  "\<not> streams f p \<Longrightarrow> buffer_frame mb fl f r p =
     (let server = fst (on_server (seen f p) r); r' = snd (on_server (seen f p) r) in
      if swallowed f p then
        \<lparr>pd_client = [], pd_pinned = so_pinned server, pd_abandoned = False, pd_relay = r',
         pd_pumping = p\<lparr>pm_swallow := pm_swallow p - 1\<rparr>, pd_next = Continue\<rparr>
      else
        let rec = record_frame mb (f_tag f) (read_part f p) (pm_recording p);
            p' = p\<lparr>pm_recording := fst rec\<rparr>; q = p'\<lparr>pm_owed := received (f_tag f) (pm_owed p)\<rparr>;
            copies = (seen f p = CopyInResponse \<or> seen f p = CopyBothResponse)
        in \<lparr>pd_client = [f], pd_pinned = so_pinned server, pd_abandoned = snd rec, pd_relay = r',
            pd_pumping = (if copies then p' else q),
            pd_next = (if copies then Copying else if is_ready (seen f p) then Return (so_release server)
                       else if fl \<and> settled (pm_owed q) then Return False else Continue)\<rparr>)"
  unfolding buffer_frame_def Let_def swallow_one_frame read_part_def [symmetric]
  by (simp add: seen_def split_def)

lemma pump_frame_eq:
  "pump_frame mb fl f r p = (if streams f p then stream_frame fl f r p else buffer_frame mb fl f r p)"
  by (simp add: pump_frame_def streams_def)

lemma stream_frame_eq:
  "streams f p \<Longrightarrow> stream_frame fl f r p =
     \<lparr>pd_client = (if swallowed f p then [] else [f]), pd_pinned = so_pinned (fst (on_server (seen f p) r)), pd_abandoned = False,
      pd_relay = snd (on_server (seen f p) r),
      pd_pumping = p\<lparr>pm_swallow := (if swallowed f p then pm_swallow p - 1 else pm_swallow p), pm_owed := received (f_tag f) (pm_owed p)\<rparr>,
      pd_next = (if fl \<and> settled (received (f_tag f) (pm_owed p)) then Return False else Continue)\<rparr>"
  unfolding stream_frame_def Let_def swallow_one_frame
  by (simp add: seen_def split_def)

lemma pump_frame_client:
  "pd_client (pump_frame mb fl f r p) = (if swallowed f p then [] else [f])"
  "pm_swallow (pd_pumping (pump_frame mb fl f r p)) = (if completion f then pm_swallow p - 1 else pm_swallow p)"
  "pd_relay (pump_frame mb fl f r p) = snd (on_server (seen f p) r)"
  by (auto simp: pump_frame_eq stream_frame_eq buffer_frame_eq Let_def swallowed_def)

lemma server_held: "rl_held (snd (on_server m r)) = rl_held r"
  by (auto simp: on_server_def Let_def split: prod.split)

definition asks_copy :: "frame \<Rightarrow> bool" where
  "asks_copy f = (f_tag f = tag_copy_in_response \<or> f_tag f = tag_copy_both_response)"

definition says_ready :: "tx_status \<Rightarrow> frame \<Rightarrow> bool" where
  "says_ready status f = (f_tag f = tag_ready_for_query \<and> f_body f \<noteq> [] \<and> tx_from_byte (hd (f_body f)) = Inr status)"

lemma decode_or_opaque_kind:
  "tag \<noteq> tag_ready_for_query \<Longrightarrow> \<not> is_ready (decode_or_opaque tag body)"
  "decode_or_opaque tag body = CopyInResponse \<longleftrightarrow> tag = tag_copy_in_response"
  "decode_or_opaque tag body = CopyBothResponse \<longleftrightarrow> tag = tag_copy_both_response"
proof -
  let ?f = "\<lparr>f_tag = tag, f_body = body\<rparr>"
  show "tag \<noteq> tag_ready_for_query \<Longrightarrow> \<not> is_ready (decode_or_opaque tag body)"
    using decode_backend_kind(1) [of ?f]
    by (auto simp: decode_or_opaque_def split: sum.split elim!: is_ready.elims)
  show "decode_or_opaque tag body = CopyInResponse \<longleftrightarrow> tag = tag_copy_in_response"
    using decode_backend_kind(2) [of ?f] by (auto simp: decode_or_opaque_def split: sum.split)
  show "decode_or_opaque tag body = CopyBothResponse \<longleftrightarrow> tag = tag_copy_both_response"
    using decode_backend_kind(3) [of ?f] by (auto simp: decode_or_opaque_def split: sum.split)
qed

lemma seen_kind:
  "f_tag f \<noteq> tag_ready_for_query \<Longrightarrow> \<not> is_ready (seen f p)"
  "seen f p = CopyInResponse \<or> seen f p = CopyBothResponse \<longleftrightarrow> asks_copy f"
  by (auto simp: seen_def decode_or_opaque_kind asks_copy_def streams_def inspect_policy_def)

lemma seen_ready:
  assumes "says_ready status f"
  shows "seen f p = ReadyForQuery status" "\<not> streams f p"
proof -
  obtain b rest where f: "f_tag f = tag_ready_for_query" "f_body f = b # rest" "tx_from_byte b = Inr status"
    using assms by (cases "f_body f") (auto simp: says_ready_def)
  then show n: "\<not> streams f p" by (simp add: streams_def inspect_policy_def)
  have "wanted_body (f_tag f) (length (f_body f)) b' > 0" for b'
    by (simp add: f wanted_body_def inspect_budget_def inspect_policy_def default_max_inspect_def)
  then obtain k where "wanted_body (f_tag f) (length (f_body f)) (pm_recording p \<noteq> None) = Suc k"
    using gr0_implies_Suc by blast
  then have "read_part f p = b # take k rest" unfolding read_part_def by (simp add: f)
  then show "seen f p = ReadyForQuery status"
    using n f by (simp add: seen_def decode_or_opaque_def decode_backend_def field_then_def read_u8_def reader_new_def)
qed

lemma ready_release:
  "so_release (fst (on_server (ReadyForQuery status) r)) = (rl_held r \<noteq> None \<and> status = Idle \<and> \<not> is_pinned (rl_pin r))"
  "rl_pin (snd (on_server (ReadyForQuery status) r)) = rl_pin r"
  by (auto simp: on_server_def is_releasable_def hold_reason_of_def Let_def split: tx_status.split)

subsection \<open>The answer reaches the client\<close>

text \<open>The copies of an answer, one after the other.\<close>

fun copy_many :: "nat \<Rightarrow> frame list \<Rightarrow> frame list \<times> frame list option" where
  "copy_many 0 client = ([], Some client)"
| "copy_many (Suc k) client =
     (case copying client of
        (moved, None) \<Rightarrow> (moved, None)
      | (moved, Some rest) \<Rightarrow> (case copy_many k rest of (moved', rest') \<Rightarrow> (moved @ moved', rest')))"

lemma pump_frame_next:
  assumes "f_tag f \<noteq> tag_ready_for_query"
  shows "pd_next (pump_frame mb False f r p) = (if asks_copy f then Copying else Continue)"
proof -
  have "asks_copy f \<Longrightarrow> \<not> streams f p \<and> \<not> swallowed f p"
    by (auto simp: asks_copy_def streams_def inspect_policy_def swallowed_def completion_def)
  then show ?thesis
    using seen_kind [of f p] assms by (auto simp: pump_frame_eq stream_frame_eq buffer_frame_eq Let_def)
qed

lemma pump_frame_ready:
  assumes "says_ready status f"
  shows "pd_next (pump_frame mb fl f r p) = Return (rl_held r \<noteq> None \<and> status = Idle \<and> \<not> is_pinned (rl_pin r))"
    "pd_relay (pump_frame mb fl f r p) = snd (on_server (ReadyForQuery status) r)"
    "pm_owed (pd_pumping (pump_frame mb fl f r p)) = []" "\<not> swallowed f p" "\<not> completion f"
proof -
  have f: "f_tag f = tag_ready_for_query" using assms by (simp add: says_ready_def)
  then show s: "\<not> swallowed f p" "\<not> completion f" by (simp_all add: swallowed_def completion_def)
  then show "pd_next (pump_frame mb fl f r p) = Return (rl_held r \<noteq> None \<and> status = Idle \<and> \<not> is_pinned (rl_pin r))"
    "pd_relay (pump_frame mb fl f r p) = snd (on_server (ReadyForQuery status) r)"
    "pm_owed (pd_pumping (pump_frame mb fl f r p)) = []"
    using seen_ready [OF assms, of p] f ready_release(1) [of status r]
    by (simp_all add: pump_frame_eq buffer_frame_eq Let_def received_def)
qed

lemma pumped_then_simps [simp]:
  "pr_client (pumped_then d moved r) = pd_client d @ pr_client r" "pr_server (pumped_then d moved r) = moved @ pr_server r"
  "pr_relay (pumped_then d moved r) = pr_relay r" "pr_pumping (pumped_then d moved r) = pr_pumping r"
  "pr_end (pumped_then d moved r) = pr_end r" "pr_unread (pumped_then d moved r) = pr_unread r"
  by (simp_all add: pumped_then_def)

lemma pump_stop_simps [simp]:
  "pr_client (pump_stop e u r p) = []" "pr_server (pump_stop e u r p) = []" "pr_relay (pump_stop e u r p) = r"
  "pr_pumping (pump_stop e u r p) = p" "pr_end (pump_stop e u r p) = e" "pr_unread (pump_stop e u r p) = u"
  by (simp_all add: pump_stop_def)

definition answered :: "nat \<Rightarrow> frame list \<Rightarrow> frame list \<Rightarrow> frame list \<Rightarrow> tx_status \<Rightarrow> route_target option \<Rightarrow> 'k pump_result \<Rightarrow> bool" where
  "answered swallow answer moved later status held res =
     (pr_client res = strip swallow answer \<and> pr_server res = moved \<and> map snd (pr_unread res) = later \<and>
      pr_end res = Returned (held \<noteq> None \<and> status = Idle \<and> \<not> is_pinned (rl_pin (pr_relay res))) \<and>
      settled (pm_owed (pr_pumping res)) \<and> pm_swallow (pr_pumping res) = swallow - length (filter completion answer))"

lemma pump_loop_answer:
  assumes "map snd arrivals = answer @ z # later" "list_all (\<lambda>f. f_tag f \<noteq> tag_ready_for_query) answer" "says_ready status z"
    and "copy_many (length (filter asks_copy answer)) client = (moved, Some client')"
  shows "answered (pm_swallow p) (answer @ [z]) moved later status (rl_held r) (pump_loop False arrivals client r p)"
  using assms
proof (induction answer arbitrary: arrivals client r p moved)
  case Nil
  then obtain mb rest where a: "arrivals = (mb, z) # rest" "map snd rest = later" by (cases arrivals) auto
  then show ?case
    using Nil.prems(4)
    by (auto simp: answered_def pump_frame_ready [OF Nil.prems(3)] seen_ready [OF Nil.prems(3)] ready_release settled_def pump_frame_client Let_def)
next
  case (Cons f answer)
  then obtain mb rest where a: "arrivals = (mb, f) # rest" "map snd rest = answer @ z # later" by (cases arrivals) auto
  let ?d = "pump_frame mb False f r p"
  have n: "pd_next ?d = (if asks_copy f then Copying else Continue)" using Cons.prems(2) by (intro pump_frame_next) simp
  have c: "pd_client ?d @ strip (pm_swallow (pd_pumping ?d)) xs = strip (pm_swallow p) (f # xs)"
    "pm_swallow (pd_pumping ?d) - length (filter completion xs) = pm_swallow p - length (filter completion (f # xs))" for xs
    by (auto simp: pump_frame_client swallowed_def)
  have step: "answered (pm_swallow p) (f # answer @ [z]) (m @ m') later status (rl_held r) (pumped_then ?d m res)"
    if "answered (pm_swallow (pd_pumping ?d)) (answer @ [z]) m' later status (rl_held (pd_relay ?d)) res" for m m' and res :: "'a pump_result"
    using that c [of "answer @ [z]"] by (simp add: answered_def pump_frame_client(3) server_held)
  show ?case
  proof (cases "asks_copy f")
    case True
    then obtain m rest' m' where m: "copying client = (m, Some rest')" "moved = m @ m'"
        "copy_many (length (filter asks_copy answer)) rest' = (m', Some client')"
      using Cons.prems(4) by (auto split: prod.splits option.splits)
    have "answered (pm_swallow (pd_pumping ?d)) (answer @ [z]) m' later status (rl_held (pd_relay ?d))
        (pump_loop False rest rest' (pd_relay ?d) (pd_pumping ?d))"
      using Cons.IH [OF a(2) _ Cons.prems(3) m(3)] Cons.prems(2) by simp
    then show ?thesis using step [of m' _ m] n True m by (simp add: a Let_def)
  next
    case False
    then have "answered (pm_swallow (pd_pumping ?d)) (answer @ [z]) moved later status (rl_held (pd_relay ?d))
        (pump_loop False rest client (pd_relay ?d) (pd_pumping ?d))"
      using Cons.IH [OF a(2) _ Cons.prems(3), of client moved] Cons.prems(2,4) by simp
    then show ?thesis using step [of moved _ "[]"] n False by (simp add: a Let_def)
  qed
qed



subsection \<open>A flush is answered\<close>

text \<open>
  What answers one thing owed: a completion of it, after any frames that are neither a completion of it
  nor an error nor a \<open>ReadyForQuery\<close>.
\<close>

definition answers :: "owed \<Rightarrow> frame list \<Rightarrow> bool" where
  "answers w fs = (fs \<noteq> [] \<and> completes w (f_tag (last fs)) \<and>
     list_all (\<lambda>f. \<not> completes w (f_tag f) \<and> f_tag f \<noteq> tag_error_response \<and> f_tag f \<noteq> tag_ready_for_query) (butlast fs))"

lemma completes_plain: "completes w tag \<Longrightarrow> tag \<noteq> tag_error_response \<and> tag \<noteq> tag_ready_for_query"
  by (cases w) auto

lemma received_quiet:
  assumes "list_all (\<lambda>f. \<not> completes w (f_tag f) \<and> f_tag f \<noteq> tag_error_response \<and> f_tag f \<noteq> tag_ready_for_query) fs"
  shows "fold received (map f_tag fs) (w # q) = w # q"
  using assms by (induction fs) (auto simp: received_def discharge_def)

lemma received_answer:
  assumes "answers w fs"
  shows "fold received (map f_tag fs) (w # q) = q"
    "k < length fs \<Longrightarrow> fold received (map f_tag (take k fs)) (w # q) = w # q"
proof -
  obtain pre l where fs: "fs = pre @ [l]" using assms by (cases fs rule: rev_cases) (auto simp: answers_def)
  have l: "completes w (f_tag l)"
    and pre: "list_all (\<lambda>f. \<not> completes w (f_tag f) \<and> f_tag f \<noteq> tag_error_response \<and> f_tag f \<noteq> tag_ready_for_query) pre"
    using assms by (simp_all add: answers_def fs)
  show "fold received (map f_tag fs) (w # q) = q"
    using received_quiet [OF pre] l completes_plain [OF l] by (simp add: fs received_def discharge_def)
  assume "k < length fs"
  then have "take k fs = take k pre" by (simp add: fs)
  moreover have "list_all (\<lambda>f. \<not> completes w (f_tag f) \<and> f_tag f \<noteq> tag_error_response \<and> f_tag f \<noteq> tag_ready_for_query) (take k pre)"
    using pre unfolding list_all_iff by (blast dest: in_set_takeD)
  ultimately show "fold received (map f_tag (take k fs)) (w # q) = w # q" by (simp only: received_quiet)
qed

lemma received_answers:
  assumes "list_all2 answers ws fss"
  shows "fold received (map f_tag (concat fss)) (ws @ q) = q"
    "k < length (concat fss) \<Longrightarrow> fold received (map f_tag (take k (concat fss))) (ws @ q) \<noteq> q"
proof -
  show all: "fold received (map f_tag (concat fss)) (ws @ q) = q"
    using assms by (induction ws fss rule: list_all2_induct) (simp_all add: received_answer(1))
  show "k < length (concat fss) \<Longrightarrow> fold received (map f_tag (take k (concat fss))) (ws @ q) \<noteq> q"
    using assms
  proof (induction ws fss arbitrary: k rule: list_all2_induct)
    case (Cons w ws fs fss)
    show ?case
    proof (cases "k < length fs")
      case True
      then show ?thesis using received_answer(2) [OF Cons.hyps(1)] by simp
    next
      case False
      then show ?thesis using Cons.IH [of "k - length fs"] Cons.prems received_answer(1) [OF Cons.hyps(1)] by simp
    qed
  qed simp
qed

lemma answers_not_ready:
  "list_all2 answers ws fss \<Longrightarrow> list_all (\<lambda>f. f_tag f \<noteq> tag_ready_for_query) (concat fss)"
proof (induction ws fss rule: list_all2_induct)
  case (Cons w ws fs fss)
  obtain pre l where fs: "fs = pre @ [l]" using Cons.hyps(1) by (cases fs rule: rev_cases) (auto simp: answers_def)
  have "list_all (\<lambda>f. f_tag f \<noteq> tag_ready_for_query) fs"
    using Cons.hyps(1) completes_plain [of w "f_tag l"] by (auto simp: answers_def list_all_iff fs)
  then show ?case using Cons.IH by simp
qed simp

lemma pump_frame_flush:
  assumes "f_tag f \<noteq> tag_ready_for_query" "\<not> asks_copy f" "pm_recording p = None"
  shows "pd_next (pump_frame mb True f r p) = (if settled (pm_owed (pd_pumping (pump_frame mb True f r p))) then Return False else Continue)"
    "pm_owed (pd_pumping (pump_frame mb True f r p)) = received (f_tag f) (pm_owed p)"
    "pm_recording (pd_pumping (pump_frame mb True f r p)) = None"
proof -
  have "streams f p" if "swallowed f p"
    using that assms(3) by (auto simp: streams_def inspect_policy_def swallowed_def completion_def)
  then show "pd_next (pump_frame mb True f r p) = (if settled (pm_owed (pd_pumping (pump_frame mb True f r p))) then Return False else Continue)"
    "pm_owed (pd_pumping (pump_frame mb True f r p)) = received (f_tag f) (pm_owed p)"
    "pm_recording (pd_pumping (pump_frame mb True f r p)) = None"
    using seen_kind [of f p] assms
    by (auto simp: pump_frame_eq stream_frame_eq buffer_frame_eq Let_def record_frame_def)
qed

lemma pump_loop_flush:
  assumes "map snd arrivals = fs @ later" "fs \<noteq> []" "pm_recording p = None"
    and "list_all (\<lambda>f. f_tag f \<noteq> tag_ready_for_query \<and> \<not> asks_copy f) fs"
    and "fold received (map f_tag fs) (pm_owed p) = []"
    and "\<And>k. 0 < k \<Longrightarrow> k < length fs \<Longrightarrow> fold received (map f_tag (take k fs)) (pm_owed p) \<noteq> []"
  shows "pr_client (pump_loop True arrivals client r p) = strip (pm_swallow p) fs \<and>
    map snd (pr_unread (pump_loop True arrivals client r p)) = later \<and>
    pr_end (pump_loop True arrivals client r p) = Returned False \<and> settled (pm_owed (pr_pumping (pump_loop True arrivals client r p)))"
  using assms
proof (induction fs arbitrary: arrivals r p)
  case (Cons f fs)
  then obtain mb rest where a: "arrivals = (mb, f) # rest" "map snd rest = fs @ later" by (cases arrivals) auto
  let ?d = "pump_frame mb True f r p"
  have f: "f_tag f \<noteq> tag_ready_for_query" "\<not> asks_copy f" using Cons.prems(4) by simp_all
  note d = pump_frame_flush [OF f Cons.prems(3), of mb r]
  have c: "pd_client ?d @ strip (pm_swallow (pd_pumping ?d)) xs = strip (pm_swallow p) (f # xs)" for xs
    by (auto simp: pump_frame_client swallowed_def)
  show ?case
  proof (cases "fs = []")
    case True
    then show ?thesis using Cons.prems(5) d c [of "[]"] a by (simp add: Let_def settled_def)
  next
    case False
    then have go: "\<not> settled (pm_owed (pd_pumping ?d))" using Cons.prems(6) [of 1] d(2) by (simp add: settled_def)
    have "fold received (map f_tag (take k fs)) (pm_owed (pd_pumping ?d)) \<noteq> []" if "0 < k" "k < length fs" for k
      using Cons.prems(6) [of "Suc k"] that d(2) by simp
    then show ?thesis
      using Cons.IH [OF a(2) False d(3)] Cons.prems(4,5) d go c by (simp add: a Let_def)
  qed
qed simp



end
