(* ===== verification/Rename.thy ===== *)
theory Rename
  imports Encode
begin

text \<open>
  What rewriting a statement name in a body does to the message: \<^verbatim>\<open>rewrite.rs\<close> against the decoders of
  \<^verbatim>\<open>frontend.rs\<close>. The reads of a body depend only on the bytes that are left, so the part of a message
  after the name means the same in the rewritten body.
\<close>

subsection \<open>Reads that only look at what is left\<close>

definition uniform :: "(reader \<Rightarrow> 'e + 'a \<times> reader) \<Rightarrow> bool" where
  "uniform f \<longleftrightarrow>
     (\<forall>r t x r'. f r = Inr (x, r') \<and> at r t \<longrightarrow>
        (\<exists>t'. at r' t' \<and> (\<forall>q. at q t \<longrightarrow> (\<exists>q'. f q = Inr (x, q') \<and> at q' t'))))"

lemma uniformE:
  assumes "uniform f" "f r = Inr (x, r')" "at r t" "at q t"
  obtains q' t' where "f q = Inr (x, q')" "at r' t'" "at q' t'"
  using assms unfolding uniform_def by blast

lemma uniform_read_bytes: "uniform (read_bytes n what)"
  unfolding uniform_def
proof (intro allI impI)
  fix r t x r'
  assume a: "read_bytes n what r = Inr (x, r') \<and> at r t"
  then have x: "x = take n t" "n \<le> length t"
    by (auto simp: read_bytes_def end_of_def at_def remaining_def split: if_splits)
  then have t: "t = x @ drop n t" "length x = n" by simp_all
  show "\<exists>t'. at r' t' \<and> (\<forall>q. at q t \<longrightarrow> (\<exists>q'. read_bytes n what q = Inr (x, q') \<and> at q' t'))"
    using read_bytes_at [of _ x "drop n t" what] t a by (metis Pair_inject sum.inject(2))
qed

lemma uniform_map:
  assumes "uniform f"
  shows "uniform (\<lambda>r. case f r of Inl e \<Rightarrow> Inl (w e) | Inr (x, r) \<Rightarrow> Inr (g x, r))"
  using assms unfolding uniform_def by (fastforce split: sum.splits prod.splits)

lemma uniform_then:
  assumes "uniform f" "\<And>x. uniform (g x)"
  shows "uniform (\<lambda>r. field_then w (f r) g)"
  unfolding uniform_def
proof (intro allI impI)
  fix r t y r'
  assume a: "field_then w (f r) g = Inr (y, r') \<and> at r t"
  then obtain x r1 where 1: "f r = Inr (x, r1)" "g x r1 = Inr (y, r')"
    by (auto simp: field_then_def split: sum.splits)
  obtain t1 where t1: "at r1 t1" "\<And>q. at q t \<Longrightarrow> \<exists>q'. f q = Inr (x, q') \<and> at q' t1"
    using assms(1) 1(1) a unfolding uniform_def by blast
  obtain t2 where t2: "at r' t2" "\<And>q. at q t1 \<Longrightarrow> \<exists>q'. g x q = Inr (y, q') \<and> at q' t2"
    using assms(2) [of x] 1(2) t1(1) unfolding uniform_def by blast
  show "\<exists>t'. at r' t' \<and> (\<forall>q. at q t \<longrightarrow> (\<exists>q'. field_then w (f q) g = Inr (y, q') \<and> at q' t'))"
    using t1(2) t2 by (metis field_then_simps(2))
qed

lemma uniform_return: "uniform (\<lambda>r. Inr (x, r))"
  by (auto simp: uniform_def)

lemma uniform_if: "uniform f \<Longrightarrow> uniform g \<Longrightarrow> uniform (\<lambda>r. if b then f r else g r)"
  by (cases b) simp_all

lemma uniform_int: "uniform (read_i32 what)" "uniform (read_i16 what)"
  using uniform_map [OF uniform_read_bytes [of _ what], of "\<lambda>e. e"] by (simp_all add: read_i32_def [abs_def] read_i16_def [abs_def])

lemma uniform_read_values: "uniform (read_values n acc)"
proof (induction n arbitrary: acc)
  case (Suc n)
  show ?case unfolding read_values.simps
    by (intro uniform_then uniform_if uniform_int uniform_read_bytes Suc)
qed (auto simp: uniform_def)

lemma uniform_skip_formats:
  "uniform (\<lambda>r. case skip_formats n r of Inl e \<Rightarrow> Inl e | Inr r' \<Rightarrow> Inr ((), r'))"
proof (induction n)
  case (Suc n)
  have e: "(\<lambda>r. case skip_formats (Suc n) r of Inl e \<Rightarrow> Inl e | Inr r' \<Rightarrow> Inr ((), r')) =
      (\<lambda>r. field_then FField (read_i16 ''parameter_format'' r)
             (\<lambda>_ r. case skip_formats n r of Inl e \<Rightarrow> Inl e | Inr r' \<Rightarrow> Inr ((), r')))"
    by (auto simp: field_then_def fun_eq_iff split: sum.splits)
  show ?case unfolding e by (intro uniform_then uniform_int Suc)
qed (simp add: uniform_return)

lemma uniform_none:
  assumes "uniform f" "f r = Inl e" "at r t" "at q t"
  shows "\<exists>e. f q = Inl e"
proof (cases "f q")
  case (Inr p)
  then show ?thesis using uniformE [OF assms(1), of q "fst p" "snd p" t r] assms(2-4) by simp
qed simp

lemma all_text_uniform:
  assumes "at r t" "at q t"
  shows "rel_option (\<lambda>(b, r') (c, q'). b = c \<and> (\<exists>t'. at r' t' \<and> at q' t')) (all_text_formats n b r) (all_text_formats n b q)"
  using assms
proof (induction n arbitrary: r q t b)
  case (Suc n)
  show ?case
  proof (cases "read_i16 ''result_format'' r")
    case (Inl e)
    then show ?thesis using uniform_none [OF uniform_int(2) Inl Suc.prems] by auto
  next
    case (Inr p)
    obtain x r1 where p: "p = (x, r1)" by force
    obtain q1 t1 where "read_i16 ''result_format'' q = Inr (x, q1)" "at r1 t1" "at q1 t1"
      using uniformE [OF uniform_int(2) Inr [unfolded p] Suc.prems] by blast
    then show ?thesis using Suc.IH [of r1 t1 q1] Inr p by simp
  qed
qed auto

lemma result_formats_uniform:
  assumes "at r t" "at q t"
  shows "read_result_formats r = read_result_formats q"
proof (cases "read_i16 ''result_format_count'' r")
  case (Inl e)
  then show ?thesis using uniform_none [OF uniform_int(2) Inl assms] by (auto simp: read_result_formats_def)
next
  case (Inr p)
  obtain n r1 where p: "p = (n, r1)" by force
  obtain q1 t1 where q1: "read_i16 ''result_format_count'' q = Inr (n, q1)" "at r1 t1" "at q1 t1"
    using uniformE [OF uniform_int(2) Inr [unfolded p] assms] by blast
  have a: "rel_option (\<lambda>(b, r') (c, q'). b = c \<and> (\<exists>t'. at r' t' \<and> at q' t'))
      (all_text_formats (nat (max n 0)) True r1) (all_text_formats (nat (max n 0)) True q1)"
    by (rule all_text_uniform [OF q1(2,3)])
  then show ?thesis using Inr p q1(1) assms
    by (cases "all_text_formats (nat (max n 0)) True r1"; cases "all_text_formats (nat (max n 0)) True q1")
      (auto simp: read_result_formats_def Let_def at_def)
qed

subsection \<open>The bytes of a message that decodes\<close>

lemma read_cstr_inv:
  assumes "read_cstr what r = Inr (s, r')" "at r t"
  shows "\<exists>u. t = cstr s @ u \<and> wire_text s \<and> at r' u"
proof -
  have t: "drop (r_pos r) (r_buf r) = t" using assms(2) by (simp add: at_def remaining_def)
  obtain e where e: "find_char CHR 0x00 t = Some e" "s = take e t" "from_utf8 (take e t) = Some s"
    using assms(1) t by (auto simp: read_cstr_def from_utf8_def Let_def split: option.splits if_splits)
  have "t = s @ CHR 0x00 # drop (Suc e) t" "CHR 0x00 \<notin> set s"
    using find_char_nth [OF e(1)] e(2) by simp_all
  moreover have "wire_text s" using calculation(2) e by (simp add: wire_text_def)
  ultimately show ?thesis using read_cstr_at [of r s "drop (Suc e) t" what] assms by (auto simp: cstr_def)
qed

lemma read_u8_inv: "read_u8 what r = Inr (c, r') \<Longrightarrow> at r t \<Longrightarrow> \<exists>u. t = c # u \<and> at r' u"
  by (auto simp: read_u8_def at_def remaining_def split: if_splits) (metis Cons_nth_drop_Suc)

lemma two_names_inv:
  assumes "read_cstr what1 (reader_new body) = Inr (a, r1)" "read_cstr what2 r1 = Inr (b, r2)" "length body \<le> usize_max"
  shows "\<exists>u. body = cstr a @ cstr b @ u \<and> wire_text a \<and> wire_text b"
  using read_cstr_inv [OF assms(1) at_new [OF assms(3)]] read_cstr_inv [OF assms(2)] by blast

lemma parse_body:
  assumes "decode_frontend \<lparr>f_tag = tag_parse, f_body = body\<rparr> = Inr (Parse a b)" "length body \<le> usize_max"
  shows "\<exists>u. body = cstr a @ cstr b @ u \<and> wire_text a \<and> wire_text b"
  using assms two_names_inv by (auto simp: decode_frontend_def field_then_def split: sum.splits)

lemma bind_body:
  assumes "decode_frontend \<lparr>f_tag = tag_bind, f_body = body\<rparr> = Inr (Bind a b)" "length body \<le> usize_max"
  shows "\<exists>u. body = cstr a @ cstr b @ u \<and> wire_text a \<and> wire_text b"
  using assms two_names_inv by (auto simp: decode_frontend_def field_then_def split: sum.splits)

lemma described_body:
  assumes "decode_frontend \<lparr>f_tag = tag, f_body = body\<rparr> = Inr m" "m = Describe kind a \<or> m = Close kind a"
    and "tag = tag_describe \<or> tag = tag_close" "length body \<le> usize_max"
  shows "\<exists>u. body = (case kind of Statement \<Rightarrow> CHR ''S'' | Portal \<Rightarrow> CHR ''P'') # cstr a @ u \<and> wire_text a"
proof -
  obtain what c r1 r2 where r: "read_u8 what (reader_new body) = Inr (c, r1)" "target_from_byte c = Inr kind" "read_cstr ''name'' r1 = Inr (a, r2)"
    using assms(1-3) by (auto simp: decode_frontend_def field_then_def split: sum.splits)
  obtain u where u: "body = c # u" "at r1 u" using read_u8_inv [OF r(1) at_new [OF assms(4)]] by blast
  have "c = (case kind of Statement \<Rightarrow> CHR ''S'' | Portal \<Rightarrow> CHR ''P'')"
    using r(2) by (auto simp: target_from_byte_def split: if_splits)
  then show ?thesis using read_cstr_inv [OF r(3) u(2)] u(1) by auto
qed

subsection \<open>Renaming\<close>

lemma find_cstr: "CHR 0x00 \<notin> set s \<Longrightarrow> find_char CHR 0x00 (cstr s @ u) = Some (length s)"
  by (simp add: cstr_def find_char_append find_char_None [THEN iffD2])

lemma replace_cstring_at:
  assumes "wire_text name" "wire_text s"
  shows "replace_cstring (pre @ cstr s @ u) (length pre) name = Some (pre @ cstr name @ u)"
proof -
  have "CHR 0x00 \<notin> set name" "CHR 0x00 \<notin> set s" using assms by (simp_all add: wire_text_def)
  then show ?thesis by (simp add: replace_cstring_def find_cstr Let_def) (simp add: cstr_def)
qed

lemma renamed:
  assumes "wire_text name" "wire_text a" "wire_text b"
  shows "parse_statement (cstr a @ cstr b @ u) name = Some (cstr name @ cstr b @ u)"
    "bind_statement (cstr a @ cstr b @ u) name = Some (cstr a @ cstr name @ u)"
    "described_statement (CHR ''S'' # cstr a @ u) name = Some (CHR ''S'' # cstr name @ u)"
proof -
  have "CHR 0x00 \<notin> set a" using assms by (simp add: wire_text_def)
  then show "bind_statement (cstr a @ cstr b @ u) name = Some (cstr a @ cstr name @ u)"
    using replace_cstring_at [OF assms(1,3), of "cstr a" u] by (simp add: bind_statement_def find_cstr)
qed (use replace_cstring_at [OF assms(1,2), of "[]"] replace_cstring_at [OF assms(1,2), of "[CHR ''S'']"] in
     \<open>simp_all add: parse_statement_def described_statement_def\<close>)

lemma decode_described:
  assumes "wire_text name" "length (CHR ''S'' # cstr name @ u) \<le> usize_max"
  shows "decode_frontend \<lparr>f_tag = tag_describe, f_body = CHR ''S'' # cstr name @ u\<rparr> = Inr (Describe Statement name)"
    "decode_frontend \<lparr>f_tag = tag_close, f_body = CHR ''S'' # cstr name @ u\<rparr> = Inr (Close Statement name)"
proof -
  obtain r1 where r1: "\<And>what. read_u8 what (reader_new (CHR ''S'' # cstr name @ u)) = Inr (CHR ''S'', r1)" "at r1 (cstr name @ u)"
    using read_u8_at [OF at_new [OF assms(2)]] by (auto simp: read_u8_def reader_new_def)
  obtain r2 where "read_cstr ''name'' r1 = Inr (name, r2)" using read_cstr_cstr [OF r1(2) assms(1)] by blast
  then show "decode_frontend \<lparr>f_tag = tag_describe, f_body = CHR ''S'' # cstr name @ u\<rparr> = Inr (Describe Statement name)"
    "decode_frontend \<lparr>f_tag = tag_close, f_body = CHR ''S'' # cstr name @ u\<rparr> = Inr (Close Statement name)"
    using r1(1) by (simp_all add: decode_frontend_def target_from_byte_def)
qed

lemma bind_parameters_renamed:
  assumes "bind_parameters_of \<lparr>f_tag = tag_bind, f_body = cstr a @ cstr b @ u\<rparr> = Inr bp"
    and "length (cstr a @ cstr b @ u) \<le> usize_max" "wire_text a" "wire_text b"
    and "length (cstr a @ cstr name @ u) \<le> usize_max" "wire_text name"
  shows "bind_parameters_of \<lparr>f_tag = tag_bind, f_body = cstr a @ cstr name @ u\<rparr> = Inr bp"
proof -
  obtain r1 r2 where r: "read_cstr ''portal_name'' (reader_new (cstr a @ cstr b @ u)) = Inr (a, r1)"
      "read_cstr ''statement_name'' r1 = Inr (b, r2)" "at r2 u"
    by (rule two_names [OF assms(2-4)])
  obtain q1 q2 where q: "read_cstr ''portal_name'' (reader_new (cstr a @ cstr name @ u)) = Inr (a, q1)"
      "read_cstr ''statement_name'' q1 = Inr (name, q2)" "at q2 u"
    by (rule two_names [OF assms(5,3,6)])
  obtain n r3 where r3: "read_i16 ''parameter_format_count'' r2 = Inr (n, r3)"
    using assms(1) r by (auto simp: bind_parameters_of_def field_then_def split: sum.splits)
  obtain q3 t3 where q3: "read_i16 ''parameter_format_count'' q2 = Inr (n, q3)" "at r3 t3" "at q3 t3"
    by (rule uniformE [OF uniform_int(2) r3 r(3) q(3)])
  obtain r4 where r4: "skip_formats (nat (max n 0)) r3 = Inr r4"
    using assms(1) r r3 by (auto simp: bind_parameters_of_def split: sum.splits)
  obtain q4 t4 where q4: "skip_formats (nat (max n 0)) q3 = Inr q4" "at r4 t4" "at q4 t4"
  proof (rule uniformE [OF uniform_skip_formats _ q3(2,3), of "nat (max n 0)" "()" r4])
  qed (auto simp: r4 split: sum.splits)
  obtain m r5 where r5: "read_i16 ''parameter_count'' r4 = Inr (m, r5)"
    using assms(1) r r3 r4 by (auto simp: bind_parameters_of_def field_then_def split: sum.splits)
  obtain q5 t5 where q5: "read_i16 ''parameter_count'' q4 = Inr (m, q5)" "at r5 t5" "at q5 t5"
    by (rule uniformE [OF uniform_int(2) r5 q4(2,3)])
  obtain vs r6 where r6: "read_values (nat (max m 0)) [] r5 = Inr (vs, r6)"
    using assms(1) r r3 r4 r5 by (auto simp: bind_parameters_of_def split: sum.splits)
  obtain q6 t6 where q6: "read_values (nat (max m 0)) [] q5 = Inr (vs, q6)" "at r6 t6" "at q6 t6"
    by (rule uniformE [OF uniform_read_values r6 q5(2,3)])
  show ?thesis using assms(1) r r3 r4 r5 r6 q q3 q4 q5 q6 result_formats_uniform [OF q6(2,3)]
    by (simp add: bind_parameters_of_def remaining_at Let_def)
qed

text \<open>
  C35. Renaming a statement changes its name and nothing else. For a name that fits the wire, the
  rewritten body of a message that decodes is defined and decodes to the same message under the new
  name: a \<open>Parse\<close> keeps its query, a \<open>Bind\<close> its portal and, whenever they can be read, its parameter
  values and result formats, a \<open>Describe\<close> or \<open>Close\<close> of a statement its kind; and the bytes after the
  name are kept. A \<open>Describe\<close> or \<open>Close\<close> of a portal is refused.
\<close>

theorem rewrite_renames:
  assumes "wire_text name" "length body + length name < usize_max"
  shows "(\<forall>s sql. decode_frontend \<lparr>f_tag = tag_parse, f_body = body\<rparr> = Inr (Parse s sql) \<longrightarrow>
       (\<exists>u. body = cstr s @ u \<and> parse_statement body name = Some (cstr name @ u) \<and>
            decode_frontend \<lparr>f_tag = tag_parse, f_body = cstr name @ u\<rparr> = Inr (Parse name sql))) \<and>
    (\<forall>p s. decode_frontend \<lparr>f_tag = tag_bind, f_body = body\<rparr> = Inr (Bind p s) \<longrightarrow>
       (\<exists>u. body = cstr p @ cstr s @ u \<and> bind_statement body name = Some (cstr p @ cstr name @ u) \<and>
            decode_frontend \<lparr>f_tag = tag_bind, f_body = cstr p @ cstr name @ u\<rparr> = Inr (Bind p name) \<and>
            (\<forall>bp. bind_parameters_of \<lparr>f_tag = tag_bind, f_body = body\<rparr> = Inr bp \<longrightarrow>
                  bind_parameters_of \<lparr>f_tag = tag_bind, f_body = cstr p @ cstr name @ u\<rparr> = Inr bp))) \<and>
    (\<forall>s. decode_frontend \<lparr>f_tag = tag_describe, f_body = body\<rparr> = Inr (Describe Statement s) \<longrightarrow>
       (\<exists>body'. described_statement body name = Some body' \<and>
                decode_frontend \<lparr>f_tag = tag_describe, f_body = body'\<rparr> = Inr (Describe Statement name))) \<and>
    (\<forall>s. decode_frontend \<lparr>f_tag = tag_close, f_body = body\<rparr> = Inr (Close Statement s) \<longrightarrow>
       (\<exists>body'. described_statement body name = Some body' \<and>
                decode_frontend \<lparr>f_tag = tag_close, f_body = body'\<rparr> = Inr (Close Statement name))) \<and>
    (\<forall>s. decode_frontend \<lparr>f_tag = tag_describe, f_body = body\<rparr> = Inr (Describe Portal s) \<longrightarrow>
       described_statement body name = None \<and> \<not> describes_statement body)"
proof (intro conjI allI impI)
  note b = assms(2)
  fix s sql
  assume a: "decode_frontend \<lparr>f_tag = tag_parse, f_body = body\<rparr> = Inr (Parse s sql)"
  obtain u where u: "body = cstr s @ cstr sql @ u" "wire_text s" "wire_text sql" using parse_body [OF a] b by auto
  show "\<exists>u. body = cstr s @ u \<and> parse_statement body name = Some (cstr name @ u) \<and>
      decode_frontend \<lparr>f_tag = tag_parse, f_body = cstr name @ u\<rparr> = Inr (Parse name sql)"
    using renamed(1) [OF assms(1) u(2,3)] decode_parse [OF _ assms(1) u(3), of u] b u(1) by auto
next
  note b = assms(2)
  fix p s
  assume a: "decode_frontend \<lparr>f_tag = tag_bind, f_body = body\<rparr> = Inr (Bind p s)"
  obtain u where u: "body = cstr p @ cstr s @ u" "wire_text p" "wire_text s" using bind_body [OF a] b by auto
  show "\<exists>u. body = cstr p @ cstr s @ u \<and> bind_statement body name = Some (cstr p @ cstr name @ u) \<and>
      decode_frontend \<lparr>f_tag = tag_bind, f_body = cstr p @ cstr name @ u\<rparr> = Inr (Bind p name) \<and>
      (\<forall>bp. bind_parameters_of \<lparr>f_tag = tag_bind, f_body = body\<rparr> = Inr bp \<longrightarrow>
            bind_parameters_of \<lparr>f_tag = tag_bind, f_body = cstr p @ cstr name @ u\<rparr> = Inr bp)"
    using renamed(2) [OF assms(1) u(2,3)] decode_bind [OF _ u(2) assms(1), of u] bind_parameters_renamed [of p s u _ name] b u assms(1)
    by auto
next
  fix s
  assume a: "decode_frontend \<lparr>f_tag = tag_describe, f_body = body\<rparr> = Inr (Describe Statement s)"
  obtain u where "body = CHR ''S'' # cstr s @ u" "wire_text s" using described_body [OF a] assms(2) by auto
  then show "\<exists>body'. described_statement body name = Some body' \<and>
      decode_frontend \<lparr>f_tag = tag_describe, f_body = body'\<rparr> = Inr (Describe Statement name)"
    using renamed(3) [OF assms(1)] decode_described(1) [OF assms(1), of u] assms(2) by auto
next
  fix s
  assume a: "decode_frontend \<lparr>f_tag = tag_close, f_body = body\<rparr> = Inr (Close Statement s)"
  obtain u where "body = CHR ''S'' # cstr s @ u" "wire_text s" using described_body [OF a] assms(2) by auto
  then show "\<exists>body'. described_statement body name = Some body' \<and>
      decode_frontend \<lparr>f_tag = tag_close, f_body = body'\<rparr> = Inr (Close Statement name)"
    using renamed(3) [OF assms(1)] decode_described(2) [OF assms(1), of u] assms(2) by auto
next
  fix s
  assume a: "decode_frontend \<lparr>f_tag = tag_describe, f_body = body\<rparr> = Inr (Describe Portal s)"
  obtain u where "body = CHR ''P'' # cstr s @ u" using described_body [OF a] assms(2) by auto
  then show "described_statement body name = None" "\<not> describes_statement body"
    by (simp_all add: described_statement_def describes_statement_def)
qed

theorem rewrite_renames_witness:
  "\<exists>body'. bind_statement (cstr [] @ cstr ''s1'' @ i16_bytes 0 @ i16_bytes 0 @ i16_bytes 0) ''pgprox_1'' = Some body' \<and>
     decode_frontend \<lparr>f_tag = tag_bind, f_body = body'\<rparr> = Inr (Bind [] ''pgprox_1'') \<and>
     bind_parameters_of \<lparr>f_tag = tag_bind, f_body = body'\<rparr> = Inr \<lparr>bp_values = [], bp_raw = [], bp_result_formats = []\<rparr>"
proof -
  define body where "body = cstr [] @ cstr ''s1'' @ i16_bytes 0 @ i16_bytes (int (length ([] :: string option list))) @ concat (map value_bytes []) @ i16_bytes 0"
  have w: "wire_text []" "wire_text ''s1''" "wire_text ''pgprox_1''"
    by (simp_all add: wire_text_def utf8_ascii is_ascii_def)
  have l: "length body + length ''pgprox_1'' < usize_max" by (simp add: body_def usize_max_def)
  have "decode_frontend \<lparr>f_tag = tag_bind, f_body = body\<rparr> = Inr (Bind [] ''s1'')"
    unfolding body_def by (rule decode_bind) (use w in \<open>simp_all add: usize_max_def\<close>)
  moreover have "bind_parameters_of \<lparr>f_tag = tag_bind, f_body = body\<rparr> = Inr \<lparr>bp_values = [], bp_raw = [], bp_result_formats = []\<rparr>"
    using bind_parameters_at [OF at_new body_def w(1,2)] by (simp add: body_def usize_max_def)
  ultimately show ?thesis using rewrite_renames [OF w(3) l] by (auto simp: body_def)
qed

end
