(* ===== verification/Statement_Flow.thy ===== *)
theory Statement_Flow
  imports Pump Statements Rename
begin

text \<open>
  Prepared statements on their way to a server: \<^verbatim>\<open>crates/pgprox-session/src/resume.rs\<close> and the half of
  \<^verbatim>\<open>bin/pgprox/src/serve.rs\<close> that takes a frame of the client, renames the statement in it, prepares on the
  borrowed connection what the frame is about to assume, and sends it. The properties say that any number
  of sessions sharing a connection each find their own statements on it, and where that fails.
\<close>

subsection \<open>What is remembered\<close>

datatype resume_step = Run string | CloseStatement global_name | PrepareStatement global_name string

record connection_memory =
  cm_params :: session_params
  cm_statements :: connection_statements

record session_memory =
  sm_params :: session_params
  sm_statements :: session_statements

definition on_acquire :: "session_memory \<Rightarrow> connection_memory \<Rightarrow> resume_step list" where
  "on_acquire session connection = map Run (replay_onto (sm_params session) (cm_params connection))"

definition replayed :: "session_memory \<Rightarrow> connection_memory \<Rightarrow> connection_memory" where
  "replayed session connection =
     connection\<lparr>cm_params := fold (\<lambda>(name, v) ps. params_record name v ps) (sm_params session) (params_clear_all (cm_params connection))\<rparr>"

definition resume_observe :: "string \<Rightarrow> session_statements \<Rightarrow> connection_statements \<Rightarrow> bool \<times> session_statements \<times> connection_statements" where
  "resume_observe sql session connection =
     (if \<not> deallocates_everything sql then (False, session, connection)
      else (True, ss_close_all session, cs_forget_all connection))"

definition on_close :: "string \<Rightarrow> session_statements \<Rightarrow> connection_statements \<Rightarrow> bool \<times> session_statements \<times> connection_statements" where
  "on_close client_name session connection =
     (case ss_close client_name session of
        (None, session') \<Rightarrow> (False, session', connection)
      | (Some closed, session') \<Rightarrow> (True, session', cs_forget (p_global closed) connection))"

definition before_bind :: "string \<Rightarrow> session_memory \<Rightarrow> connection_memory \<Rightarrow> (client_error + resume_step list) \<times> connection_memory" where
  "before_bind client_name session connection =
     (case ss_get (sm_statements session) client_name of
        None \<Rightarrow> (Inl (ProtocolViolation ''bind names a statement this session never parsed''), connection)
      | Some statement \<Rightarrow>
          (case prepare_for (p_global statement) (cm_statements connection) of
             (AlreadyHeld, held) \<Rightarrow> (Inr [], connection\<lparr>cm_statements := held\<rparr>)
           | (Replay evict, held) \<Rightarrow>
               (Inr (map CloseStatement evict @ [PrepareStatement (p_global statement) (p_sql statement)]),
                connection\<lparr>cm_statements := held\<rparr>)))"

subsection \<open>A frame of the client\<close>

definition client_body_wanted :: "char \<Rightarrow> nat \<Rightarrow> bool \<Rightarrow> nat" where
  "client_body_wanted tag body_len caching =
     (if caching \<or> tag = tag_query \<or> tag = tag_parse then body_len
      else inspect_budget Frontend tag body_len default_max_inspect)"

text \<open>The part of the body that is read, and the part that is still on the wire.\<close>

definition read_client_body :: "char \<Rightarrow> string \<Rightarrow> bool \<Rightarrow> string \<times> string" where
  "read_client_body tag body caching =
     (let wanted = client_body_wanted tag (length body) caching;
          tail = drop wanted body
      in if tail \<noteq> [] \<and> isl (decode_frontend \<lparr>f_tag = tag, f_body = take wanted body\<rparr>) then (body, [])
         else (take wanted body, tail))"

definition map_statement_name :: "frontend_message \<Rightarrow> string \<Rightarrow> session_statements \<Rightarrow> string option \<times> session_statements" where
  "map_statement_name message body ss =
     (case message of
        Parse s sql \<Rightarrow>
          (case ss_parse s sql ss of (global, ss') \<Rightarrow>
             (if s = [] then Some body else parse_statement body global, ss'))
      | Bind _ s \<Rightarrow>
          (if s = [] then Some body
           else case ss_get ss s of None \<Rightarrow> None | Some prepared \<Rightarrow> bind_statement body (p_global prepared), ss)
      | Describe _ name \<Rightarrow>
          (if \<not> describes_statement body \<or> name = [] then Some body
           else case ss_get ss name of None \<Rightarrow> None | Some prepared \<Rightarrow> described_statement body (p_global prepared), ss)
      | Close _ name \<Rightarrow>
          (if \<not> describes_statement body \<or> name = [] then Some body
           else case ss_get ss name of None \<Rightarrow> None | Some prepared \<Rightarrow> described_statement body (p_global prepared), ss)
      | _ \<Rightarrow> (Some body, ss))"

definition observe :: "frontend_message \<Rightarrow> string \<Rightarrow> session_memory \<Rightarrow> string option \<times> session_memory" where
  "observe message body session =
     (let params = (case sql_of message of
                      None \<Rightarrow> sm_params session
                    | Some sql \<Rightarrow> snd (params_observe_statement sql replayable_names (sm_params session)))
      in case map_statement_name message body (sm_statements session) of
           (outgoing, ss) \<Rightarrow> (outgoing, \<lparr>sm_params = params, sm_statements = ss\<rparr>))"

definition decoded :: "char \<Rightarrow> string \<Rightarrow> session_memory \<Rightarrow> (client_error + frontend_message \<times> string) \<times> session_memory" where
  "decoded tag body session =
     (case decode_frontend \<lparr>f_tag = tag, f_body = body\<rparr> of
        Inl _ \<Rightarrow> (Inl (ProtocolViolation ''undecodable message''), session)
      | Inr message \<Rightarrow>
          (case observe message body session of
             (None, session') \<Rightarrow> (Inl (ProtocolViolation ''a statement name this session never parsed''), session')
           | (Some outgoing, session') \<Rightarrow> (Inr (message, outgoing), session')))"

subsection \<open>What the connection needs first\<close>

text \<open>What goes to the server: a message of the proxy's own, or a frame of the client.\<close>

datatype queued = Own frontend_message | Onward frame

definition unnamed_statement :: "frontend_message \<Rightarrow> session_statements \<Rightarrow> string option" where
  "unnamed_statement message ss =
     (case message of
        Parse s _ \<Rightarrow> if s = [] then map_option p_sql (ss_get ss []) else None
      | Bind _ s \<Rightarrow> if s = [] then map_option p_sql (ss_get ss []) else None
      | _ \<Rightarrow> None)"

definition statement_of :: "frontend_message \<Rightarrow> session_statements \<Rightarrow> (global_name \<times> string) option" where
  "statement_of message ss =
     (case message of
        Parse s _ \<Rightarrow> map_option (\<lambda>prepared. (p_global prepared, p_sql prepared)) (ss_get ss s)
      | Bind _ s \<Rightarrow> map_option (\<lambda>prepared. (p_global prepared, p_sql prepared)) (ss_get ss s)
      | _ \<Rightarrow> None)"

fun is_parse :: "frontend_message \<Rightarrow> bool" where
  "is_parse (Parse _ _) = True"
| "is_parse _ = False"

definition prepare_unnamed :: "frontend_message \<Rightarrow> string \<Rightarrow> connection_statements \<Rightarrow> bool \<times> connection_statements" where
  "prepare_unnamed message sql held =
     (let already = is_parse message \<or> holds_unnamed held sql in (\<not> already, note_unnamed sql held))"

definition evict_for :: "global_name \<Rightarrow> connection_statements \<Rightarrow> nat \<times> queued list \<times> connection_statements" where
  "evict_for global held =
     (case prepare_for global held of
        (AlreadyHeld, held') \<Rightarrow> (0, [], held')
      | (Replay evict, held') \<Rightarrow> (length evict, map (\<lambda>victim. Own (Close Statement victim)) evict, held'))"

datatype statement_ready = NothingNeeded | Prepared nat | AlreadyPrepared

definition ready_statement :: "frontend_message \<Rightarrow> session_statements \<Rightarrow> connection_statements \<Rightarrow> statement_ready \<times> queued list \<times> connection_statements" where
  "ready_statement message ss held =
     (case unnamed_statement message ss of
        Some sql \<Rightarrow>
          (case prepare_unnamed message sql held of
             (False, held') \<Rightarrow> (NothingNeeded, [], held')
           | (True, held') \<Rightarrow> (Prepared 1, [Own (Parse [] sql)], held'))
      | None \<Rightarrow>
          (case statement_of message ss of
             None \<Rightarrow> (NothingNeeded, [], held)
           | Some (global, sql) \<Rightarrow>
               if is_parse message then
                 (if holds held global then (AlreadyPrepared, [], held)
                  else case evict_for global held of (n, closes, held') \<Rightarrow> (Prepared n, closes, held'))
               else if holds held global then (Prepared 0, [], held)
               else case evict_for global held of
                      (n, closes, held') \<Rightarrow> (Prepared (n + 1), closes @ [Own (Parse global sql)], held')))"

subsection \<open>Sending\<close>

record 'k sending =
  sd_sent :: bool
  sd_client :: "frame list"
  sd_queue :: "queued list"
  sd_session :: session_memory
  sd_held :: connection_statements
  sd_pumping :: "'k pumping"

definition send_upstream :: "frontend_message \<Rightarrow> frame \<Rightarrow> string \<Rightarrow> session_memory \<Rightarrow> connection_statements \<Rightarrow> 'k pumping \<Rightarrow> 'k sending" where
  "send_upstream message onward tail session held p =
     (let (ss, held) = (case sql_of message of
                          Some sql \<Rightarrow> snd (resume_observe sql (sm_statements session) held)
                        | None \<Rightarrow> (sm_statements session, held));
          (ss, held) = (case message of
                          Close Statement name \<Rightarrow> snd (on_close name ss held)
                        | _ \<Rightarrow> (ss, held));
          session = session\<lparr>sm_statements := ss\<rparr>;
          onward = onward\<lparr>f_body := f_body onward @ tail\<rparr>
      in case ready_statement message ss held of
           (AlreadyPrepared, queue, held') \<Rightarrow>
             \<lparr>sd_sent = False, sd_client = [\<lparr>f_tag = tag_parse_complete, f_body = []\<rparr>], sd_queue = queue,
              sd_session = session, sd_held = held', sd_pumping = p\<rparr>
         | (needed, queue, held') \<Rightarrow>
             let n = (case needed of Prepared n \<Rightarrow> n | _ \<Rightarrow> 0)
             in \<lparr>sd_sent = True, sd_client = [], sd_queue = queue @ [Onward onward], sd_session = session, sd_held = held',
                 sd_pumping = p\<lparr>pm_swallow := pm_swallow p + n, pm_owed := sent message (pm_owed p)\<rparr>\<rparr>)"

definition awaits_more :: "frontend_message \<Rightarrow> bool" where
  "awaits_more message = (case message of
     Parse _ _ \<Rightarrow> True | Bind _ _ \<Rightarrow> True | Describe _ _ \<Rightarrow> True | Execute _ _ \<Rightarrow> True | Close _ _ \<Rightarrow> True | _ \<Rightarrow> False)"

subsection \<open>What the server knows\<close>

text \<open>
  The named statements of a server, by what it is documented to do with the messages it is sent: a \<open>Parse\<close>
  under a name it has is refused, and so are a \<open>Bind\<close> and a \<open>Describe\<close> of a name it does not have; a
  \<open>Close\<close> of any name is accepted. The unnamed statement is not tracked.
\<close>

type_synonym server_names = "string \<Rightarrow> string option"

fun srv_step :: "frontend_message \<Rightarrow> server_names \<Rightarrow> server_names option" where
  "srv_step (Parse n sql) v = (if n = [] then Some v else if v n \<noteq> None then None else Some (v(n \<mapsto> sql)))"
| "srv_step (Bind _ n) v = (if n = [] \<or> v n \<noteq> None then Some v else None)"
| "srv_step (Describe Statement n) v = (if n = [] \<or> v n \<noteq> None then Some v else None)"
| "srv_step (Close Statement n) v = Some (v(n := None))"
| "srv_step (Query sql) v = Some (if deallocates_everything sql then Map.empty else v)"
| "srv_step _ v = Some v"

fun srv_item :: "queued \<Rightarrow> server_names \<Rightarrow> server_names option" where
  "srv_item (Own m) v = srv_step m v"
| "srv_item (Onward f) v = (case decode_frontend f of Inl _ \<Rightarrow> None | Inr m \<Rightarrow> srv_step m v)"

fun srv_run :: "queued list \<Rightarrow> server_names \<Rightarrow> server_names option" where
  "srv_run [] v = Some v"
| "srv_run (item # items) v = (case srv_item item v of None \<Rightarrow> None | Some v' \<Rightarrow> srv_run items v')"

lemma srv_run_append:
  "srv_run (xs @ ys) v = (case srv_run xs v of None \<Rightarrow> None | Some v' \<Rightarrow> srv_run ys v')"
  by (induction xs arbitrary: v) (auto split: option.split)

lemma srv_run_closes:
  "srv_run (map (\<lambda>g. Own (Close Statement g)) gs) v = Some (\<lambda>g. if g \<in> set gs then None else v g)"
  by (induction gs arbitrary: v) (auto simp: fun_eq_iff)

text \<open>
  One frame that one session sends over the connection, with what that session remembers at that moment
  and the part of the frame that is passed on unread. The step fails if the server refuses something, or if
  it has the wrong text, or none, under the name the frame was sent with.
\<close>

type_synonym flow_event = "session_memory \<times> char \<times> string \<times> string"

fun finds :: "frontend_message \<Rightarrow> session_statements \<Rightarrow> server_names \<Rightarrow> bool" where
  "finds (Parse s sql) ss v = (s = [] \<or> v (for_sql sql) = Some sql)"
| "finds (Bind _ s) ss v = (s = [] \<or> (case ss_get ss s of None \<Rightarrow> False | Some ps \<Rightarrow> v (p_global ps) = Some (p_sql ps)))"
| "finds _ ss v = True"

fun flow_step :: "flow_event \<Rightarrow> connection_statements \<times> server_names \<Rightarrow> (connection_statements \<times> server_names) option" where
  "flow_step (session, tag, body, tail) (held, v) =
     (case decoded tag body session of
        (Inl _, _) \<Rightarrow> Some (held, v)
      | (Inr (message, outgoing), session') \<Rightarrow>
          let d = send_upstream message \<lparr>f_tag = tag, f_body = outgoing\<rparr> tail session' held (pumping_default :: unit pumping)
          in case srv_run (sd_queue d) v of
               None \<Rightarrow> None
             | Some v' \<Rightarrow> if finds message (sm_statements session') v' then Some (sd_held d, v') else None)"

fun flow_run :: "flow_event list \<Rightarrow> connection_statements \<times> server_names \<Rightarrow> (connection_statements \<times> server_names) option" where
  "flow_run [] st = Some st"
| "flow_run (e # es) st = (case flow_step e st of None \<Rightarrow> None | Some st' \<Rightarrow> flow_run es st')"

text \<open>A session's names stand for texts of \<open>U\<close>, under the names derived from them.\<close>

definition session_ok :: "string set \<Rightarrow> session_statements \<Rightarrow> bool" where
  "session_ok U ss = (\<forall>n ps. ss_get ss n = Some ps \<longrightarrow> p_global ps = for_sql (p_sql ps) \<and> p_sql ps \<in> U)"

fun flow_message_ok :: "string set \<Rightarrow> frontend_message \<Rightarrow> bool" where
  "flow_message_ok U (Parse _ sql) = (sql \<in> U \<and> \<not> deallocates_everything sql)"
| "flow_message_ok U (Describe Statement n) = (n = [])"
| "flow_message_ok U (Close Statement n) = (n \<noteq> [])"
| "flow_message_ok U _ = True"

fun flow_ok :: "string set \<Rightarrow> flow_event \<Rightarrow> bool" where
  "flow_ok U (session, tag, body, tail) =
     (session_ok U (sm_statements session) \<and> length body + length tail \<le> default_max_frame \<and>
      (case decode_frontend \<lparr>f_tag = tag, f_body = body\<rparr> of Inl _ \<Rightarrow> True | Inr m \<Rightarrow> flow_message_ok U m))"

subsection \<open>Names on the wire\<close>

lemma hex_digit: "n < 16 \<Longrightarrow> is_ascii (lower (digit_char n)) \<and> lower (digit_char n) \<noteq> CHR 0x00"
proof -
  assume "n < 16"
  then have n: "of_char (digit_char n) = (if n < 10 then 48 + n else 55 + n)"
    by (simp add: digit_char_def take_bit_eq_mod)
  moreover from this have "of_char (lower (digit_char n)) = (if n < 10 then 48 + n else 87 + n)"
    using \<open>n < 16\<close> by (simp add: lower_def take_bit_eq_mod)
  ultimately show ?thesis using \<open>n < 16\<close> by (auto simp: is_ascii_def split: if_splits)
qed

lemma hex16_text: "c \<in> set (hex16 w) \<Longrightarrow> is_ascii c \<and> c \<noteq> CHR 0x00"
proof -
  assume "c \<in> set (hex16 w)"
  then consider "c = CHR ''0''" | d where "d \<in> set (write_radix 16 (unat w))" "c = lower d"
    by (auto simp: hex16_def pad_zero_def to_ascii_lowercase_def)
  then show ?thesis
  proof cases
    case 2
    then show ?thesis using write_radix_chars [of 16 "unat w"] hex_digit by auto
  qed (simp add: is_ascii_def)
qed

lemma for_sql_text: "wire_text (for_sql sql)"
proof -
  have "is_ascii c \<and> c \<noteq> CHR 0x00" if "c \<in> set (for_sql sql)" for c
    using that hex16_text by (auto simp: for_sql_def is_ascii_def split: prod.splits)
  then show ?thesis using utf8_ascii [of "for_sql sql"] by (auto simp: wire_text_def list_all_iff)
qed

lemma for_sql_nonempty [simp]: "for_sql sql \<noteq> []"
  by (simp add: for_sql_def split: prod.split)

lemma for_sql_length: "length (for_sql sql) = 39"
  by (simp add: for_sql_def length_hex16 split: prod.split)

text \<open>What follows a message that decodes does not change it.\<close>

definition grows :: "(reader \<Rightarrow> 'e + 'a \<times> reader) \<Rightarrow> bool" where
  "grows f \<longleftrightarrow> (\<forall>r t x r' q u. f r = Inr (x, r') \<longrightarrow> at r t \<longrightarrow> at q (t @ u) \<longrightarrow>
     (\<exists>q' t'. f q = Inr (x, q') \<and> at r' t' \<and> at q' (t' @ u)))"

definition kept :: "(reader \<Rightarrow> 'e + 'a) \<Rightarrow> bool" where
  "kept g \<longleftrightarrow> (\<forall>r t q u x. g r = Inr x \<longrightarrow> at r t \<longrightarrow> at q (t @ u) \<longrightarrow> g q = Inr x)"

lemma grows_read_cstr: "grows (read_cstr what)"
  unfolding grows_def
proof (intro allI impI)
  fix r t x r' q u
  assume a: "read_cstr what r = Inr (x, r')" "at r t" "at q (t @ u)"
  obtain t' where t': "t = cstr x @ t'" "wire_text x" "at r' t'" using read_cstr_inv [OF a(1,2)] by blast
  then show "\<exists>q' t'. read_cstr what q = Inr (x, q') \<and> at r' t' \<and> at q' (t' @ u)"
    using read_cstr_cstr [of q x "t' @ u" what] a(3) by auto
qed

lemma grows_read_u8: "grows (read_u8 what)"
  unfolding grows_def
proof (intro allI impI)
  fix r t x r' q u
  assume a: "read_u8 what r = Inr (x, r')" "at r t" "at q (t @ u)"
  obtain t' where t': "t = x # t'" "at r' t'" using read_u8_inv [OF a(1,2)] by blast
  then show "\<exists>q' t'. read_u8 what q = Inr (x, q') \<and> at r' t' \<and> at q' (t' @ u)"
    using read_u8_at [of q x "t' @ u" what] a(3) by auto
qed

lemma grows_read_i32: "grows (read_i32 what)"
  unfolding grows_def
proof (intro allI impI)
  fix r t x r' q u
  assume a: "read_i32 what r = Inr (x, r')" "at r t" "at q (t @ u)"
  then obtain b where b: "read_bytes 4 what r = Inr (b, r')" "x = to_signed 32 (of_be b)"
    by (auto simp: read_i32_def split: sum.splits)
  then have "b = take 4 t" "4 \<le> length t"
    using a(2) by (auto simp: read_bytes_def end_of_def at_def remaining_def split: if_splits)
  then have t: "t = b @ drop 4 t" "length b = 4" by simp_all
  then obtain r'' where "read_bytes 4 what r = Inr (b, r'')" "at r'' (drop 4 t)"
    using read_bytes_at [of r b "drop 4 t" what] a(2) by auto
  moreover have "at q (b @ drop 4 t @ u)" using a(3) t(1) by (metis append.assoc)
  then obtain q' where "read_bytes 4 what q = Inr (b, q')" "at q' (drop 4 t @ u)"
    using read_bytes_at [of q b "drop 4 t @ u" what] t(2) by auto
  ultimately show "\<exists>q' t'. read_i32 what q = Inr (x, q') \<and> at r' t' \<and> at q' (t' @ u)"
    using b by (auto simp: read_i32_def)
qed

lemma kept_then: "grows f \<Longrightarrow> (\<And>x. kept (g x)) \<Longrightarrow> kept (\<lambda>r. field_then w (f r) g)"
  unfolding kept_def
proof (intro allI impI)
  fix r t q u y
  assume f: "grows f" and g: "\<And>x. \<forall>r t q u y. g x r = Inr y \<longrightarrow> at r t \<longrightarrow> at q (t @ u) \<longrightarrow> g x q = Inr y"
    and a: "field_then w (f r) g = Inr y" "at r t" "at q (t @ u)"
  obtain x r1 where r1: "f r = Inr (x, r1)" "g x r1 = Inr y" using a(1) by (auto simp: field_then_def split: sum.splits)
  then obtain q1 t1 where q1: "f q = Inr (x, q1)" "at r1 t1" "at q1 (t1 @ u)" using f a(2,3) unfolding grows_def by blast
  then have "g x q1 = Inr y" using g [of x] r1(2) by blast
  then show "field_then w (f q) g = Inr y" using q1(1) by (simp add: field_then_def)
qed

lemma kept_return: "kept (\<lambda>r. Inr x)"
  by (simp add: kept_def)

lemma kept_if: "kept f \<Longrightarrow> kept g \<Longrightarrow> kept (\<lambda>r. if b then f r else g r)"
  by (cases b) simp_all

lemma kept_case: "(\<And>k. kept (h k)) \<Longrightarrow> kept (\<lambda>r. case c of Inl e \<Rightarrow> Inl e | Inr k \<Rightarrow> h k r)"
proof (cases c)
  case (Inr k)
  assume "\<And>k. kept (h k)"
  then show ?thesis using Inr by simp
qed (simp add: kept_def [of "\<lambda>r. Inl _"])

lemmas kept_intros = kept_then kept_case kept_return grows_read_cstr grows_read_u8 grows_read_i32

lemma kept_decode: "\<exists>k. kept k \<and> (\<forall>b. decode_frontend \<lparr>f_tag = tag, f_body = b\<rparr> = k (reader_new b))"
proof -
  consider "tag = tag_query" | "tag = tag_parse" | "tag = tag_bind" | "tag = tag_execute" | "tag = tag_describe" | "tag = tag_close"
    | "tag \<notin> {tag_query, tag_parse, tag_bind, tag_execute, tag_describe, tag_close}" by auto
  then show ?thesis
  proof cases
    case 1
    then show ?thesis
      by (intro exI [of _ "\<lambda>r. field_then FField (read_cstr ''sql'' r) (\<lambda>sql r. Inr (Query sql))"] conjI kept_intros)
        (simp add: decode_frontend_def)
  next
    case 2
    then show ?thesis
      by (intro exI [of _ "\<lambda>r. field_then FField (read_cstr ''statement_name'' r) (\<lambda>statement r.
            field_then FField (read_cstr ''sql'' r) (\<lambda>sql r. Inr (Parse statement sql)))"] conjI kept_intros)
        (simp add: decode_frontend_def)
  next
    case 3
    then show ?thesis
      by (intro exI [of _ "\<lambda>r. field_then FField (read_cstr ''portal_name'' r) (\<lambda>portal r.
            field_then FField (read_cstr ''statement_name'' r) (\<lambda>statement r. Inr (Bind portal statement)))"] conjI kept_intros)
        (simp add: decode_frontend_def)
  next
    case 4
    then show ?thesis
      by (intro exI [of _ "\<lambda>r. field_then FField (read_cstr ''portal_name'' r) (\<lambda>portal r.
            field_then FField (read_i32 ''max_rows'' r) (\<lambda>max_rows r. Inr (Execute portal max_rows)))"] conjI kept_intros)
        (simp add: decode_frontend_def)
  next
    case 5
    then show ?thesis
      by (intro exI [of _ "\<lambda>r. field_then FField (read_u8 ''describe_target'' r) (\<lambda>byte r.
            case target_from_byte byte of Inl e \<Rightarrow> Inl e
            | Inr k \<Rightarrow> field_then FField (read_cstr ''name'' r) (\<lambda>name r. Inr (Describe k name)))"] conjI kept_intros)
        (simp add: decode_frontend_def)
  next
    case 6
    then show ?thesis
      by (intro exI [of _ "\<lambda>r. field_then FField (read_u8 ''close_target'' r) (\<lambda>byte r.
            case target_from_byte byte of Inl e \<Rightarrow> Inl e
            | Inr k \<Rightarrow> field_then FField (read_cstr ''name'' r) (\<lambda>name r. Inr (Close k name)))"] conjI kept_intros)
        (simp add: decode_frontend_def)
  next
    case 7
    then have "decode_frontend \<lparr>f_tag = tag, f_body = b\<rparr> = decode_frontend \<lparr>f_tag = tag, f_body = []\<rparr>" for b
      by (simp add: decode_frontend_def)
    then show ?thesis
      by (intro exI [of _ "\<lambda>r. decode_frontend \<lparr>f_tag = tag, f_body = []\<rparr>"]) (simp add: kept_def)
  qed
qed

lemma decode_more:
  assumes "decode_frontend \<lparr>f_tag = tag, f_body = body\<rparr> = Inr m" "length (body @ u) \<le> usize_max"
  shows "decode_frontend \<lparr>f_tag = tag, f_body = body @ u\<rparr> = Inr m"
proof -
  obtain k where k: "kept k" "\<And>b. decode_frontend \<lparr>f_tag = tag, f_body = b\<rparr> = k (reader_new b)"
    using kept_decode by blast
  have "at (reader_new body) body" "at (reader_new (body @ u)) (body @ u)" using assms(2) by (auto intro: at_new)
  moreover have "k (reader_new body) = Inr m" using assms(1) k(2) by simp
  ultimately have "k (reader_new (body @ u)) = Inr m" using k(1) unfolding kept_def by blast
  then show ?thesis using k(2) by simp
qed

subsection \<open>The record and the server stay in step\<close>

definition in_step :: "string set \<Rightarrow> connection_statements \<Rightarrow> server_names \<Rightarrow> bool" where
  "in_step U held v \<longleftrightarrow> conn.agrees held v \<and>
     (\<forall>g sql. v g = Some sql \<longrightarrow> g = for_sql sql \<and> sql \<in> U)"

lemma in_step_has:
  assumes "in_step U held v" "inj_on for_sql U" "sql \<in> U" "holds held (for_sql sql)"
  shows "v (for_sql sql) = Some sql"
proof -
  obtain sql' where "v (for_sql sql) = Some sql'" using assms(1,4) by (auto simp: in_step_def conn.agrees_def)
  moreover from this have "for_sql sql = for_sql sql'" "sql' \<in> U" using assms(1) by (auto simp: in_step_def)
  ultimately show ?thesis using assms(2,3) by (auto dest: inj_onD)
qed

lemma in_step_evict:
  assumes "in_step U held v" "\<not> holds held (for_sql sql)" "sql \<in> U"
  obtains n closes held' v' where "evict_for (for_sql sql) held = (n, closes, held')" "srv_run closes v = Some v'"
    "v' (for_sql sql) = None" "in_step U held' (v'(for_sql sql \<mapsto> sql))"
proof -
  have i: "conn.agrees held v" "\<And>g sql. v g = Some sql \<Longrightarrow> g = for_sql sql \<and> sql \<in> U"
    using assms(1) by (auto simp: in_step_def)
  obtain evict held' where p: "cs_room (for_sql sql) held = Some (evict, held')" "for_sql sql \<notin> set evict" "v (for_sql sql) = None"
      "conn.agrees held' ((\<lambda>x. if x \<in> set evict then None else v x)(for_sql sql \<mapsto> sql))"
    by (rule conn.agrees_room [OF i(1) assms(2)])
  let ?v = "\<lambda>g. if g \<in> set evict then None else v g"
  have "evict_for (for_sql sql) held = (length evict, map (\<lambda>g. Own (Close Statement g)) evict, held')"
    using p(1) by (auto simp: evict_for_def cs_room_def split: prod.splits preparation.splits)
  moreover have "in_step U held' (?v(for_sql sql \<mapsto> sql))"
    using i(2) p(4) assms(3) by (auto simp: in_step_def split: if_splits)
  ultimately show thesis using that srv_run_closes [of evict v] p(3) by simp
qed

lemma ready_parse:
  assumes "in_step U held v" "sql \<in> U" "s \<noteq> []" "ss_get ss s = Some \<lparr>p_sql = sql, p_global = for_sql sql\<rparr>"
  shows "holds held (for_sql sql) \<and> ready_statement (Parse s sql') ss held = (AlreadyPrepared, [], held) \<or>
    (\<exists>n closes held' v'. ready_statement (Parse s sql') ss held = (Prepared n, closes, held') \<and> srv_run closes v = Some v' \<and>
       v' (for_sql sql) = None \<and> in_step U held' (v'(for_sql sql \<mapsto> sql)))"
proof (cases "holds held (for_sql sql)")
  case True
  then show ?thesis using assms(3,4) by (simp add: ready_statement_def unnamed_statement_def statement_of_def)
next
  case False
  obtain n closes held' v' where "evict_for (for_sql sql) held = (n, closes, held')" "srv_run closes v = Some v'"
      "v' (for_sql sql) = None" "in_step U held' (v'(for_sql sql \<mapsto> sql))"
    by (rule in_step_evict [OF assms(1) False assms(2)])
  then show ?thesis using False assms(3,4) by (simp add: ready_statement_def unnamed_statement_def statement_of_def)
qed

lemma ready_bind:
  assumes "in_step U held v" "inj_on for_sql U" "s \<noteq> []" "ss_get ss s = Some ps" "p_global ps = for_sql (p_sql ps)" "p_sql ps \<in> U"
  obtains n queue held' v' where "ready_statement (Bind p s) ss held = (Prepared n, queue, held')" "srv_run queue v = Some v'"
    "v' (p_global ps) = Some (p_sql ps)" "in_step U held' v'"
proof (cases "holds held (for_sql (p_sql ps))")
  case True
  then show thesis
    using that [of 0 "[]" held v] in_step_has [OF assms(1,2,6)] assms
    by (simp add: ready_statement_def unnamed_statement_def statement_of_def)
next
  case False
  obtain n closes held' v' where e: "evict_for (for_sql (p_sql ps)) held = (n, closes, held')" "srv_run closes v = Some v'"
      "v' (for_sql (p_sql ps)) = None" "in_step U held' (v'(for_sql (p_sql ps) \<mapsto> p_sql ps))"
    by (rule in_step_evict [OF assms(1) False assms(6)])
  show thesis
    by (rule that [of "n + 1" "closes @ [Own (Parse (for_sql (p_sql ps)) (p_sql ps))]" held' "v'(for_sql (p_sql ps) \<mapsto> p_sql ps)"])
      (use e assms(3-5) False in \<open>simp_all add: ready_statement_def unnamed_statement_def statement_of_def srv_run_append\<close>)
qed

lemma decode_tag:
  "decode_frontend f = Inr (Parse a b) \<Longrightarrow> f_tag f = tag_parse" "decode_frontend f = Inr (Bind a b) \<Longrightarrow> f_tag f = tag_bind"
  "decode_frontend f = Inr (Describe k a) \<Longrightarrow> f_tag f = tag_describe" "decode_frontend f = Inr (Close k a) \<Longrightarrow> f_tag f = tag_close"
  by (auto simp: decode_frontend_def Let_def dest!: field_then_ready split: if_splits sum.splits)

text \<open>Sending a message that neither drops all statements nor closes one.\<close>

lemma send_plain:
  assumes "\<forall>sql. sql_of m = Some sql \<longrightarrow> \<not> deallocates_everything sql" "\<forall>n. m \<noteq> Close Statement n"
    and "ready_statement m (sm_statements session) held = (needed, queue, held')"
  shows "sd_queue (send_upstream m onward tail session held p) =
      (if needed = AlreadyPrepared then queue else queue @ [Onward (onward\<lparr>f_body := f_body onward @ tail\<rparr>)])"
    "sd_held (send_upstream m onward tail session held p) = held'"
proof -
  have "(case sql_of m of Some sql \<Rightarrow> snd (resume_observe sql (sm_statements session) held) | None \<Rightarrow> (sm_statements session, held)) =
      (sm_statements session, held)"
    using assms(1) by (auto simp: resume_observe_def split: option.split)
  moreover have "(case m of Close Statement name \<Rightarrow> snd (on_close name ss held) | _ \<Rightarrow> (ss, held)) = (ss, held)" for ss
    using assms(2) by (auto split: frontend_message.split target.split)
  ultimately show "sd_queue (send_upstream m onward tail session held p) =
      (if needed = AlreadyPrepared then queue else queue @ [Onward (onward\<lparr>f_body := f_body onward @ tail\<rparr>)])"
    "sd_held (send_upstream m onward tail session held p) = held'"
    using assms(3) by (auto simp: send_upstream_def Let_def split: statement_ready.split)
qed

lemma frame_fits: "n \<le> default_max_frame \<Longrightarrow> n + 40 < usize_max"
  by (simp add: default_max_frame_def usize_max_def)

lemma flow_parse:
  assumes "in_step U held v" "inj_on for_sql U" "flow_ok U (session, tag, body, tail)"
    and "decode_frontend \<lparr>f_tag = tag, f_body = body\<rparr> = Inr (Parse s sql)" "s \<noteq> []"
  shows "\<exists>held' v'. flow_step (session, tag, body, tail) (held, v) = Some (held', v') \<and> in_step U held' v'"
proof -
  have t: "tag = tag_parse" using decode_tag(1) [OF assms(4)] by simp
  have len: "length body + length tail + 40 < usize_max" using frame_fits assms(3) by simp
  obtain u where b: "body = cstr s @ cstr sql @ u" "wire_text s" "wire_text sql"
    using parse_body [OF assms(4) [unfolded t]] len by auto
  let ?out = "cstr (for_sql sql) @ cstr sql @ u"
  have "\<exists>session'. decoded tag body session = (Inr (Parse s sql, ?out), session') \<and>
      ss_get (sm_statements session') s = Some \<lparr>p_sql = sql, p_global = for_sql sql\<rparr>"
    using assms(4,5) renamed(1) [OF for_sql_text [of sql] b(2,3), of u]
    by (simp add: decoded_def observe_def map_statement_name_def ss_parse_def ss_get_def hm_simps Let_def b(1))
  then obtain session' where d: "decoded tag body session = (Inr (Parse s sql, ?out), session')"
      "ss_get (sm_statements session') s = Some \<lparr>p_sql = sql, p_global = for_sql sql\<rparr>" by blast
  have U: "sql \<in> U" "\<not> deallocates_everything sql" using assms(3,4) by simp_all
  have r: "decode_frontend \<lparr>f_tag = tag, f_body = ?out @ tail\<rparr> = Inr (Parse (for_sql sql) sql)"
    unfolding t using decode_parse [OF _ for_sql_text [of sql] b(3), of "u @ tail"] len b(1) by (simp add: for_sql_length)
  from ready_parse [OF assms(1) U(1) assms(5) d(2), of sql] show ?thesis
  proof (elim disjE conjE exE)
    assume h: "holds held (for_sql sql)" "ready_statement (Parse s sql) (sm_statements session') held = (AlreadyPrepared, [], held)"
    then show ?thesis using d(1) send_plain [OF _ _ h(2), where p = "pumping_default :: unit pumping"] U(2) in_step_has [OF assms(1,2) U(1)] assms(1) by (simp add: Let_def)
  next
    fix n closes held' v'
    assume h: "ready_statement (Parse s sql) (sm_statements session') held = (Prepared n, closes, held')" "srv_run closes v = Some v'"
        "v' (for_sql sql) = None" "in_step U held' (v'(for_sql sql \<mapsto> sql))"
    then show ?thesis using d(1) send_plain [OF _ _ h(1), where p = "pumping_default :: unit pumping"] U(2) r by (simp add: srv_run_append Let_def)
  qed
qed

lemma flow_bind:
  assumes "in_step U held v" "inj_on for_sql U" "flow_ok U (session, tag, body, tail)"
    and "decode_frontend \<lparr>f_tag = tag, f_body = body\<rparr> = Inr (Bind p s)" "s \<noteq> []"
  shows "\<exists>held' v'. flow_step (session, tag, body, tail) (held, v) = Some (held', v') \<and> in_step U held' v'"
proof (cases "ss_get (sm_statements session) s")
  case None
  then have "\<exists>session'. decoded tag body session = (Inl (ProtocolViolation ''a statement name this session never parsed''), session')"
    using assms(4,5) by (simp add: decoded_def observe_def map_statement_name_def Let_def)
  then show ?thesis using assms(1) by auto
next
  case (Some ps)
  have t: "tag = tag_bind" using decode_tag(2) [OF assms(4)] by simp
  have len: "length body + length tail + 40 < usize_max" using frame_fits assms(3) by simp
  have ps: "p_global ps = for_sql (p_sql ps)" "p_sql ps \<in> U" using assms(3) Some by (auto simp: session_ok_def)
  obtain u where b: "body = cstr p @ cstr s @ u" "wire_text p" "wire_text s"
    using bind_body [OF assms(4) [unfolded t]] len by auto
  let ?out = "cstr p @ cstr (p_global ps) @ u"
  have d: "decoded tag body session = (Inr (Bind p s, ?out), session)"
    using assms(4,5) renamed(2) [OF for_sql_text [of "p_sql ps"] b(2,3), of u] Some ps(1)
    by (simp add: decoded_def observe_def map_statement_name_def Let_def b(1))
  have r: "decode_frontend \<lparr>f_tag = tag, f_body = ?out @ tail\<rparr> = Inr (Bind p (p_global ps))"
    unfolding t using decode_bind [OF _ b(2) for_sql_text [of "p_sql ps"], of "u @ tail"] len b(1) ps(1) by (simp add: for_sql_length)
  obtain n queue held' v' where h: "ready_statement (Bind p s) (sm_statements session) held = (Prepared n, queue, held')"
      "srv_run queue v = Some v'" "v' (p_global ps) = Some (p_sql ps)" "in_step U held' v'"
    by (rule ready_bind [OF assms(1,2,5) Some ps])
  then show ?thesis using d send_plain [OF _ _ h(1), where p = "pumping_default :: unit pumping"] r Some ps(1) by (simp add: srv_run_append Let_def)
qed

lemma in_step_keeps:
  "in_step U held v \<Longrightarrow> in_step U (cs_forget g held) (v(g := None))" "in_step U held v \<Longrightarrow> in_step U (cs_forget_all held) Map.empty"
  "in_step U held v \<Longrightarrow> in_step U (note_unnamed sql held) v"
  using conn.agrees_drop conn.agrees_note by (auto simp: in_step_def split: if_splits)

lemma flow_close:
  assumes "in_step U held v" "flow_ok U (session, tag, body, tail)"
    and "decode_frontend \<lparr>f_tag = tag, f_body = body\<rparr> = Inr (Close Statement n)" "n \<noteq> []"
  shows "\<exists>held' v'. flow_step (session, tag, body, tail) (held, v) = Some (held', v') \<and> in_step U held' v'"
proof -
  have t: "tag = tag_close" using decode_tag(4) [OF assms(3)] by simp
  have len: "length body + length tail + 40 < usize_max" using frame_fits assms(2) by simp
  obtain u where b: "body = CHR ''S'' # cstr n @ u" "wire_text n" using described_body [OF assms(3)] t len by auto
  show ?thesis
  proof (cases "ss_get (sm_statements session) n")
    case None
    then have "\<exists>session'. decoded tag body session = (Inl (ProtocolViolation ''a statement name this session never parsed''), session')"
      using assms(3,4) by (simp add: decoded_def observe_def map_statement_name_def describes_statement_def Let_def b(1))
    then show ?thesis using assms(1) by auto
  next
    case (Some ps)
    have ps: "p_global ps = for_sql (p_sql ps)" using assms(2) Some by (auto simp: session_ok_def)
    let ?out = "CHR ''S'' # cstr (p_global ps) @ u"
    have d: "decoded tag body session = (Inr (Close Statement n, ?out), session)"
      using assms(3,4) renamed(3) [OF for_sql_text [of "p_sql ps"] b(2) b(2), of u] Some ps
      by (simp add: decoded_def observe_def map_statement_name_def describes_statement_def Let_def b(1))
    have r: "decode_frontend \<lparr>f_tag = tag, f_body = ?out @ tail\<rparr> = Inr (Close Statement (p_global ps))"
      unfolding t using decode_described(2) [OF for_sql_text [of "p_sql ps"], of "u @ tail"] len b(1) ps by (simp add: for_sql_length)
    have "sd_queue (send_upstream (Close Statement n) onward tail session held p) = [Onward (onward\<lparr>f_body := f_body onward @ tail\<rparr>)]"
      "sd_held (send_upstream (Close Statement n) onward tail session held p) = cs_forget (p_global ps) held"
      for onward and p :: "unit pumping"
      using Some by (simp_all add: send_upstream_def on_close_def ss_close_def ss_get_def ready_statement_def unnamed_statement_def
          statement_of_def Let_def)
    then show ?thesis using d r in_step_keeps(1) [OF assms(1)] by (simp add: Let_def)
  qed
qed

lemma flow_query:
  assumes "in_step U held v" "flow_ok U (session, tag, body, tail)"
    and "decode_frontend \<lparr>f_tag = tag, f_body = body\<rparr> = Inr (Query sql)"
  shows "\<exists>held' v'. flow_step (session, tag, body, tail) (held, v) = Some (held', v') \<and> in_step U held' v'"
proof -
  have "length body + length tail + 40 < usize_max" using frame_fits assms(2) by simp
  then have r: "decode_frontend \<lparr>f_tag = tag, f_body = body @ tail\<rparr> = Inr (Query sql)" using decode_more [OF assms(3)] by simp
  obtain session' where d: "decoded tag body session = (Inr (Query sql, body), session')"
    using assms(3) by (auto simp: decoded_def observe_def map_statement_name_def Let_def)
  have "sd_queue (send_upstream (Query sql) onward tail session' held p) = [Onward (onward\<lparr>f_body := f_body onward @ tail\<rparr>)]"
    "sd_held (send_upstream (Query sql) onward tail session' held p) = (if deallocates_everything sql then cs_forget_all held else held)"
    for onward and p :: "unit pumping"
    by (simp_all add: send_upstream_def resume_observe_def ready_statement_def unnamed_statement_def statement_of_def Let_def)
  then show ?thesis using d r in_step_keeps(2) [OF assms(1)] assms(1) by (simp add: Let_def)
qed

text \<open>Messages about nothing that has a name.\<close>

fun nameless :: "frontend_message \<Rightarrow> bool" where
  "nameless (Query _) = False"
| "nameless (Parse s _) = (s = [])"
| "nameless (Bind _ s) = (s = [])"
| "nameless (Describe Statement n) = (n = [])"
| "nameless (Close Statement _) = False"
| "nameless _ = True"

lemma ready_nameless:
  assumes "nameless m"
  obtains needed queue held' where "ready_statement m ss held = (needed, queue, held')" "needed \<noteq> AlreadyPrepared"
    "srv_run queue v = Some v" "held' = held \<or> (\<exists>sql. held' = note_unnamed sql held)"
proof (cases "unnamed_statement m ss")
  case None
  then have "statement_of m ss = None"
    using assms by (cases m) (auto simp: unnamed_statement_def statement_of_def split: if_splits)
  then show thesis using that [of NothingNeeded "[]" held] None by (simp add: ready_statement_def)
next
  case (Some sql)
  show thesis
  proof (cases "is_parse m \<or> holds_unnamed held sql")
    case True
    then show ?thesis using that [of NothingNeeded "[]" "note_unnamed sql held"] Some
      by (auto simp: ready_statement_def prepare_unnamed_def Let_def)
  next
    case False
    then show ?thesis using that [of "Prepared 1" "[Own (Parse [] sql)]" "note_unnamed sql held"] Some
      by (auto simp: ready_statement_def prepare_unnamed_def Let_def)
  qed
qed

lemma nameless_forwarded:
  assumes "nameless m" "decode_frontend \<lparr>f_tag = tag, f_body = body\<rparr> = Inr m" "length body \<le> usize_max"
  shows "\<exists>session'. decoded tag body session = (Inr (m, body), session')" "srv_step m v = Some v" "finds m ss v"
    "\<forall>n. m \<noteq> Close Statement n"
proof -
  have d: "\<not> describes_statement body" if "m = Describe Portal n \<or> m = Close Portal n" for n
    using that described_body [OF assms(2) that _ assms(3)] decode_tag(3,4) [of "\<lparr>f_tag = tag, f_body = body\<rparr>"] assms(2)
    by (auto simp: describes_statement_def)
  show "\<exists>session'. decoded tag body session = (Inr (m, body), session')"
    using assms(1,2) d
    by (cases m rule: nameless.cases) (auto simp: decoded_def observe_def map_statement_name_def ss_parse_def Let_def split: prod.splits)
  show "srv_step m v = Some v" "finds m ss v" "\<forall>n. m \<noteq> Close Statement n" using assms(1) by (cases m rule: nameless.cases; simp)+
qed

lemma flow_nameless:
  assumes "in_step U held v" "flow_ok U (session, tag, body, tail)"
    and "decode_frontend \<lparr>f_tag = tag, f_body = body\<rparr> = Inr m" "nameless m"
  shows "\<exists>held' v'. flow_step (session, tag, body, tail) (held, v) = Some (held', v') \<and> in_step U held' v'"
proof -
  have len: "length body + length tail + 40 < usize_max" using frame_fits assms(2) by simp
  then have r: "decode_frontend \<lparr>f_tag = tag, f_body = body @ tail\<rparr> = Inr m" using decode_more [OF assms(3)] by simp
  have "length body \<le> usize_max" using len by simp
  note f = nameless_forwarded [OF assms(4,3) this]
  obtain session' where d: "decoded tag body session = (Inr (m, body), session')" using f(1) by blast
  obtain needed queue held' where h: "ready_statement m (sm_statements session') held = (needed, queue, held')" "needed \<noteq> AlreadyPrepared"
      "srv_run queue v = Some v" "held' = held \<or> (\<exists>sql. held' = note_unnamed sql held)"
    by (rule ready_nameless [OF assms(4)])
  have "\<forall>sql. sql_of m = Some sql \<longrightarrow> \<not> deallocates_everything sql" using assms(2,3,4) by (cases m) auto
  note s = send_plain [OF this f(4) h(1), where p = "pumping_default :: unit pumping"]
  have "in_step U held' v" using h(4) assms(1) in_step_keeps(3) by blast
  then show ?thesis using d r s h f(2,3) by (simp add: srv_run_append Let_def)
qed

lemma flow_in_step:
  assumes "in_step U held v" "inj_on for_sql U" "flow_ok U e"
  shows "\<exists>held' v'. flow_step e (held, v) = Some (held', v') \<and> in_step U held' v'"
proof -
  obtain session tag body tail where e: "e = (session, tag, body, tail)" by (cases e)
  note ok = assms(3) [unfolded e]
  show ?thesis
  proof (cases "decode_frontend \<lparr>f_tag = tag, f_body = body\<rparr>")
    case (Inl err)
    then show ?thesis using assms(1) by (simp add: e decoded_def)
  next
    case (Inr m)
    then have "flow_message_ok U m" using ok by simp
    then consider s sql where "m = Parse s sql" "s \<noteq> []" | p s where "m = Bind p s" "s \<noteq> []" | n where "m = Close Statement n" "n \<noteq> []"
      | sql where "m = Query sql" | "nameless m"
      by (cases m rule: nameless.cases) auto
    then show ?thesis
    proof cases
      case 1
      then show ?thesis using flow_parse [OF assms(1,2) ok] Inr e by blast
    next
      case 2
      then show ?thesis using flow_bind [OF assms(1,2) ok] Inr e by blast
    next
      case 3
      then show ?thesis using flow_close [OF assms(1) ok] Inr e by blast
    next
      case 4
      then show ?thesis using flow_query [OF assms(1) ok] Inr e by blast
    next
      case 5
      then show ?thesis using flow_nameless [OF assms(1) ok Inr] e by blast
    qed
  qed
qed


lemma example_texts:
  "wire_text []" "wire_text ''s''" "wire_text ''t''" "wire_text ''SELECT 1''" "wire_text ''DISCARD ALL''"
  by (simp_all add: wire_text_def utf8_ascii is_ascii_def)

lemma example_bodies:
  "decode_frontend \<lparr>f_tag = tag_parse, f_body = cstr ''s'' @ cstr ''SELECT 1'' @ i16_bytes 0\<rparr> = Inr (Parse ''s'' ''SELECT 1'')"
  "decode_frontend \<lparr>f_tag = tag_bind, f_body = cstr [] @ cstr ''t'' @ i16_bytes 0 @ i16_bytes 0 @ i16_bytes 0\<rparr> = Inr (Bind [] ''t'')"
  by (simp_all add: decode_parse decode_bind example_texts usize_max_def)

lemma example_deallocates: "\<not> deallocates_everything ''SELECT 1''" "deallocates_everything ''DISCARD ALL''"
  by (simp_all add: deallocates_everything_def lexer_pull_def lex_eval)


subsection \<open>Where that fails\<close>

definition knows :: "string \<Rightarrow> string \<Rightarrow> session_memory" where
  "knows name sql = \<lparr>sm_params = [], sm_statements = [(name, \<lparr>p_sql = sql, p_global = for_sql sql\<rparr>)]\<rparr>"

definition holding_one :: "string \<Rightarrow> connection_statements" where
  "holding_one sql = \<lparr>cs_config = statement_config_default, cs_held = [(for_sql sql, 1)], cs_unnamed = 0, cs_tick = 1\<rparr>"

lemmas send_eval = send_upstream_def resume_observe_def on_close_def ready_statement_def unnamed_statement_def statement_of_def
  ss_close_def ss_get_def knows_def Let_def

lemma prepare_first:
  "prepare_for g (cs_new statement_config_default) =
     (Replay [], \<lparr>cs_config = statement_config_default, cs_held = [(g, 1)], cs_unnamed = 0, cs_tick = 1\<rparr>)"
  by (simp add: prepare_for_def cs_new_def statement_config_default_def evict_loop.simps Let_def)

lemma prepare_none:
  "prepare_for g (cs_new \<lparr>per_connection_cap = 0\<rparr>\<lparr>cs_tick := t\<rparr>) = (Replay [], cs_new \<lparr>per_connection_cap = 0\<rparr>\<lparr>cs_tick := Suc t\<rparr>)"
  by (simp add: prepare_for_def cs_new_def evict_loop.simps least_recently_used_def Let_def)

abbreviation (input) bind_t :: string where
  "bind_t \<equiv> cstr [] @ cstr ''t'' @ i16_bytes 0 @ i16_bytes 0 @ i16_bytes 0"

lemma cap_zero_step:
  "flow_step (knows ''t'' ''SELECT 1'', tag_bind, bind_t, []) (cs_new \<lparr>per_connection_cap = 0\<rparr>\<lparr>cs_tick := t\<rparr>, v) =
     (if v (for_sql ''SELECT 1'') \<noteq> None then None
      else Some (cs_new \<lparr>per_connection_cap = 0\<rparr>\<lparr>cs_tick := Suc t\<rparr>, v(for_sql ''SELECT 1'' \<mapsto> ''SELECT 1'')))"
proof -
  let ?g = "for_sql ''SELECT 1''" and ?rest = "i16_bytes 0 @ i16_bytes 0 @ i16_bytes 0"
  have m: "decoded tag_bind bind_t (knows ''t'' ''SELECT 1'') = (Inr (Bind [] ''t'', cstr [] @ cstr ?g @ ?rest), knows ''t'' ''SELECT 1'')"
    unfolding decoded_def example_bodies
    using renamed(2) [OF for_sql_text [of "''SELECT 1''"] example_texts(1) example_texts(3), of ?rest]
    by (simp add: observe_def map_statement_name_def ss_get_def knows_def Let_def)
  have r: "decode_frontend \<lparr>f_tag = tag_bind, f_body = cstr [] @ cstr ?g @ ?rest\<rparr> = Inr (Bind [] ?g)"
    by (rule decode_bind) (simp_all add: for_sql_text for_sql_length example_texts usize_max_def)
  have "\<not> holds (cs_new \<lparr>per_connection_cap = 0\<rparr>\<lparr>cs_tick := t\<rparr>) ?g" by (simp add: holds_def cs_new_def)
  then have q: "sd_queue (send_upstream (Bind [] ''t'') onward [] (knows ''t'' ''SELECT 1'') (cs_new \<lparr>per_connection_cap = 0\<rparr>\<lparr>cs_tick := t\<rparr>) p) =
      [Own (Parse ?g ''SELECT 1''), Onward onward]"
    "sd_held (send_upstream (Bind [] ''t'') onward [] (knows ''t'' ''SELECT 1'') (cs_new \<lparr>per_connection_cap = 0\<rparr>\<lparr>cs_tick := t\<rparr>) p) =
      cs_new \<lparr>per_connection_cap = 0\<rparr>\<lparr>cs_tick := Suc t\<rparr>" for onward and p :: "unit pumping"
    by (simp_all add: send_eval evict_for_def prepare_none)
  show ?thesis using r by (simp add: m q Let_def) (simp add: knows_def ss_get_def)
qed

text \<open>
  C39. Where the record and the server part. A \<open>Parse\<close> is recorded as held when it is sent, whatever the server
  says to it, and the next \<open>Parse\<close> of the same text is answered by the proxy with a \<open>ParseComplete\<close> and not
  sent. A named \<open>Parse\<close> of \<open>DISCARD ALL\<close> erases its own name, so its \<open>Bind\<close> ends the session. A \<open>Describe\<close> of
  a statement the connection does not hold is sent without preparing it. Closing the unnamed statement
  forgets the named one of the same text, which the server keeps. A simple query leaves the unnamed
  statement recorded, though it destroys it on the server. A \<open>Close\<close> of a name never parsed ends the session,
  though the server accepts it. Using a held statement does not refresh its place in the order of eviction.
  And with a cap of zero the second \<open>Bind\<close> of a statement repeats a \<open>Parse\<close> the server refuses.
\<close>

theorem statement_gaps:
  "holds (sd_held (send_upstream (Parse ''s'' ''SELECT 1'') f [] (knows ''s'' ''SELECT 1'') (cs_new statement_config_default) p)) (for_sql ''SELECT 1'') \<and>
   sd_sent (send_upstream (Parse ''s'' ''SELECT 1'') f [] (knows ''s'' ''SELECT 1'') (holding_one ''SELECT 1'') p) = False \<and>
   sd_client (send_upstream (Parse ''s'' ''SELECT 1'') f [] (knows ''s'' ''SELECT 1'') (holding_one ''SELECT 1'') p) = [\<lparr>f_tag = tag_parse_complete, f_body = []\<rparr>] \<and>
   fst (decoded tag_bind (cstr [] @ cstr ''t'' @ i16_bytes 0 @ i16_bytes 0 @ i16_bytes 0)
     (sd_session (send_upstream (Parse ''t'' ''DISCARD ALL'') f [] (knows ''t'' ''DISCARD ALL'') (cs_new statement_config_default) p))) =
     Inl (ProtocolViolation ''a statement name this session never parsed'') \<and>
   ready_statement (Describe Statement n) ss held = (NothingNeeded, [], held) \<and>
   \<not> holds (sd_held (send_upstream (Close Statement []) f [] (knows [] ''SELECT 1'') (holding_one ''SELECT 1'') p)) (for_sql ''SELECT 1'') \<and>
   srv_step (Close Statement []) [for_sql ''SELECT 1'' \<mapsto> ''SELECT 1''] = Some [for_sql ''SELECT 1'' \<mapsto> ''SELECT 1''] \<and>
   holds_unnamed (sd_held (send_upstream (Query ''SELECT 1'') f [] session held p)) sql = holds_unnamed held sql \<and>
   fst (map_statement_name (Close Statement ''s'') (CHR ''S'' # cstr ''s'') []) = None \<and>
   sd_held (send_upstream (Bind [] ''s'') f [] (knows ''s'' ''SELECT 1'') (holding_one ''SELECT 1'') p) = holding_one ''SELECT 1'' \<and>
   flow_run (replicate 2 (knows ''t'' ''SELECT 1'', tag_bind, cstr [] @ cstr ''t'' @ i16_bytes 0 @ i16_bytes 0 @ i16_bytes 0, []))
     (cs_new \<lparr>per_connection_cap = 0\<rparr>, Map.empty) = None"
proof (intro conjI)
  show "holds (sd_held (send_upstream (Parse ''s'' ''SELECT 1'') f [] (knows ''s'' ''SELECT 1'') (cs_new statement_config_default) p)) (for_sql ''SELECT 1'')"
    by (simp add: send_eval example_deallocates evict_for_def prepare_first) (simp add: holds_def)
  show "fst (decoded tag_bind (cstr [] @ cstr ''t'' @ i16_bytes 0 @ i16_bytes 0 @ i16_bytes 0)
     (sd_session (send_upstream (Parse ''t'' ''DISCARD ALL'') f [] (knows ''t'' ''DISCARD ALL'') (cs_new statement_config_default) p))) =
     Inl (ProtocolViolation ''a statement name this session never parsed'')"
  proof -
    have "sm_statements (sd_session (send_upstream (Parse ''t'' ''DISCARD ALL'') f [] (knows ''t'' ''DISCARD ALL'') (cs_new statement_config_default) p)) = []"
      by (simp add: send_eval example_deallocates ss_close_all_def)
    then show ?thesis unfolding decoded_def example_bodies by (simp add: observe_def map_statement_name_def ss_get_def Let_def)
  qed
  show "flow_run (replicate 2 (knows ''t'' ''SELECT 1'', tag_bind, cstr [] @ cstr ''t'' @ i16_bytes 0 @ i16_bytes 0 @ i16_bytes 0, []))
     (cs_new \<lparr>per_connection_cap = 0\<rparr>, Map.empty) = None"
    using cap_zero_step [of 0 Map.empty] cap_zero_step [of 1 "[for_sql ''SELECT 1'' \<mapsto> ''SELECT 1'']"]
    by (simp add: numeral_2_eq_2 cs_new_def)
qed (simp_all add: send_eval example_deallocates holding_one_def holds_def cs_forget_def map_statement_name_def describes_statement_def
    fun_upd_idem_iff for_sql_nonempty [symmetric])

text \<open>Frames with an empty body, and the frame that ends an answer.\<close>

definition blank :: "char \<Rightarrow> frame" where
  "blank tag = \<lparr>f_tag = tag, f_body = []\<rparr>"

definition idle_ready :: frame where
  "idle_ready = \<lparr>f_tag = tag_ready_for_query, f_body = ''I''\<rparr>"

lemma pump_blank:
  assumes "list_all (\<lambda>t. t \<noteq> tag_ready_for_query \<and> t \<noteq> tag_copy_in_response \<and> t \<noteq> tag_copy_both_response) tags"
  shows "pr_client (pump Sync (map (Pair 0) (map blank tags @ [idle_ready])) [] r p) = strip (pm_swallow p) (map blank tags @ [idle_ready])"
    "pm_swallow (pr_pumping (pump Sync (map (Pair 0) (map blank tags @ [idle_ready])) [] r p)) =
       pm_swallow p - length (filter completion (map blank tags))"
proof -
  let ?arrivals = "map (Pair 0) (map blank tags @ [idle_ready]) :: (nat \<times> frame) list"
  have "list_all (\<lambda>f. f_tag f \<noteq> tag_ready_for_query) (map blank tags)" "filter asks_copy (map blank tags) = []"
    using assms by (auto simp: list_all_iff blank_def asks_copy_def filter_empty_conv)
  moreover have "says_ready Idle idle_ready" by (simp add: says_ready_def idle_ready_def tx_from_byte_def)
  ultimately have "answered (pm_swallow p) (map blank tags @ [idle_ready]) [] [] Idle (rl_held r) (pump_loop False ?arrivals [] r p)"
    using pump_loop_answer [of ?arrivals "map blank tags" idle_ready "[]" Idle "[]" "[]" "[]" p r] by (simp add: comp_def)
  then show "pr_client (pump Sync ?arrivals [] r p) = strip (pm_swallow p) (map blank tags @ [idle_ready])"
    "pm_swallow (pr_pumping (pump Sync ?arrivals [] r p)) = pm_swallow p - length (filter completion (map blank tags))"
    by (simp_all add: answered_def pump_def completion_def idle_ready_def)
qed

text \<open>
  C40. Where the client loses step with the server. An error drops the answers to the frames the proxy sent
  itself, but the pump goes on waiting for them and hides a later completion that is the client's own. After
  a \<open>Close\<close> of the client and a \<open>Parse\<close> of the proxy, the client is shown the \<open>ParseComplete\<close> and not its
  \<open>CloseComplete\<close>. And the \<open>ParseComplete\<close> the proxy gives for a statement that is already prepared overtakes
  the answers to what the client sent before it.
\<close>

theorem answer_gaps:
  "pm_swallow (pr_pumping (pump Sync (map (Pair 0) [blank tag_error_response, idle_ready]) [] r (p\<lparr>pm_swallow := 1\<rparr>))) = 1 \<and>
   pr_client (pump Sync (map (Pair 0) [blank tag_parse_complete, idle_ready]) [] r (p\<lparr>pm_swallow := 1\<rparr>)) = [idle_ready] \<and>
   (let closed = send_upstream (Close Statement ''s'') f [] (knows ''s'' ''SELECT 1'') (cs_new statement_config_default) (pumping_default :: unit pumping);
        bound = send_upstream (Bind [] ''s'') f [] (knows ''s'' ''SELECT 1'') (sd_held closed) (sd_pumping closed)
    in sd_queue closed @ sd_queue bound = [Onward f, Own (Parse (for_sql ''SELECT 1'') ''SELECT 1''), Onward f] \<and>
       pr_client (pump Sync (map (Pair 0) [blank tag_close_complete, blank tag_parse_complete, blank tag_bind_complete, idle_ready]) [] r
         (sd_pumping bound)) = [blank tag_parse_complete, blank tag_bind_complete, idle_ready]) \<and>
   (let bound = send_upstream (Bind [] ''s'') f [] (knows ''s'' ''SELECT 1'') (holding_one ''SELECT 1'') (pumping_default :: unit pumping);
        parsed = send_upstream (Parse ''s'' ''SELECT 1'') f [] (knows ''s'' ''SELECT 1'') (sd_held bound) (sd_pumping bound)
    in sd_client bound @ sd_client parsed @ pr_client (pump Sync (map (Pair 0) [blank tag_bind_complete, idle_ready]) [] r (sd_pumping parsed)) =
       [blank tag_parse_complete, blank tag_bind_complete, idle_ready])"
proof -
  have closed: "send_upstream (Close Statement ''s'') f [] (knows ''s'' ''SELECT 1'') (cs_new statement_config_default) (pumping_default :: unit pumping) =
      \<lparr>sd_sent = True, sd_client = [], sd_queue = [Onward f], sd_session = \<lparr>sm_params = [], sm_statements = []\<rparr>,
       sd_held = cs_new statement_config_default, sd_pumping = \<lparr>pm_swallow = 0, pm_owed = [OwedClose], pm_recording = None\<rparr>\<rparr>"
    by (simp add: send_eval cs_forget_def cs_new_def pumping_default_def sent_def)
  have bound: "sd_queue (send_upstream (Bind [] ''s'') f [] (knows ''s'' ''SELECT 1'') (cs_new statement_config_default) q) =
        [Own (Parse (for_sql ''SELECT 1'') ''SELECT 1''), Onward f]"
    "pm_swallow (sd_pumping (send_upstream (Bind [] ''s'') f [] (knows ''s'' ''SELECT 1'') (cs_new statement_config_default) q)) = Suc (pm_swallow q)"
    for q :: "unit pumping"
    by (simp_all add: send_eval evict_for_def prepare_first)
  have parsed: "sd_client (send_upstream (Bind [] ''s'') f [] (knows ''s'' ''SELECT 1'') (holding_one ''SELECT 1'') q) = []"
    "sd_held (send_upstream (Bind [] ''s'') f [] (knows ''s'' ''SELECT 1'') (holding_one ''SELECT 1'') q) = holding_one ''SELECT 1''"
    "pm_swallow (sd_pumping (send_upstream (Bind [] ''s'') f [] (knows ''s'' ''SELECT 1'') (holding_one ''SELECT 1'') q)) = pm_swallow q"
    "sd_client (send_upstream (Parse ''s'' ''SELECT 1'') f [] (knows ''s'' ''SELECT 1'') (holding_one ''SELECT 1'') q) = [blank tag_parse_complete]"
    "sd_pumping (send_upstream (Parse ''s'' ''SELECT 1'') f [] (knows ''s'' ''SELECT 1'') (holding_one ''SELECT 1'') q) = q"
    for q :: "unit pumping"
    by (simp_all add: send_eval holding_one_def holds_def example_deallocates blank_def)
  show ?thesis
    using pump_blank [of "[tag_error_response]" r "p\<lparr>pm_swallow := 1\<rparr>"] pump_blank [of "[tag_parse_complete]" r "p\<lparr>pm_swallow := 1\<rparr>"]
      pump_blank(1) [of "[tag_close_complete, tag_parse_complete, tag_bind_complete]" r, where 'a = unit]
      pump_blank(1) [of "[tag_bind_complete]" r, where 'a = unit]
    by (simp add: Let_def closed bound parsed completion_def blank_def idle_ready_def)
qed

end
