(* ===== verification/Held_Sequence.thy ===== *)
theory Held_Sequence
  imports Pump Encode
begin

text \<open>
  \<^verbatim>\<open>crates/pgprox-session/src/sequence.rs\<close>: an extended-query sequence that is held back until the cache has
  been asked, and the assembly of an answer from a stored one. With the recording of the pump this closes
  the circle: what the cache answers is, byte for byte, what the server answered.
\<close>

subsection \<open>Holding a sequence back\<close>

definition max_held_bytes :: nat where
  "max_held_bytes = 64 * 1024"

datatype held = Withheld | Complete | SendOn

record facts =
  fa_sql :: "string option"
  fa_may_begin :: bool

datatype held_step = NothingHeld | Parsed | Bound | Executed

record held_sequence =
  hs_frames :: string
  hs_sql :: "string option"
  hs_params :: string
  hs_result_formats :: string
  hs_portal :: string
  hs_step :: held_step
  hs_described :: bool

definition hs_new :: held_sequence where
  "hs_new = \<lparr>hs_frames = [], hs_sql = None, hs_params = [], hs_result_formats = [], hs_portal = [], hs_step = NothingHeld, hs_described = False\<rparr>"

definition hs_clear :: "held_sequence \<Rightarrow> held_sequence" where
  "hs_clear hs = hs_new"

definition begins :: "frontend_message \<Rightarrow> bool" where
  "begins message = (case message of Parse _ _ \<Rightarrow> True | Bind _ _ \<Rightarrow> True | _ \<Rightarrow> False)"

definition may_hold :: "frontend_message \<Rightarrow> facts \<Rightarrow> held_sequence \<Rightarrow> bool" where
  "may_hold message fa hs =
     (case message of
        Parse _ _ \<Rightarrow> hs_frames hs = [] \<and> hs_step hs = NothingHeld \<and> fa_sql fa \<noteq> None
      | Bind _ _ \<Rightarrow>
          (hs_step hs = NothingHeld \<or> hs_step hs = Parsed) \<and> fa_sql fa \<noteq> None \<and>
          (case hs_sql hs of None \<Rightarrow> True | Some sql \<Rightarrow> fa_sql fa = Some sql)
      | Describe kind name \<Rightarrow> kind = Portal \<and> hs_step hs = Bound \<and> \<not> hs_described hs \<and> name = hs_portal hs
      | Execute portal max_rows \<Rightarrow> hs_step hs = Bound \<and> max_rows = 0 \<and> portal = hs_portal hs
      | _ \<Rightarrow> False)"

definition hold_record :: "frontend_message \<Rightarrow> facts \<Rightarrow> string \<Rightarrow> held_sequence \<Rightarrow> held_sequence" where
  "hold_record message fa body hs =
     (case message of
        Parse _ _ \<Rightarrow> hs\<lparr>hs_step := Parsed, hs_sql := fa_sql fa\<rparr>
      | Bind portal _ \<Rightarrow>
          (let read = bind_parameters_of \<lparr>f_tag = tag_bind, f_body = body\<rparr>
           in hs\<lparr>hs_step := Bound, hs_sql := fa_sql fa, hs_portal := portal,
                 hs_params := (case read of Inl _ \<Rightarrow> [] | Inr bp \<Rightarrow> bp_raw bp),
                 hs_result_formats := (case read of Inl _ \<Rightarrow> [] | Inr bp \<Rightarrow> bp_result_formats bp)\<rparr>)
      | Describe _ _ \<Rightarrow> hs\<lparr>hs_described := True\<rparr>
      | Execute _ _ \<Rightarrow> hs\<lparr>hs_step := Executed\<rparr>
      | _ \<Rightarrow> hs)"

definition feed :: "frontend_message \<Rightarrow> char \<Rightarrow> string \<Rightarrow> facts \<Rightarrow> held_sequence \<Rightarrow> held \<times> held_sequence" where
  "feed message tag body fa hs =
     (if hs_frames hs = [] \<and> \<not> (fa_may_begin fa \<and> begins message) then (SendOn, hs)
      else if hs_frames hs \<noteq> [] \<and> message = Sync then (if hs_step hs = Executed then Complete else SendOn, hs)
      else if \<not> may_hold message fa hs then (SendOn, hs)
      else if length (hs_frames hs) + length body + 5 > max_held_bytes then (SendOn, hs)
      else
        let hs = hold_record message fa body hs
        in (Withheld, hs\<lparr>hs_frames := tagged (hs_frames hs) tag body\<rparr>))"

subsection \<open>Reading it back\<close>

text \<open>One step of the iterator over the held frames.\<close>

definition frames_next :: "string \<Rightarrow> (frame \<times> string) option" where
  "frames_next rest =
     (if length rest < 5 then None
      else
        let len = of_be (take 4 (drop 1 rest))
        in if len < 4 then None
           else
             let stop = 5 + (len - 4)
             in if length rest < stop then None
                else Some (\<lparr>f_tag = hd rest, f_body = drop 5 (take stop rest)\<rparr>, drop stop rest))"

lemma frames_next_less: "frames_next rest = Some (f, rest') \<Longrightarrow> length rest' < length rest"
  by (auto simp: frames_next_def Let_def split: if_splits)

function frames_of :: "string \<Rightarrow> frame list" where
  "frames_of rest = (case frames_next rest of None \<Rightarrow> [] | Some (f, rest') \<Rightarrow> f # frames_of rest')"
  by pat_completeness auto
termination by (relation "measure length") (auto dest: frames_next_less)

declare frames_of.simps [simp del]

definition hs_replay :: "held_sequence \<Rightarrow> frame list" where
  "hs_replay hs = frames_of (hs_frames hs)"

subsection \<open>Answering\<close>

datatype unservable = NoRowDescription | Malformed | NothingRan

text \<open>The loop over a stored answer: where its description ends, where its rows begin, and whether it is over.\<close>

function split_loop :: "string \<Rightarrow> nat \<Rightarrow> nat option \<Rightarrow> nat \<Rightarrow> bool \<Rightarrow> unservable + (string option \<times> string)" where
  "split_loop payload i description rows_from completed =
     (if i < length payload then
        (if completed \<or> length payload - i < 5 then Inl Malformed
         else
           let tag = payload ! i; len = of_be (take 4 (drop (i + 1) payload))
           in if len < 4 then Inl Malformed
              else
                let stop = i + 5 + (len - 4)
                in if stop > length payload \<or> \<not> belongs_in_payload tag then Inl Malformed
                   else if tag = tag_row_description then
                     (if i \<noteq> 0 then Inl Malformed else split_loop payload stop (Some stop) stop completed)
                   else split_loop payload stop description rows_from
                          (completed \<or> tag = tag_command_complete \<or> tag = tag_empty_query_response))
      else if completed then Inr (map_option (\<lambda>e. take e payload) description, drop rows_from payload)
      else Inl Malformed)"
  by pat_completeness auto
termination by (relation "measure (\<lambda>(payload, i, description, rows_from, completed). length payload - i)") auto

declare split_loop.simps [simp del]

definition split_payload :: "string \<Rightarrow> unservable + (string option \<times> string)" where
  "split_payload payload = split_loop payload 0 None 0 False"

abbreviation (input) parse_complete_bytes :: string where
  "parse_complete_bytes \<equiv> [CHR ''1'', CHR 0x00, CHR 0x00, CHR 0x00, CHR 0x04]"

abbreviation (input) bind_complete_bytes :: string where
  "bind_complete_bytes \<equiv> [CHR ''2'', CHR 0x00, CHR 0x00, CHR 0x00, CHR 0x04]"

text \<open>What one held frame is answered with.\<close>

definition answer_part :: "string option \<Rightarrow> string \<Rightarrow> char \<Rightarrow> string" where
  "answer_part description rows tag =
     (if tag = tag_parse then parse_complete_bytes
      else if tag = tag_bind then bind_complete_bytes
      else if tag = tag_describe then (case description of None \<Rightarrow> [] | Some d \<Rightarrow> d)
      else if tag = tag_execute then rows
      else [])"

definition assemble :: "string \<Rightarrow> string \<Rightarrow> held_sequence \<Rightarrow> unservable + string" where
  "assemble payload out hs =
     (if hs_step hs \<noteq> Executed then Inl NothingRan
      else case split_payload payload of
        Inl e \<Rightarrow> Inl e
      | Inr (description, rows) \<Rightarrow>
          if hs_described hs \<and> description = None then Inl NoRowDescription
          else Inr (ready_for_query (foldl (\<lambda>out f. out @ answer_part description rows (f_tag f)) out (hs_replay hs)) Idle))"

definition assemble_simple :: "string \<Rightarrow> string \<Rightarrow> unservable + string" where
  "assemble_simple payload out =
     (case split_payload payload of
        Inl e \<Rightarrow> Inl e
      | Inr (None, rows) \<Rightarrow> Inl NoRowDescription
      | Inr (Some description, rows) \<Rightarrow> Inr (ready_for_query (out @ description @ rows) Idle))"

subsection \<open>Frames in a row\<close>

definition frame_bytes :: "frame \<Rightarrow> string" where
  "frame_bytes f = tagged [] (f_tag f) (f_body f)"

definition fits :: "frame \<Rightarrow> bool" where
  "fits f = (4 + length (f_body f) \<le> u32_max)"

lemma tagged_bytes: "tagged out (f_tag f) (f_body f) = out @ frame_bytes f"
  by (simp add: frame_bytes_def tagged_def)

lemma length_frame_bytes: "length (frame_bytes f) = 5 + length (f_body f)"
  by (simp add: frame_bytes_def tagged_def)

lemma frame_bytes_parts:
  assumes "fits f"
  shows "hd (frame_bytes f @ rest) = f_tag f" "of_be (take 4 (drop 1 (frame_bytes f @ rest))) = 4 + length (f_body f)"
    "drop 5 (take (5 + length (f_body f)) (frame_bytes f @ rest)) = f_body f"
  using assms read_be4 [of "4 + length (f_body f)"]
  by (simp_all add: frame_bytes_def tagged_def fits_def len_prefix_def try_u32_exact take_Cons' drop_Cons')

lemma frames_next_frame: "fits f \<Longrightarrow> frames_next (frame_bytes f @ rest) = Some (f, rest)"
  using frame_bytes_parts [of f rest] length_frame_bytes [of f]
  by (simp add: frames_next_def Let_def)

lemma frames_of_frames: "list_all fits fs \<Longrightarrow> frames_of (concat (map frame_bytes fs)) = fs"
proof (induction fs)
  case Nil
  then show ?case by (simp add: frames_of.simps frames_next_def)
next
  case (Cons f fs)
  then show ?case by (simp add: frames_of.simps [of "frame_bytes f @ _"] frames_next_frame)
qed

subsection \<open>What is held\<close>

datatype hold_event = Fed frame facts | Cleared

fun hold_step :: "hold_event \<Rightarrow> held_sequence \<times> frame list \<Rightarrow> held_sequence \<times> frame list" where
  "hold_step (Fed f fa) (hs, log) =
     (case decode_frontend f of
        Inl _ \<Rightarrow> (hs, log)
      | Inr message \<Rightarrow>
          (case feed message (f_tag f) (f_body f) fa hs of
             (Withheld, hs') \<Rightarrow> (hs', log @ [f])
           | (_, hs') \<Rightarrow> (hs', log)))"
| "hold_step Cleared (hs, log) = (hs_clear hs, [])"

definition hold_run :: "hold_event list \<Rightarrow> held_sequence \<times> frame list" where
  "hold_run es = fold hold_step es (hs_new, [])"

text \<open>The tags of a sequence that got as far as the step says, with or without a \<open>Parse\<close>.\<close>

definition shape :: "held_step \<Rightarrow> bool \<Rightarrow> string \<Rightarrow> bool" where
  "shape step described tags =
     (case step of
        NothingHeld \<Rightarrow> tags = [] \<and> \<not> described
      | Parsed \<Rightarrow> tags = [tag_parse] \<and> \<not> described
      | Bound \<Rightarrow> (\<exists>p. tags = p @ tag_bind # (if described then [tag_describe] else []) \<and> (p = [] \<or> p = [tag_parse]))
      | Executed \<Rightarrow> (\<exists>p. tags = p @ tag_bind # (if described then [tag_describe] else []) @ [tag_execute] \<and> (p = [] \<or> p = [tag_parse])))"

definition held_ok :: "held_sequence \<Rightarrow> frame list \<Rightarrow> bool" where
  "held_ok hs log = (hs_frames hs = concat (map frame_bytes log) \<and> length (hs_frames hs) \<le> max_held_bytes \<and>
     shape (hs_step hs) (hs_described hs) (map f_tag log))"

lemma held_ok_fits: "held_ok hs log \<Longrightarrow> list_all fits log"
proof -
  assume ok: "held_ok hs log"
  have "length (frame_bytes f) \<le> length (concat (map frame_bytes log))" if "f \<in> set log" for f
    using that by (induction log) auto
  then have "5 + length (f_body f) \<le> max_held_bytes" if "f \<in> set log" for f
    using that ok length_frame_bytes [of f] unfolding held_ok_def by (metis le_trans)
  then have "4 + length (f_body f) \<le> u32_max" if "f \<in> set log" for f
    using that by (fastforce simp: max_held_bytes_def u32_max_def)
  then show ?thesis by (simp add: list_all_iff fits_def)
qed

lemma decode_held_tag:
  "decode_frontend f = Inr (Parse a b) \<Longrightarrow> f_tag f = tag_parse" "decode_frontend f = Inr (Bind a b) \<Longrightarrow> f_tag f = tag_bind"
  "decode_frontend f = Inr (Describe k a) \<Longrightarrow> f_tag f = tag_describe" "decode_frontend f = Inr (Execute a n) \<Longrightarrow> f_tag f = tag_execute"
  by (auto simp: decode_frontend_def Let_def dest!: field_then_ready split: if_splits sum.splits)

lemma feed_withheld:
  assumes "feed m tag body fa hs = (Withheld, hs')"
  shows "may_hold m fa hs" "hs' = (hold_record m fa body hs)\<lparr>hs_frames := tagged (hs_frames hs) tag body\<rparr>"
    "length (hs_frames hs) + length body + 5 \<le> max_held_bytes"
proof -
  have "hs_frames (hold_record m fa body hs) = hs_frames hs"
    by (cases m) (simp_all add: hold_record_def Let_def)
  then show "may_hold m fa hs" "hs' = (hold_record m fa body hs)\<lparr>hs_frames := tagged (hs_frames hs) tag body\<rparr>"
    "length (hs_frames hs) + length body + 5 \<le> max_held_bytes"
    using assms by (auto simp: feed_def Let_def split: if_splits)
qed

lemma feed_other: "feed m tag body fa hs = (v, hs') \<Longrightarrow> v \<noteq> Withheld \<Longrightarrow> hs' = hs"
  by (auto simp: feed_def Let_def split: if_splits)

lemma shape_record:
  assumes "may_hold m fa hs" "shape (hs_step hs) (hs_described hs) tags" "hs_frames hs = [] \<longrightarrow> tags = []"
    and "decode_frontend f = Inr m"
  shows "shape (hs_step (hold_record m fa body hs)) (hs_described (hold_record m fa body hs)) (tags @ [f_tag f])"
proof (cases m)
  case (Parse a b)
  then show ?thesis using assms decode_held_tag(1) by (auto simp: may_hold_def hold_record_def shape_def)
next
  case (Bind a b)
  then show ?thesis using assms decode_held_tag(2) by (auto simp: may_hold_def hold_record_def shape_def Let_def)
next
  case (Describe k a)
  then show ?thesis using assms decode_held_tag(3) by (auto simp: may_hold_def hold_record_def shape_def)
next
  case (Execute a n)
  then show ?thesis using assms decode_held_tag(4) by (auto simp: may_hold_def hold_record_def shape_def)
qed (use assms(1) in \<open>auto simp: may_hold_def\<close>)

lemma hold_step_ok:
  assumes "held_ok hs log" "hold_step e (hs, log) = (hs', log')"
  shows "held_ok hs' log'"
proof (cases e)
  case (Fed f fa)
  show ?thesis
  proof (cases "decode_frontend f")
    case (Inr m)
    obtain v hs1 where v: "feed m (f_tag f) (f_body f) fa hs = (v, hs1)" by force
    show ?thesis
    proof (cases "v = Withheld")
      case True
      note w = feed_withheld [OF v [unfolded True]]
      have "hs' = hs1" "log' = log @ [f]" using assms(2) Fed Inr v True by simp_all
      moreover have "hs_frames hs = [] \<longrightarrow> map f_tag log = []"
        using assms(1) by (cases log) (auto simp: held_ok_def frame_bytes_def tagged_def)
      then have "shape (hs_step (hold_record m fa (f_body f) hs)) (hs_described (hold_record m fa (f_body f) hs)) (map f_tag log @ [f_tag f])"
        using shape_record [OF w(1) _ _ Inr] assms(1) unfolding held_ok_def by blast
      ultimately show ?thesis using assms(1) w(2,3)
        by (simp add: held_ok_def tagged_bytes length_frame_bytes)
    next
      case False
      then have "hs' = hs1" "log' = log" using assms(2) Fed Inr v by (cases v; simp)+
      then show ?thesis using feed_other [OF v False] assms(1) by simp
    qed
  qed (use assms Fed in simp)
qed (use assms in \<open>auto simp: held_ok_def hs_clear_def hs_new_def shape_def\<close>)

lemma hold_run_ok: "held_ok (fst (hold_run es)) (snd (hold_run es))"
proof (induction es rule: rev_induct)
  case Nil
  then show ?case by (simp add: hold_run_def held_ok_def hs_new_def shape_def)
next
  case (snoc e es)
  then show ?case using hold_step_ok [of "fst (hold_run es)" "snd (hold_run es)" e]
    by (simp add: hold_run_def)
qed

text \<open>
  C14. What is held is what the client sent. After any messages fed to a held sequence, kept or refused, and
  any clearing, reading it back gives exactly the frames that were withheld since it was last cleared, in
  their order and unchanged; it is never more than its limit; it is complete only after a \<open>Bind\<close> and an
  \<open>Execute\<close>, with at most a \<open>Parse\<close> before and a \<open>Describe\<close> between them; and a message that is not withheld
  leaves it as it was.
\<close>

theorem held_replays:
  "hs_replay (fst (hold_run es)) = snd (hold_run es) \<and>
   length (hs_frames (fst (hold_run es))) \<le> max_held_bytes \<and>
   shape (hs_step (fst (hold_run es))) (hs_described (fst (hold_run es))) (map f_tag (snd (hold_run es))) \<and>
   (case feed m (f_tag f) (f_body f) fa (fst (hold_run es)) of
      (Withheld, _) \<Rightarrow> True | (_, hs) \<Rightarrow> hs = fst (hold_run es))"
proof -
  have "hs_frames (fst (hold_run es)) = concat (map frame_bytes (snd (hold_run es)))"
    using hold_run_ok [of es] by (simp add: held_ok_def)
  then have "hs_replay (fst (hold_run es)) = snd (hold_run es)"
    using frames_of_frames [OF held_ok_fits [OF hold_run_ok]] by (simp add: hs_replay_def)
  moreover have "case feed m (f_tag f) (f_body f) fa (fst (hold_run es)) of
      (Withheld, _) \<Rightarrow> True | (_, hs) \<Rightarrow> hs = fst (hold_run es)"
    using feed_other [of m "f_tag f" "f_body f" fa "fst (hold_run es)"] by (auto split: prod.split held.split)
  ultimately show ?thesis using hold_run_ok [of es] unfolding held_ok_def by (elim conjE) (intro conjI)
qed

subsection \<open>Taking a stored answer apart\<close>

abbreviation (input) bytes_of :: "frame list \<Rightarrow> string" where
  "bytes_of fs \<equiv> concat (map frame_bytes fs)"

lemma split_loop_frame:
  assumes "fits f" "belongs_in_payload (f_tag f)" "payload = pre @ frame_bytes f @ post"
    and "f_tag f = tag_row_description \<Longrightarrow> pre = []"
  shows "split_loop payload (length pre) d n False =
    (if f_tag f = tag_row_description then split_loop payload (length (frame_bytes f)) (Some (length (frame_bytes f))) (length (frame_bytes f)) False
     else split_loop payload (length (pre @ frame_bytes f)) d n (f_tag f = tag_command_complete \<or> f_tag f = tag_empty_query_response))"
proof -
  have "payload ! length pre = hd (frame_bytes f @ post)"
    by (simp add: assms(3) frame_bytes_def tagged_def)
  then have h: "payload ! length pre = f_tag f" "of_be (take 4 (drop (length pre + 1) payload)) = 4 + length (f_body f)"
    using frame_bytes_parts(1,2) [OF assms(1), of post] assms(3) by simp_all
  have l: "length payload = length pre + (5 + length (f_body f)) + length post"
    by (simp add: assms(3) length_frame_bytes)
  show ?thesis
  proof (cases "f_tag f = tag_row_description")
    case True
    then show ?thesis using assms(2,4) h
      by (subst split_loop.simps) (simp add: l length_frame_bytes Let_def)
  next
    case False
    then show ?thesis using assms(2) h
      by (subst split_loop.simps) (simp add: l length_frame_bytes Let_def add.assoc)
  qed
qed

lemma split_loop_rows:
  assumes "list_all fits (rows @ [c])" "list_all (\<lambda>f. f_tag f = tag_data_row) rows"
    and "f_tag c = tag_command_complete \<or> f_tag c = tag_empty_query_response" "payload = pre @ bytes_of (rows @ [c])"
  shows "split_loop payload (length pre) d n False = Inr (map_option (\<lambda>e. take e payload) d, drop n payload)"
  using assms
proof (induction rows arbitrary: pre)
  case Nil
  then have "split_loop payload (length pre) d n False = split_loop payload (length payload) d n True"
    using split_loop_frame [of c payload pre "[]" d n] by (auto simp: belongs_in_payload_def)
  then show ?case by (simp add: split_loop.simps)
next
  case (Cons f rows)
  have "split_loop payload (length pre) d n False = split_loop payload (length (pre @ frame_bytes f)) d n False"
    using Cons.prems split_loop_frame [of f payload pre "bytes_of (rows @ [c])" d n] by (simp add: belongs_in_payload_def)
  then show ?case using Cons.IH [of "pre @ frame_bytes f"] Cons.prems by simp
qed

text \<open>The answer to one statement: its description, if it was asked for, its rows and its completion.\<close>

definition one_answer :: "frame option \<Rightarrow> frame list \<Rightarrow> frame \<Rightarrow> bool" where
  "one_answer d rows c =
     (list_all fits (rows @ [c]) \<and> list_all (\<lambda>f. f_tag f = tag_data_row) rows \<and>
      (f_tag c = tag_command_complete \<or> f_tag c = tag_empty_query_response) \<and>
      (case d of None \<Rightarrow> True | Some f \<Rightarrow> fits f \<and> f_tag f = tag_row_description))"

definition described_by :: "frame option \<Rightarrow> frame list" where
  "described_by d = (case d of None \<Rightarrow> [] | Some f \<Rightarrow> [f])"

lemma split_payload_answer:
  assumes "one_answer d rows c"
  shows "split_payload (bytes_of (described_by d @ rows @ [c])) = Inr (map_option frame_bytes d, bytes_of (rows @ [c]))"
proof (cases d)
  case None
  then show ?thesis using assms split_loop_rows [of rows c _ "[]" None 0]
    by (simp add: one_answer_def described_by_def split_payload_def)
next
  case (Some f)
  let ?payload = "frame_bytes f @ bytes_of (rows @ [c])"
  let ?n = "length (frame_bytes f)"
  have f: "fits f" "f_tag f = tag_row_description" using assms Some by (simp_all add: one_answer_def)
  then have "split_loop ?payload 0 None 0 False = split_loop ?payload ?n (Some ?n) ?n False"
    using split_loop_frame [of f ?payload "[]" _ None 0] by (simp add: belongs_in_payload_def)
  moreover have "split_loop ?payload ?n (Some ?n) ?n False = Inr (Some (frame_bytes f), bytes_of (rows @ [c]))"
    using assms split_loop_rows [of rows c ?payload "frame_bytes f" "Some ?n" ?n] by (simp add: one_answer_def)
  ultimately show ?thesis using Some by (simp add: described_by_def split_payload_def)
qed

subsection \<open>The cache answers as the server did\<close>

definition completion_of :: "char \<Rightarrow> frame" where
  "completion_of tag = \<lparr>f_tag = tag, f_body = []\<rparr>"

definition ready_frame :: frame where
  "ready_frame = \<lparr>f_tag = tag_ready_for_query, f_body = ''I''\<rparr>"

text \<open>What the server answers: completions of what it was asked first, the answer to the statement, and that it is idle.\<close>

definition reply :: "frame list \<Rightarrow> frame option \<Rightarrow> frame list \<Rightarrow> frame \<Rightarrow> frame list" where
  "reply head d rows c = head @ described_by d @ rows @ [c, ready_frame]"

definition reply_head :: "bool \<Rightarrow> frame list" where
  "reply_head parsed = (if parsed then [completion_of tag_parse_complete] else []) @ [completion_of tag_bind_complete]"

lemma empty_length: "be 4 (try_u32 (len_prefix + 0)) = [CHR 0x00, CHR 0x00, CHR 0x00, CHR 0x04]"
  by (simp add: be_def try_u32_def len_prefix_def u32_max_def upt_conv_Cons ascii_eval)

lemma completion_bytes:
  "frame_bytes (completion_of tag_parse_complete) = parse_complete_bytes"
  "frame_bytes (completion_of tag_bind_complete) = bind_complete_bytes"
  "ready_for_query out Idle = out @ frame_bytes ready_frame"
  using empty_length by (simp_all add: frame_bytes_def completion_of_def ready_frame_def tagged_def ready_for_query_def)

lemma foldl_append: "foldl (\<lambda>out x. out @ g x) out xs = out @ concat (map g xs)"
  by (induction xs arbitrary: out) simp_all

lemma parts_of_shape:
  assumes "shape Executed described tags" "described \<Longrightarrow> d \<noteq> None"
  shows "concat (map (answer_part (map_option frame_bytes d) rows) tags) =
    bytes_of (reply_head (tag_parse \<in> set tags) @ described_by (if described then d else None)) @ rows"
  using assms by (auto simp: shape_def answer_part_def reply_head_def completion_bytes described_by_def split: option.split)

lemma assemble_answer:
  assumes "one_answer d rows c" "hold_run es = (hs, log)" "hs_step hs = Executed" "hs_described hs \<Longrightarrow> d \<noteq> None"
  shows "assemble (bytes_of (described_by d @ rows @ [c])) out hs =
    Inr (out @ bytes_of (reply (reply_head (tag_parse \<in> set (map f_tag log))) (if hs_described hs then d else None) rows c))"
proof -
  let ?part = "answer_part (map_option frame_bytes d) (bytes_of (rows @ [c]))"
  have ok: "held_ok hs log" using hold_run_ok [of es] assms(2) by simp
  then have "hs_replay hs = log"
    using frames_of_frames [OF held_ok_fits [OF ok]] by (simp add: hs_replay_def held_ok_def)
  then have "foldl (\<lambda>out f. out @ ?part (f_tag f)) out (hs_replay hs) = out @ concat (map ?part (map f_tag log))"
    by (simp add: foldl_append o_def)
  moreover have "concat (map ?part (map f_tag log)) =
      bytes_of (reply_head (tag_parse \<in> set (map f_tag log)) @ described_by (if hs_described hs then d else None)) @ bytes_of (rows @ [c])"
    using ok assms(3,4) by (intro parts_of_shape) (simp_all add: held_ok_def)
  ultimately show ?thesis
    using assms(3,4) unfolding assemble_def split_payload_answer [OF assms(1)] by (simp add: completion_bytes reply_def)
qed

text \<open>The recording a pump leaves behind.\<close>

definition payload_of :: "frame list \<Rightarrow> string" where
  "payload_of fs = bytes_of (filter (\<lambda>f. belongs_in_payload (f_tag f)) fs)"

lemma pump_frame_recording:
  assumes "pm_recording p = Some live" "f_tag f \<noteq> tag_error_response" "length (rec_frames live @ payload_of [f]) \<le> mb"
  shows "pm_recording (pd_pumping (pump_frame mb fl f r p)) = Some (live\<lparr>rec_frames := rec_frames live @ payload_of [f]\<rparr>)"
proof -
  have "\<not> streams f p" "read_part f p = f_body f" using assms(1) by (simp_all add: streams_def read_part_def wanted_body_def)
  moreover have "fst (record_frame mb (f_tag f) (f_body f) (Some live)) = Some (live\<lparr>rec_frames := rec_frames live @ payload_of [f]\<rparr>)"
    using assms(2,3) by (auto simp: record_frame_def payload_of_def tagged_bytes Let_def)
  moreover have "swallowed f p \<Longrightarrow> payload_of [f] = []"
    by (auto simp: swallowed_def completion_def payload_of_def belongs_in_payload_def)
  ultimately show ?thesis using assms(1) by (simp add: pump_frame_eq buffer_frame_eq Let_def)
qed

lemma pump_loop_recording:
  assumes "map snd arrivals = answer @ [z]" "says_ready status z"
    and "list_all (\<lambda>f. f_tag f \<noteq> tag_ready_for_query \<and> f_tag f \<noteq> tag_error_response \<and> \<not> asks_copy f) answer"
    and "pm_recording p = Some live" "list_all (\<lambda>(mb, f). length (rec_frames live @ payload_of answer) \<le> mb) arrivals"
  shows "pm_recording (pr_pumping (pump_loop False arrivals client r p)) = Some (live\<lparr>rec_frames := rec_frames live @ payload_of answer\<rparr>)"
  using assms
proof (induction answer arbitrary: arrivals r p live)
  case Nil
  then obtain mb where a: "arrivals = [(mb, z)]" by (cases arrivals) auto
  have "payload_of [z] = []" "f_tag z \<noteq> tag_error_response"
    using Nil.prems(2) by (auto simp: says_ready_def payload_of_def belongs_in_payload_def)
  then show ?case using Nil.prems a pump_frame_recording [of p live z mb False r]
    by (simp add: pump_frame_ready [OF Nil.prems(2)] payload_of_def Let_def)
next
  case (Cons f answer)
  then obtain mb rest where a: "arrivals = (mb, f) # rest" "map snd rest = answer @ [z]" by (cases arrivals) auto
  let ?d = "pump_frame mb False f r p"
  let ?live = "live\<lparr>rec_frames := rec_frames live @ payload_of [f]\<rparr>"
  have split: "payload_of (f # answer) = payload_of [f] @ payload_of answer" by (simp add: payload_of_def)
  have "pm_recording (pd_pumping ?d) = Some ?live"
    using Cons.prems(3,4,5) a split by (intro pump_frame_recording) auto
  moreover have "pd_next ?d = Continue" using Cons.prems(3) pump_frame_next [of f mb r p] by simp
  moreover have "list_all (\<lambda>(mb, f). length (rec_frames ?live @ payload_of answer) \<le> mb) rest"
    using Cons.prems(5) a split by (simp add: add.assoc)
  ultimately show ?case using Cons.IH [OF a(2) Cons.prems(2), of "pd_pumping ?d" ?live "pd_relay ?d"] Cons.prems(3) a split
    by (simp add: Let_def)
qed

lemma reply_split:
  "reply head d rows c = (head @ described_by d @ rows @ [c]) @ [ready_frame]" "says_ready Idle ready_frame"
  by (simp_all add: reply_def says_ready_def ready_frame_def tx_from_byte_def)

definition head_ok :: "frame list \<Rightarrow> bool" where
  "head_ok head = list_all (\<lambda>f. f_tag f = tag_parse_complete \<or> f_tag f = tag_bind_complete \<or> f_tag f = tag_close_complete) head"

lemma reply_plain:
  assumes "one_answer d rows c" "head_ok head"
  shows "list_all (\<lambda>f. f_tag f \<noteq> tag_ready_for_query \<and> f_tag f \<noteq> tag_error_response \<and> \<not> asks_copy f) (head @ described_by d @ rows @ [c])"
    "payload_of (head @ described_by d @ rows @ [c]) = bytes_of (described_by d @ rows @ [c])"
proof -
  have h: "list_all (\<lambda>f. f_tag f \<noteq> tag_ready_for_query \<and> f_tag f \<noteq> tag_error_response \<and> \<not> asks_copy f \<and> \<not> belongs_in_payload (f_tag f)) head"
    using assms(2) unfolding head_ok_def
    by (rule list.pred_mono_strong) (auto simp: asks_copy_def belongs_in_payload_def)
  have b: "list_all (\<lambda>f. f_tag f \<noteq> tag_ready_for_query \<and> f_tag f \<noteq> tag_error_response \<and> \<not> asks_copy f \<and> belongs_in_payload (f_tag f)) (described_by d @ rows @ [c])"
    using assms(1) by (auto simp: one_answer_def described_by_def asks_copy_def belongs_in_payload_def list_all_iff split: option.splits)
  show "list_all (\<lambda>f. f_tag f \<noteq> tag_ready_for_query \<and> f_tag f \<noteq> tag_error_response \<and> \<not> asks_copy f) (head @ described_by d @ rows @ [c])"
    using h b unfolding list_all_iff by auto
  have "filter (\<lambda>f. belongs_in_payload (f_tag f)) head = []"
    using h by (auto simp: list_all_iff filter_empty_conv)
  moreover have "filter (\<lambda>f. belongs_in_payload (f_tag f)) (described_by d @ rows @ [c]) = described_by d @ rows @ [c]"
    using b unfolding filter_id_conv list_all_iff by blast
  ultimately show "payload_of (head @ described_by d @ rows @ [c]) = bytes_of (described_by d @ rows @ [c])"
    by (simp add: payload_of_def)
qed

text \<open>
  C9. A stored answer is the answer of the server. Let the server answer a query or a sequence with
  completions, a row description if one was asked for, rows, and the completion of the statement, let the
  pump be recording, and let the limit on a recording not be passed. The client is shown the answer, and
  the recording that is left answers any complete held sequence, begun by a \<open>Parse\<close> or not, byte for byte
  as the server would: with the completions that sequence asks for, with the description exactly when it
  asks for one, and with the same rows; it answers a simple query as the server would; and a sequence that
  asks for a description the recording does not have is refused.
\<close>

theorem cache_answers_alike:
  assumes "one_answer d rows c" "head_ok head" "asked \<noteq> Flush" "map snd arrivals = reply head d rows c"
    and "pm_recording p = Some \<lparr>rec_key = key, rec_frames = [], rec_failed = False\<rparr>"
    and "list_all (\<lambda>(mb, f). length (bytes_of (described_by d @ rows @ [c])) \<le> mb) arrivals"
  shows "pr_client (pump asked arrivals client r p) = strip (pm_swallow p) (reply head d rows c) \<and>
    (\<exists>stored. pm_recording (pr_pumping (pump asked arrivals client r p)) = Some \<lparr>rec_key = key, rec_frames = stored, rec_failed = False\<rparr> \<and>
      (\<forall>es hs log out. hold_run es = (hs, log) \<and> hs_step hs = Executed \<longrightarrow>
        assemble stored out hs =
          (if hs_described hs \<and> d = None then Inl NoRowDescription
           else Inr (out @ bytes_of (reply (reply_head (tag_parse \<in> set (map f_tag log))) (if hs_described hs then d else None) rows c)))) \<and>
      (\<forall>out. assemble_simple stored out = (if d = None then Inl NoRowDescription else Inr (out @ bytes_of (reply [] d rows c)))))"
proof (intro conjI exI allI impI)
  note plain = reply_plain [OF assms(1,2)]
  have pump: "pump asked arrivals client r p = pump_loop False arrivals client r p" using assms(3) by (simp add: pump_def)
  have copies: "filter asks_copy (head @ described_by d @ rows @ [c]) = []"
    using plain(1) unfolding filter_empty_conv list_all_iff by blast
  have "answered (pm_swallow p) (reply head d rows c) [] [] Idle (rl_held r) (pump_loop False arrivals client r p)"
    using pump_loop_answer [of arrivals "head @ described_by d @ rows @ [c]" ready_frame "[]" Idle client "[]" client p r]
      reply_split assms(4) copies plain(1) by (simp add: list_all_iff)
  then show "pr_client (pump asked arrivals client r p) = strip (pm_swallow p) (reply head d rows c)"
    by (simp add: pump answered_def)
  show "pm_recording (pr_pumping (pump asked arrivals client r p)) =
      Some \<lparr>rec_key = key, rec_frames = bytes_of (described_by d @ rows @ [c]), rec_failed = False\<rparr>"
    unfolding pump using pump_loop_recording [OF _ reply_split(2) plain(1) assms(5), of arrivals client r] assms(4,6)
    by (simp add: plain(2) reply_split(1))
  fix es hs log and out :: string
  assume h: "hold_run es = (hs, log) \<and> hs_step hs = Executed"
  show "assemble (bytes_of (described_by d @ rows @ [c])) out hs =
      (if hs_described hs \<and> d = None then Inl NoRowDescription
       else Inr (out @ bytes_of (reply (reply_head (tag_parse \<in> set (map f_tag log))) (if hs_described hs then d else None) rows c)))"
  proof (cases "hs_described hs \<and> d = None")
    case True
    then show ?thesis using h unfolding assemble_def split_payload_answer [OF assms(1)] by simp
  next
    case False
    then show ?thesis using assemble_answer [OF assms(1), of es hs log out] h by auto
  qed
next
  fix out :: string
  show "assemble_simple (bytes_of (described_by d @ rows @ [c])) out =
      (if d = None then Inl NoRowDescription else Inr (out @ bytes_of (reply [] d rows c)))"
    unfolding assemble_simple_def split_payload_answer [OF assms(1)]
    by (cases d) (simp_all add: completion_bytes reply_def described_by_def)
qed

text \<open>A \<open>Bind\<close> and an \<open>Execute\<close> that are held, and the answer to them.\<close>

definition example_held :: "hold_event list" where
  "example_held =
     map (\<lambda>f. Fed f \<lparr>fa_sql = Some ''SELECT 1'', fa_may_begin = True\<rparr>)
       [\<lparr>f_tag = tag_bind, f_body = cstr [] @ cstr ''s'' @ []\<rparr>, \<lparr>f_tag = tag_execute, f_body = cstr [] @ i32_bytes 0\<rparr>]"

definition example_answer :: "frame list" where
  "example_answer = reply [completion_of tag_bind_complete] None [\<lparr>f_tag = tag_data_row, f_body = ''x''\<rparr>] \<lparr>f_tag = tag_command_complete, f_body = ''y''\<rparr>"

definition example_pumping :: "unit pumping" where
  "example_pumping = pumping_default\<lparr>pm_recording := Some \<lparr>rec_key = (), rec_frames = [], rec_failed = False\<rparr>\<rparr>"

lemma example_held_run:
  "hs_step (fst (hold_run example_held)) = Executed" "\<not> hs_described (fst (hold_run example_held))"
  "map f_tag (snd (hold_run example_held)) = [tag_bind, tag_execute]"
proof -
  let ?bind = "\<lparr>f_tag = tag_bind, f_body = cstr [] @ cstr ''s'' @ []\<rparr>"
  let ?execute = "\<lparr>f_tag = tag_execute, f_body = cstr [] @ i32_bytes 0\<rparr>"
  let ?fa = "\<lparr>fa_sql = Some ''SELECT 1'', fa_may_begin = True\<rparr>"
  have w: "wire_text []" "wire_text ''s''" by (simp_all add: wire_text_def utf8_ascii is_ascii_def)
  have decoded: "decode_frontend ?bind = Inr (Bind [] ''s'')" "decode_frontend ?execute = Inr (Execute [] 0)"
    by (rule decode_bind decode_execute; simp add: w usize_max_def cstr_def i32_bytes_def be_def)+
  have l: "length (f_body ?bind) = 3" "length (f_body ?execute) = 5"
    by (simp_all add: cstr_def i32_bytes_def be_def)
  obtain hs1 where h1: "feed (Bind [] ''s'') tag_bind (f_body ?bind) ?fa hs_new = (Withheld, hs1)" "hs_step hs1 = Bound"
      "hs_portal hs1 = []" "\<not> hs_described hs1" "hs_frames hs1 = tagged [] tag_bind (f_body ?bind)"
    using l(1) by (simp add: feed_def may_hold_def begins_def hold_record_def hs_new_def max_held_bytes_def Let_def)
  obtain hs2 where h2: "feed (Execute [] 0) tag_execute (f_body ?execute) ?fa hs1 = (Withheld, hs2)" "hs_step hs2 = Executed"
      "\<not> hs_described hs2"
    using h1(2-5) l by (simp add: feed_def may_hold_def hold_record_def max_held_bytes_def tagged_def be_def Let_def)
  have "hold_run example_held = (hs2, [?bind, ?execute])"
    using decoded h1(1) h2(1) by (simp only: hold_run_def example_held_def list.map fold_simps hold_step.simps frame.simps sum.case prod.case held.case append.simps)
  then show "hs_step (fst (hold_run example_held)) = Executed" "\<not> hs_described (fst (hold_run example_held))"
    "map f_tag (snd (hold_run example_held)) = [tag_bind, tag_execute]"
    using h2(2,3) by simp_all
qed

theorem cache_answers_alike_witness:
  "pr_client (pump Sync (map (Pair 100) example_answer) [] (relay_run [WasAcquired Primary]) example_pumping) = example_answer \<and>
   (\<exists>stored. pm_recording (pr_pumping (pump Sync (map (Pair 100) example_answer) [] (relay_run [WasAcquired Primary]) example_pumping)) =
      Some \<lparr>rec_key = (), rec_frames = stored, rec_failed = False\<rparr> \<and>
      assemble stored [] (fst (hold_run example_held)) = Inr (bytes_of example_answer))"
proof -
  let ?row = "\<lparr>f_tag = tag_data_row, f_body = ''x''\<rparr>"
  let ?c = "\<lparr>f_tag = tag_command_complete, f_body = ''y''\<rparr>"
  have fit: "fits ?row" "fits ?c" by (simp_all add: fits_def u32_max_def)
  have "length (frame_bytes ?row @ frame_bytes ?c) \<le> 100" by (simp add: length_frame_bytes)
  then show ?thesis
    using cache_answers_alike [of None "[?row]" ?c "[completion_of tag_bind_complete]" Sync "map (Pair 100) example_answer" example_pumping "()"
        "[]" "relay_run [WasAcquired Primary]"] example_held_run fit
    by (cases "hold_run example_held")
      (auto simp: one_answer_def head_ok_def completion_of_def example_answer_def example_pumping_def pumping_default_def
        reply_head_def list_all_iff described_by_def reply_def strip.simps completion_def ready_frame_def)
qed

end
