(* ===== verification/Spec2Isabelle.thy ===== *)
theory Spec2Isabelle
  imports Fleet_Cap Sql_Data Reap Live_Pool Startup Statement_Flow Held_Sequence
begin

text \<open>
  A verification development of pgprox, a PostgreSQL connection proxy written in Rust.

  \<^bold>\<open>The program.\<close> Clients connect to any node of a fleet. A node lends a client one of a limited number
  of upstream connections for the duration of a transaction. The limit is per upstream server and holds
  for the whole fleet: the nodes gossip about themselves, elect the lowest active node as leader, and the
  leader lends connections from a free pool on top of the share every node has without asking.
\<close>

end
